theory Spec2Isabelle
  imports Complex_Main
begin

unbundle bit_operations_syntax

chapter \<open>Program model\<close>

section \<open>Vectors of doubles\<close>

text \<open>
  Arrays and vectors of doubles are flat memories \<open>nat \<Rightarrow> real\<close> addressed by offset,
  with exact arithmetic on the entries: rounding is outside this model.
\<close>

type_synonym darray = "nat \<Rightarrow> real"


section \<open>Loops that may abort\<close>

text \<open>A loop whose body may abort: the first abort ends it.\<close>

fun foldM :: "('a \<Rightarrow> 's \<Rightarrow> 'e + 's) \<Rightarrow> 'a list \<Rightarrow> 's \<Rightarrow> 'e + 's" where
  "foldM f [] s = Inr s"
| "foldM f (x # xs) s = (case f x s of Inl e \<Rightarrow> Inl e | Inr s' \<Rightarrow> foldM f xs s')"
section \<open>Flux-corrected transport (ex9.cpp, FE\_Evolution::ComputeFCTSolution)\<close>

text \<open>
  What \<^verbatim>\<open>ComputeFCTSolution\<close> reads from its object: the time step \<^verbatim>\<open>dt\<close>, the number
  of mesh elements, the number of nodes of each element (\<^verbatim>\<open>fes->GetFE(k)->GetDof()\<close>),
  the bounds \<^verbatim>\<open>fct.bnds.x_min\<close>, \<^verbatim>\<open>fct.bnds.x_max\<close> and the lumped mass
  \<^verbatim>\<open>fct.lumpedM\<close>. Vectors are indexed memories of exact reals.
\<close>

record FE_Evolution =
  dt :: real
  GetNE :: nat
  GetDof :: "nat \<Rightarrow> nat"
  x_min :: darray
  x_max :: darray
  lumpedM :: darray

text \<open>\<^verbatim>\<open>double eps = 1.E-15\<close>\<close>

definition fct_eps :: real where
  "fct_eps = 1 / 10 ^ 15"

text \<open>
  The first loop over the nodes of element \<open>k\<close>: the high-order update clipped to the
  bounds, the antidiffusive flux against the low-order update, and the sums of the positive
  and of the negative fluxes. The state is \<open>(uClipped, fClipped, sumPos, sumNeg)\<close>; both
  vectors start as zero vectors, both sums as zero.
\<close>

definition clip_node ::
  "FE_Evolution \<Rightarrow> darray \<Rightarrow> darray \<Rightarrow> darray \<Rightarrow> nat \<Rightarrow> nat \<Rightarrow> nat \<Rightarrow>
   darray \<times> darray \<times> real \<times> real \<Rightarrow> darray \<times> darray \<times> real \<times> real" where
  "clip_node ev x yH yL k nd j = (\<lambda>(uClipped, fClipped, sumPos, sumNeg).
     let dofInd = k * nd + j;
         u = min (x_max ev dofInd) (max (x dofInd + dt ev * yH dofInd) (x_min ev dofInd));
         f = lumpedM ev dofInd * (u - (x dofInd + dt ev * yL dofInd))
     in (uClipped(j := u), fClipped(j := f), sumPos + max f 0, sumNeg + min f 0))"

definition clip_loop ::
  "FE_Evolution \<Rightarrow> darray \<Rightarrow> darray \<Rightarrow> darray \<Rightarrow> nat \<Rightarrow> nat \<Rightarrow>
   darray \<times> darray \<times> real \<times> real" where
  "clip_loop ev x yH yL k nd =
     fold (clip_node ev x yH yL k nd) [0..<nd] (\<lambda>_. 0, \<lambda>_. 0, 0, 0)"

text \<open>
  The second loop: the two guarded rescalings of \<open>fClipped(j)\<close>, one after the other, and
  the write of \<open>y(dofInd)\<close>. The state is \<open>(fClipped, y)\<close>.
\<close>

definition rescale_node ::
  "FE_Evolution \<Rightarrow> darray \<Rightarrow> real \<Rightarrow> real \<Rightarrow> nat \<Rightarrow> nat \<Rightarrow> nat \<Rightarrow>
   darray \<times> darray \<Rightarrow> darray \<times> darray" where
  "rescale_node ev yL sumPos sumNeg k nd j = (\<lambda>(fClipped, y).
     let fClipped = (if sumPos + sumNeg > fct_eps \<and> fClipped j > fct_eps
                     then fClipped(j := fClipped j * (- sumNeg / sumPos)) else fClipped);
         fClipped = (if sumPos + sumNeg < - fct_eps \<and> fClipped j < - fct_eps
                     then fClipped(j := fClipped j * (- sumPos / sumNeg)) else fClipped);
         dofInd = k * nd + j
     in (fClipped, y(dofInd := yL dofInd + fClipped j / (dt ev * lumpedM ev dofInd))))"

definition rescale_loop ::
  "FE_Evolution \<Rightarrow> darray \<Rightarrow> real \<Rightarrow> real \<Rightarrow> nat \<Rightarrow> nat \<Rightarrow>
   darray \<times> darray \<Rightarrow> darray \<times> darray" where
  "rescale_loop ev yL sumPos sumNeg k nd =
     fold (rescale_node ev yL sumPos sumNeg k nd) [0..<nd]"

text \<open>The body of the loop over the elements, and the function: the result is \<open>y\<close>.\<close>

definition FCT_element ::
  "FE_Evolution \<Rightarrow> darray \<Rightarrow> darray \<Rightarrow> darray \<Rightarrow> nat \<Rightarrow> darray \<Rightarrow> darray" where
  "FCT_element ev x yH yL k y =
     (let nd = GetDof ev k;
          (uClipped, fClipped, sumPos, sumNeg) = clip_loop ev x yH yL k nd
      in snd (rescale_loop ev yL sumPos sumNeg k nd (fClipped, y)))"

definition ComputeFCTSolution ::
  "FE_Evolution \<Rightarrow> darray \<Rightarrow> darray \<Rightarrow> darray \<Rightarrow> darray \<Rightarrow> darray" where
  "ComputeFCTSolution ev x yH yL y = fold (FCT_element ev x yH yL) [0..<GetNE ev] y"

text \<open>
  The quantity of the mass-conservation claim: the sum over the nodes of element \<open>k\<close> of
  \<open>lumpedM(dofInd) * dt * (y(dofInd) - yL(dofInd))\<close>, for a vector \<open>y\<close>.
\<close>

definition element_flux_sum :: "FE_Evolution \<Rightarrow> darray \<Rightarrow> darray \<Rightarrow> nat \<Rightarrow> nat \<Rightarrow> real" where
  "element_flux_sum ev yL y k nd =
     (\<Sum>j<nd. lumpedM ev (k * nd + j) * dt ev * (y (k * nd + j) - yL (k * nd + j)))"

subsection \<open>Names for the values the loops compute\<close>

text \<open>
  The clipped update and the clipped flux the first loop computes at a node, and the value
  of \<open>fClipped(j)\<close> after the two guarded rescalings of the second loop, as functions of
  what they are computed from.
\<close>

definition uClipped_at :: "FE_Evolution \<Rightarrow> darray \<Rightarrow> darray \<Rightarrow> nat \<Rightarrow> real" where
  "uClipped_at ev x yH dofInd =
     min (x_max ev dofInd) (max (x dofInd + dt ev * yH dofInd) (x_min ev dofInd))"

definition fClipped_at :: "FE_Evolution \<Rightarrow> darray \<Rightarrow> darray \<Rightarrow> darray \<Rightarrow> nat \<Rightarrow> real" where
  "fClipped_at ev x yH yL dofInd =
     lumpedM ev dofInd * (uClipped_at ev x yH dofInd - (x dofInd + dt ev * yL dofInd))"

definition rescaled :: "real \<Rightarrow> real \<Rightarrow> real \<Rightarrow> real" where
  "rescaled sumPos sumNeg f =
     (let f = (if sumPos + sumNeg > fct_eps \<and> f > fct_eps then f * (- sumNeg / sumPos) else f);
          f = (if sumPos + sumNeg < - fct_eps \<and> f < - fct_eps then f * (- sumPos / sumNeg) else f)
      in f)"

section \<open>Global index resolver (DofMapsDST.cpp, get\_rank)\<close>

text \<open>
  \<^verbatim>\<open>std::upper_bound(first, last, val)\<close> of the C++ standard library, written as the
  halving search it is: \<open>len\<close> elements starting at \<open>first\<close> remain to be searched.
  Every read \<open>xs ! middle\<close> is within the range \<open>first ..< first + len\<close>.
\<close>

function upper_bound_loop :: "int list \<Rightarrow> int \<Rightarrow> nat \<Rightarrow> nat \<Rightarrow> nat" where
  "upper_bound_loop xs val first len =
     (if 0 < len then
        (let half = len div 2; middle = first + half
         in if val < xs ! middle then upper_bound_loop xs val first half
            else upper_bound_loop xs val (middle + 1) (len - half - 1))
      else first)"
  by pat_completeness auto
termination
  by (relation "measure (\<lambda>(xs, val, first, len). len)") auto

declare upper_bound_loop.simps [simp del]

definition upper_bound :: "int list \<Rightarrow> int \<Rightarrow> nat" where
  "upper_bound xs val = upper_bound_loop xs val 0 (length xs)"

text \<open>
  \<^verbatim>\<open>int get_rank(int tdof, std::vector<int> & tdof_offsets)\<close>: a table of size one
  answers 0 at once; otherwise the distance of the upper bound from the start, minus one.
\<close>

definition get_rank :: "int \<Rightarrow> int list \<Rightarrow> int" where
  "get_rank tdof tdof_offsets =
     (if length tdof_offsets = 1 then 0
      else int (upper_bound tdof_offsets tdof) - 1)"

text \<open>
  The specification's reading of the result: \<open>p\<close> is an index of the table, the offset
  there is at most \<open>d\<close>, and every later offset is greater than \<open>d\<close>.
\<close>

definition largest_index_le :: "int list \<Rightarrow> int \<Rightarrow> int \<Rightarrow> bool" where
  "largest_index_le T d p \<longleftrightarrow>
     0 \<le> p \<and> nat p < length T \<and> T ! nat p \<le> d \<and>
     (\<forall>q \<in> {Suc (nat p) ..< length T}. d < T ! q)"

section \<open>Subdomain grid and directions (DofMapsDST.cpp)\<close>

text \<open>
  Subdomain ids, grid sizes and grid coordinates are the non-negative \<^verbatim>\<open>int\<close>s of the
  source, here natural numbers; on them C's \<^verbatim>\<open>/\<close> and \<^verbatim>\<open>%\<close> are \<open>div\<close> and \<open>mod\<close>.
  The components of a direction are integers in \<open>{-1, 0, 1}\<close>. \<^verbatim>\<open>Array<int>\<close> values
  whose size is read (\<^verbatim>\<open>ijk.Size()\<close>) are lists.
\<close>

text \<open>\<^verbatim>\<open>void GetSubdomainijk(int ip, const Array<int> nxyz, Array<int> & ijk)\<close>\<close>

definition GetSubdomainijk :: "nat \<Rightarrow> nat list \<Rightarrow> nat list" where
  "GetSubdomainijk ip nxyz =
     (let ijk2 = ip div (nxyz ! 0 * nxyz ! 1);
          ijk1 = (ip - ijk2 * nxyz ! 0 * nxyz ! 1) div nxyz ! 0;
          ijk0 = (ip - ijk2 * nxyz ! 0 * nxyz ! 1) mod nxyz ! 0
      in [ijk0, ijk1, ijk2])"

text \<open>\<^verbatim>\<open>void GetDirectionijk(int id, Array<int> & ijk)\<close>\<close>

definition GetDirectionijk :: "nat \<Rightarrow> int list" where
  "GetDirectionijk id0 =
     (let n = 3;
          ijk2 = int id0 div (n * n) - 1;
          ijk1 = (int id0 - (ijk2 + 1) * n * n) div n - 1;
          ijk0 = (int id0 - (ijk2 + 1) * n * n) mod n - 1
      in [ijk0, ijk1, ijk2])"

text \<open>\<^verbatim>\<open>int GetSubdomainId(const Array<int> nxyz, Array<int> & ijk)\<close>\<close>

definition GetSubdomainId :: "nat list \<Rightarrow> nat list \<Rightarrow> nat" where
  "GetSubdomainId nxyz ijk =
     (let sz = length ijk;
          k = (if sz = 2 then 0 else ijk ! 2)
      in k * nxyz ! 1 * nxyz ! 0 + ijk ! 1 * nxyz ! 0 + ijk ! 0)"

text \<open>\<^verbatim>\<open>int GetDirectionId(const Array<int> & ijk)\<close>\<close>

definition GetDirectionId :: "int list \<Rightarrow> int" where
  "GetDirectionId ijk =
     (let n = 3;
          sz = length ijk;
          k = (if sz = 2 then - 1 else ijk ! 2)
      in (k + 1) * n * n + (ijk ! 1 + 1) * n + ijk ! 0 + 1)"

section \<open>Overlap region builder (DofMaps::ComputeOvlpElems)\<close>

text \<open>
  What the builder reads of a subdomain mesh: the number of elements, the centre of each
  element (the image of the reference centre under the element transformation) and the
  bounding box. Vectors of doubles are indexed memories of exact reals, arrays of flags
  are indexed memories of booleans.
\<close>

record subdomain_mesh_data =
  mesh_NE :: nat
  elem_center :: "nat \<Rightarrow> darray"
  pmin :: darray
  pmax :: darray

text \<open>
  What the builder reads of the \<^verbatim>\<open>DofMaps\<close> object and its partition: the space
  dimension \<^verbatim>\<open>dim\<close> (here \<open>sdim\<close>), the grid sizes, the number of subdomains, the rank
  of this process, the owner of each subdomain, \<^verbatim>\<open>part->OvlpNlayers\<close>,
  \<^verbatim>\<open>part->MeshSize\<close> and the subdomain meshes.
\<close>

record DofMaps_data =
  sdim :: nat
  nxyz :: "nat list"
  nrsubdomains :: nat
  myid :: nat
  subdomain_rank :: "nat \<Rightarrow> nat"
  OvlpNlayers :: nat
  MeshSize :: real
  subdomain_mesh :: "nat \<Rightarrow> subdomain_mesh_data"

text \<open>
  \<^verbatim>\<open>OvlpElems[l][DirId]\<close>: for each subdomain and direction id, the list of elements
  appended so far.
\<close>

type_synonym ovlp_elems = "nat \<Rightarrow> nat \<Rightarrow> nat list"

text \<open>
  \<^verbatim>\<open>void DofMaps::AddElementToOvlpLists(int l, int iel, neg, pos)\<close>, one definition
  per loop body, innermost first. Each \<^verbatim>\<open>continue\<close> leaves the lists as they are for
  that index.
\<close>

definition AddElement_i ::
  "nat \<Rightarrow> nat \<Rightarrow> nat \<Rightarrow> (nat \<Rightarrow> bool) \<Rightarrow> (nat \<Rightarrow> bool) \<Rightarrow> int \<Rightarrow> int \<Rightarrow> int \<Rightarrow>
   ovlp_elems \<Rightarrow> ovlp_elems" where
  "AddElement_i dm_dim l iel neg pos k j i OvlpElems =
     (if i = - 1 \<and> \<not> neg 0 then OvlpElems
      else if i = 1 \<and> \<not> pos 0 then OvlpElems
      else if i = 0 \<and> j = 0 \<and> k = 0 then OvlpElems
      else
        (let dijk = [i, j, if dm_dim = 2 then - 1 else k];
             DirId = nat (GetDirectionId dijk)
         in OvlpElems(l := (OvlpElems l)(DirId := OvlpElems l DirId @ [iel]))))"

definition AddElement_j ::
  "nat \<Rightarrow> nat \<Rightarrow> nat \<Rightarrow> (nat \<Rightarrow> bool) \<Rightarrow> (nat \<Rightarrow> bool) \<Rightarrow> int \<Rightarrow> int \<Rightarrow>
   ovlp_elems \<Rightarrow> ovlp_elems" where
  "AddElement_j dm_dim l iel neg pos k j OvlpElems =
     (if j = - 1 \<and> \<not> neg 1 then OvlpElems
      else if j = 1 \<and> \<not> pos 1 then OvlpElems
      else fold (AddElement_i dm_dim l iel neg pos k j) [- 1, 0, 1] OvlpElems)"

definition AddElement_k ::
  "nat \<Rightarrow> nat \<Rightarrow> nat \<Rightarrow> (nat \<Rightarrow> bool) \<Rightarrow> (nat \<Rightarrow> bool) \<Rightarrow> int \<Rightarrow>
   ovlp_elems \<Rightarrow> ovlp_elems" where
  "AddElement_k dm_dim l iel neg pos k OvlpElems =
     (if dm_dim = 3 \<and> k = - 1 \<and> \<not> neg 2 then OvlpElems
      else if dm_dim = 3 \<and> k = 1 \<and> \<not> pos 2 then OvlpElems
      else fold (AddElement_j dm_dim l iel neg pos k) [- 1, 0, 1] OvlpElems)"

definition AddElementToOvlpLists ::
  "nat \<Rightarrow> nat \<Rightarrow> nat \<Rightarrow> (nat \<Rightarrow> bool) \<Rightarrow> (nat \<Rightarrow> bool) \<Rightarrow> ovlp_elems \<Rightarrow> ovlp_elems" where
  "AddElementToOvlpLists dm_dim l iel neg pos OvlpElems =
     (let kbeg = (if dm_dim = 2 then 0 else - 1);
          kend = (if dm_dim = 2 then 0 else 1)
      in fold (AddElement_k dm_dim l iel neg pos) [kbeg..kend] OvlpElems)"

text \<open>
  What each of these loop bodies appends to the list of direction id \<open>d\<close>: nothing where
  it takes a \<^verbatim>\<open>continue\<close>, the element where it reaches \<^verbatim>\<open>Append\<close> with that id.
\<close>

definition appended_i ::
  "nat \<Rightarrow> nat \<Rightarrow> (nat \<Rightarrow> bool) \<Rightarrow> (nat \<Rightarrow> bool) \<Rightarrow> nat \<Rightarrow> int \<Rightarrow> int \<Rightarrow> int \<Rightarrow> nat list" where
  "appended_i dm_dim iel neg pos d k j i =
     (if i = - 1 \<and> \<not> neg 0 then []
      else if i = 1 \<and> \<not> pos 0 then []
      else if i = 0 \<and> j = 0 \<and> k = 0 then []
      else if nat (GetDirectionId [i, j, if dm_dim = 2 then - 1 else k]) = d then [iel]
      else [])"

definition appended_j ::
  "nat \<Rightarrow> nat \<Rightarrow> (nat \<Rightarrow> bool) \<Rightarrow> (nat \<Rightarrow> bool) \<Rightarrow> nat \<Rightarrow> int \<Rightarrow> int \<Rightarrow> nat list" where
  "appended_j dm_dim iel neg pos d k j =
     (if j = - 1 \<and> \<not> neg 1 then []
      else if j = 1 \<and> \<not> pos 1 then []
      else concat (map (appended_i dm_dim iel neg pos d k j) [- 1, 0, 1]))"

definition appended_k ::
  "nat \<Rightarrow> nat \<Rightarrow> (nat \<Rightarrow> bool) \<Rightarrow> (nat \<Rightarrow> bool) \<Rightarrow> nat \<Rightarrow> int \<Rightarrow> nat list" where
  "appended_k dm_dim iel neg pos d k =
     (if dm_dim = 3 \<and> k = - 1 \<and> \<not> neg 2 then []
      else if dm_dim = 3 \<and> k = 1 \<and> \<not> pos 2 then []
      else concat (map (appended_j dm_dim iel neg pos d k) [- 1, 0, 1]))"

text \<open>
  The loop over the dimensions that sets the flags of one element, from
  \<^verbatim>\<open>pos = false; neg = false\<close>. The state is \<open>(neg, pos)\<close>; \<open>nlayers\<close> is the local
  variable \<^verbatim>\<open>int nlayers = 2*part->OvlpNlayers\<close>.
\<close>

definition overlap_flags ::
  "DofMaps_data \<Rightarrow> nat list \<Rightarrow> subdomain_mesh_data \<Rightarrow> nat \<Rightarrow> (nat \<Rightarrow> bool) \<times> (nat \<Rightarrow> bool)"
  where
  "overlap_flags dm ijk mesh iel =
     (let nlayers = 2 * OvlpNlayers dm;
          h = MeshSize dm;
          center = elem_center mesh iel
      in fold (\<lambda>d (neg, pos).
           (if 0 < ijk ! d \<and> center d < pmin mesh d + h * real nlayers
            then neg(d := True) else neg,
            if int (ijk ! d) < int (nxyz dm ! d) - 1 \<and> center d > pmax mesh d - h * real nlayers
            then pos(d := True) else pos))
         [0..<sdim dm] (\<lambda>_. False, \<lambda>_. False))"

text \<open>
  \<^verbatim>\<open>void DofMaps::ComputeOvlpElems()\<close>, run on the empty \<^verbatim>\<open>OvlpElems\<close> of a new object:
  the body of the loop over the elements, the body of the loop over the subdomains, and
  the function, whose result is \<^verbatim>\<open>OvlpElems\<close>. A subdomain this process does not own
  keeps no list; \<^verbatim>\<open>OvlpElems[l].resize(pow(3,dim))\<close> gives an owned one its empty lists.
\<close>

definition ComputeOvlpElems_element ::
  "DofMaps_data \<Rightarrow> nat list \<Rightarrow> subdomain_mesh_data \<Rightarrow> nat \<Rightarrow> nat \<Rightarrow> ovlp_elems \<Rightarrow> ovlp_elems"
  where
  "ComputeOvlpElems_element dm ijk mesh l iel OvlpElems =
     (let (neg, pos) = overlap_flags dm ijk mesh iel
      in AddElementToOvlpLists (sdim dm) l iel neg pos OvlpElems)"

definition ComputeOvlpElems_subdomain :: "DofMaps_data \<Rightarrow> nat \<Rightarrow> ovlp_elems \<Rightarrow> ovlp_elems" where
  "ComputeOvlpElems_subdomain dm l OvlpElems =
     (if myid dm = subdomain_rank dm l then
        (let ijk = GetSubdomainijk l (nxyz dm);
             mesh = subdomain_mesh dm l;
             OvlpElems = OvlpElems(l := (\<lambda>_. []))
         in fold (ComputeOvlpElems_element dm ijk mesh l) [0..<mesh_NE mesh] OvlpElems)
      else OvlpElems)"

definition ComputeOvlpElems :: "DofMaps_data \<Rightarrow> ovlp_elems" where
  "ComputeOvlpElems dm =
     fold (ComputeOvlpElems_subdomain dm) [0..<nrsubdomains dm] (\<lambda>_ _. [])"

text \<open>
  The specification's membership test: a direction \<open>v\<close> (its first \<open>dim\<close> components) is
  not the zero direction, every component \<open>-1\<close> has its \<open>neg\<close> flag and every component
  \<open>+1\<close> its \<open>pos\<close> flag.
\<close>

definition direction_compatible ::
  "nat \<Rightarrow> int list \<Rightarrow> (nat \<Rightarrow> bool) \<Rightarrow> (nat \<Rightarrow> bool) \<Rightarrow> bool" where
  "direction_compatible dm_dim v neg pos \<longleftrightarrow>
     (\<exists>a \<in> {..<dm_dim}. v ! a \<noteq> 0) \<and>
     (\<forall>a \<in> {..<dm_dim}. (v ! a = - 1 \<longrightarrow> neg a) \<and> (v ! a = 1 \<longrightarrow> pos a))"

section \<open>Neighbor data exchange (DofMaps::TransferToNeighbors)\<close>

text \<open>
  A \<^verbatim>\<open>Vector\<close> whose size matters is a list of reals. \<^verbatim>\<open>Vector::GetSubVector\<close> and
  \<^verbatim>\<open>Vector::SetSubVector\<close> belong to the library's linear algebra, not to the files at
  hand; they are written here for index lists without negative entries, as the overlap
  lists are: the first collects the entries at the given indices, the second stores the
  entries of a vector at the given indices, one after the other.
\<close>

type_synonym vector = "real list"

definition GetSubVector :: "vector \<Rightarrow> nat list \<Rightarrow> vector" where
  "GetSubVector v dofs = map (\<lambda>j. v ! j) dofs"

definition SetSubVector :: "vector \<Rightarrow> nat list \<Rightarrow> vector \<Rightarrow> vector" where
  "SetSubVector v dofs elemvect =
     fold (\<lambda>i v. v[dofs ! i := elemvect ! i]) [0..<length dofs] v"

text \<open>
  The head of both loops over \<open>(is, d)\<close>, which is the same text twice in the source: from
  the subdomain \<open>i0\<close> and the direction id \<open>d\<close> to the neighbor subdomain \<open>i1\<close>. Every
  \<^verbatim>\<open>continue\<close> is the result \<open>None\<close>.
\<close>

definition neighbor_subdomain :: "DofMaps_data \<Rightarrow> nat \<Rightarrow> nat \<Rightarrow> nat option" where
  "neighbor_subdomain dm i0 d =
     (let ijk = GetSubdomainijk i0 (nxyz dm);
          directions = GetDirectionijk d
      in if sdim dm = 2 \<and> directions ! 0 = 0 \<and> directions ! 1 = 0 then None
         else if sdim dm = 3 \<and> directions ! 0 = 0 \<and> directions ! 1 = 0 \<and> directions ! 2 = 0
         then None
         else
           (let i = int (ijk ! 0) + directions ! 0
            in if i < 0 \<or> i \<ge> int (nxyz dm ! 0) then None
               else
                 (let j = int (ijk ! 1) + directions ! 1
                  in if j < 0 \<or> j \<ge> int (nxyz dm ! 1) then None
                     else
                       (let k = (if sdim dm = 3 then int (ijk ! 2) + directions ! 2 else 0)
                        in if k < 0 \<or> k \<ge> int (nxyz dm ! 2) then None
                           else Some (GetSubdomainId (nxyz dm) [nat i, nat j, nat k])))))"

text \<open>
  \<^verbatim>\<open>Array<int> direction1(3); direction1 = -1; for (d < dim) direction1[d] = -directions[d];\<close>
  and the id of the result.
\<close>

definition opposite_direction_id :: "DofMaps_data \<Rightarrow> nat \<Rightarrow> nat" where
  "opposite_direction_id dm d =
     (let directions = GetDirectionijk d;
          direction1 = fold (\<lambda>a direction1. direction1[a := - directions ! a])
                         [0..<sdim dm] [- 1, - 1, - 1]
      in nat (GetDirectionId direction1))"

text \<open>
  A posted send is its destination rank, its tag and the values sent; a posted receive is
  its source rank, its tag and the number of values expected.
\<close>

type_synonym send_request = "nat \<times> nat \<times> vector"
type_synonym recv_request = "nat \<times> nat \<times> nat"

text \<open>
  The aborts of a call: the size check at its head, and an index outside \<^verbatim>\<open>x\<close>. The
  argument \<^verbatim>\<open>x\<close> is an \<^verbatim>\<open>Array<Vector *>\<close>, read as \<^verbatim>\<open>x[i0]\<close> at a subdomain id;
  \<^verbatim>\<open>Array\<close> checks the index in a debug build, where an index outside the array aborts
  (a release build reads outside the array).
\<close>

datatype transfer_abort = TransferToNeighbors_Size_inconsistency | x_index_out_of_bounds

text \<open>
  The body of the first pair of loops: its head, and what follows the head for a
  neighbor \<open>i1\<close>. The state is the lists of posted sends and posted receives, in the order
  of \<^verbatim>\<open>send_counter\<close> and \<^verbatim>\<open>recv_counter\<close>. The read \<^verbatim>\<open>x[i0]\<close> happens in the branch of
  the owner of \<open>i0\<close>, before the receive of the same pair is posted.
\<close>

definition post_at ::
  "DofMaps_data \<Rightarrow> (nat \<Rightarrow> nat \<Rightarrow> nat list) \<Rightarrow> vector list \<Rightarrow> nat \<times> nat \<times> nat \<Rightarrow>
   send_request list \<times> recv_request list \<Rightarrow>
   transfer_abort + send_request list \<times> recv_request list" where
  "post_at dm OvlpTDofs x = (\<lambda>(i0, d, i1) (sends, recvs).
     if myid dm = subdomain_rank dm i0 \<and> i0 \<ge> length x then Inl x_index_out_of_bounds
     else
       (let nrneighbors = 3 ^ sdim dm;
            sends = (if myid dm = subdomain_rank dm i0
                     then sends @ [(subdomain_rank dm i1, i0 * nrneighbors + d,
                                    GetSubVector (x ! i0) (OvlpTDofs i0 d))]
                     else sends);
            recvs = (if myid dm = subdomain_rank dm i1
                     then recvs @ [(subdomain_rank dm i0, i0 * nrneighbors + d,
                                    length (OvlpTDofs i1 (opposite_direction_id dm d)))]
                     else recvs)
        in Inr (sends, recvs)))"

definition post_requests ::
  "DofMaps_data \<Rightarrow> (nat \<Rightarrow> nat \<Rightarrow> nat list) \<Rightarrow> vector list \<Rightarrow> nat \<Rightarrow> nat \<Rightarrow>
   send_request list \<times> recv_request list \<Rightarrow>
   transfer_abort + send_request list \<times> recv_request list" where
  "post_requests dm OvlpTDofs x i0 d requests =
     (case neighbor_subdomain dm i0 d of
        None \<Rightarrow> Inr requests
      | Some i1 \<Rightarrow> post_at dm OvlpTDofs x (i0, d, i1) requests)"

text \<open>
  The body of the second pair of loops, in the same two parts. The state is
  \<^verbatim>\<open>OvlpSol\<close> (no vector is \<open>None\<close>) and \<^verbatim>\<open>recv_counter\<close>; \<open>recv_buffer r\<close> is the content
  of the \<open>r\<close>-th receive buffer after \<^verbatim>\<open>MPI_Waitall\<close>, which is what the other processes
  sent.
\<close>

type_synonym ovlp_sol = "nat \<Rightarrow> nat \<Rightarrow> vector option"

definition extract_at ::
  "DofMaps_data \<Rightarrow> (nat \<Rightarrow> nat \<Rightarrow> nat list) \<Rightarrow> (nat \<Rightarrow> nat) \<Rightarrow> (nat \<Rightarrow> vector) \<Rightarrow>
   nat \<times> nat \<times> nat \<Rightarrow> ovlp_sol \<times> nat \<Rightarrow> ovlp_sol \<times> nat" where
  "extract_at dm OvlpTDofs GetTrueVSize recv_buffer = (\<lambda>(i0, d, i1) (OvlpSol, recv_counter).
     if myid dm = subdomain_rank dm i1 then
       (let d1 = opposite_direction_id dm d;
            tdofs1 = OvlpTDofs i1 d1;
            v = SetSubVector (replicate (GetTrueVSize i1) 0) tdofs1 (recv_buffer recv_counter)
        in (OvlpSol(i1 := (OvlpSol i1)(d1 := Some v)), recv_counter + 1))
     else (OvlpSol, recv_counter))"

definition extract_received ::
  "DofMaps_data \<Rightarrow> (nat \<Rightarrow> nat \<Rightarrow> nat list) \<Rightarrow> (nat \<Rightarrow> nat) \<Rightarrow> (nat \<Rightarrow> vector) \<Rightarrow> nat \<Rightarrow> nat \<Rightarrow>
   ovlp_sol \<times> nat \<Rightarrow> ovlp_sol \<times> nat" where
  "extract_received dm OvlpTDofs GetTrueVSize recv_buffer i0 d state =
     (case neighbor_subdomain dm i0 d of
        None \<Rightarrow> state
      | Some i1 \<Rightarrow> extract_at dm OvlpTDofs GetTrueVSize recv_buffer (i0, d, i1) state)"

text \<open>
  \<^verbatim>\<open>void DofMaps::TransferToNeighbors(SubdomainIds, x)\<close>. The result is an abort, of
  \<^verbatim>\<open>MFEM_VERIFY\<close> or of a read of \<^verbatim>\<open>x\<close> in the first pair of loops, or the requests posted
  and \<^verbatim>\<open>OvlpSol\<close> at return.
\<close>

definition TransferToNeighbors ::
  "DofMaps_data \<Rightarrow> (nat \<Rightarrow> nat \<Rightarrow> nat list) \<Rightarrow> (nat \<Rightarrow> nat) \<Rightarrow> nat list \<Rightarrow> vector list \<Rightarrow>
   (nat \<Rightarrow> vector) \<Rightarrow> ovlp_sol \<Rightarrow>
   transfer_abort + (send_request list \<times> recv_request list \<times> ovlp_sol)" where
  "TransferToNeighbors dm OvlpTDofs GetTrueVSize SubdomainIds x recv_buffer OvlpSol =
     (if length SubdomainIds \<noteq> length x then Inl TransferToNeighbors_Size_inconsistency
      else
        (let nrsendIds = length SubdomainIds;
             nrneighbors = 3 ^ sdim dm
         in case foldM (\<lambda>is. foldM (post_requests dm OvlpTDofs x (SubdomainIds ! is))
                                [0..<nrneighbors])
                   [0..<nrsendIds] ([], []) of
              Inl e \<Rightarrow> Inl e
            | Inr (sends, recvs) \<Rightarrow>
                (let (OvlpSol, recv_counter) =
                       fold (\<lambda>is. fold (extract_received dm OvlpTDofs GetTrueVSize recv_buffer
                                          (SubdomainIds ! is)) [0..<nrneighbors])
                         [0..<nrsendIds] (OvlpSol, 0)
                 in Inr (sends, recvs, OvlpSol))))"

text \<open>
  The pairs \<open>(i0, d)\<close> that pass the head of the loops, with the neighbor \<open>i1\<close>, in the
  order of the loops; and those among them at which this process receives.
\<close>

definition exchange_slots :: "DofMaps_data \<Rightarrow> nat list \<Rightarrow> (nat \<times> nat \<times> nat) list" where
  "exchange_slots dm SubdomainIds =
     concat (map (\<lambda>i0. List.map_filter
                          (\<lambda>d. map_option (\<lambda>i1. (i0, d, i1)) (neighbor_subdomain dm i0 d))
                          [0..<3 ^ sdim dm])
              SubdomainIds)"

definition receiving_slots :: "DofMaps_data \<Rightarrow> nat list \<Rightarrow> (nat \<times> nat \<times> nat) list" where
  "receiving_slots dm SubdomainIds =
     filter (\<lambda>(i0, d, i1). myid dm = subdomain_rank dm i1) (exchange_slots dm SubdomainIds)"

text \<open>
  The specification's picture of a vector \<open>v\<close> that holds a received buffer: it has the
  size of the subdomain's space, the buffer's entries at the overlap positions and zero
  everywhere else.
\<close>

definition holds_received :: "vector \<Rightarrow> nat \<Rightarrow> nat list \<Rightarrow> vector \<Rightarrow> bool" where
  "holds_received v n tdofs buffer \<longleftrightarrow>
     length v = n \<and>
     (\<forall>m \<in> {..<length tdofs}. v ! (tdofs ! m) = buffer ! m) \<and>
     (\<forall>p \<in> {..<n}. p \<notin> set tdofs \<longrightarrow> v ! p = 0)"

text \<open>The zero direction, as the head of the loops tests it.\<close>

definition zero_direction :: "DofMaps_data \<Rightarrow> nat \<Rightarrow> bool" where
  "zero_direction dm d \<longleftrightarrow>
     (let directions = GetDirectionijk d
      in (sdim dm = 2 \<and> directions ! 0 = 0 \<and> directions ! 1 = 0) \<or>
         (sdim dm = 3 \<and> directions ! 0 = 0 \<and> directions ! 1 = 0 \<and> directions ! 2 = 0))"

text \<open>The destination coordinates \<open>(i, j, k)\<close> of subdomain \<open>i0\<close> in direction \<open>d\<close>.\<close>

definition destination :: "DofMaps_data \<Rightarrow> nat \<Rightarrow> nat \<Rightarrow> int list" where
  "destination dm i0 d =
     (let ijk = GetSubdomainijk i0 (nxyz dm);
          directions = GetDirectionijk d
      in [int (ijk ! 0) + directions ! 0, int (ijk ! 1) + directions ! 1,
          if sdim dm = 3 then int (ijk ! 2) + directions ! 2 else 0])"

definition inside_grid :: "DofMaps_data \<Rightarrow> int list \<Rightarrow> bool" where
  "inside_grid dm c \<longleftrightarrow> (\<forall>a \<in> {..<3}. 0 \<le> c ! a \<and> c ! a < int (nxyz dm ! a))"

section \<open>Subdomain to global maps, phase A (DofMaps::SubdomainToGlobalMapsSetup, step 4)\<close>

text \<open>
  \<^verbatim>\<open>Array<int>\<close> checks an index in debug builds only, where a bad index aborts; a
  release build reads or writes outside the array. The model reports a bad index as the
  debug build's abort. The check \<^verbatim>\<open>MFEM_VERIFY(nrdof == global_tdofs[ip].Size(), ...)\<close>
  is commented out in the source, so the function has no abort of its own here.
\<close>

datatype setup_abort = Array_index_out_of_bounds

text \<open>\<^verbatim>\<open>int edof = (edof_ >= 0) ? edof_ : abs(edof_) - 1;\<close>\<close>

definition decode_dof :: "int \<Rightarrow> nat" where
  "decode_dof edof' = nat (if edof' \<ge> 0 then edof' else \<bar>edof'\<bar> - 1)"

text \<open>
  The innermost body: \<^verbatim>\<open>SubdomainGTrueDofs[ip][edof] = global_tdofs[ip][k]; k++;\<close>.
  The state is the array under construction and the counter \<open>k\<close>.
\<close>

definition assign_gtdof ::
  "int list \<Rightarrow> int \<Rightarrow> int list \<times> nat \<Rightarrow> setup_abort + int list \<times> nat" where
  "assign_gtdof global_tdofs_ip edof' = (\<lambda>(GTrueDofs, k).
     let edof = decode_dof edof'
     in if k \<ge> length global_tdofs_ip then Inl Array_index_out_of_bounds
        else if edof \<ge> length GTrueDofs then Inl Array_index_out_of_bounds
        else Inr (GTrueDofs[edof := global_tdofs_ip ! k], k + 1))"

text \<open>
  The body of the loop over the subdomains for an owned subdomain: \<open>nrdof\<close> is
  \<^verbatim>\<open>fes[ip]->GetTrueVSize()\<close>, \<open>nel\<close> the number of its elements, \<open>GetElementDofs iel\<close>
  the dofs of element \<open>iel\<close> in its space, \<open>global_tdofs_ip\<close> the ids reassembled for it.
  \<^verbatim>\<open>SetSize(nrdof)\<close> does not initialise the entries: \<open>uninit\<close> is what they hold.
\<close>

definition build_SubdomainGTrueDofs ::
  "nat \<Rightarrow> nat \<Rightarrow> (nat \<Rightarrow> int list) \<Rightarrow> int list \<Rightarrow> int \<Rightarrow> setup_abort + int list" where
  "build_SubdomainGTrueDofs nrdof nel GetElementDofs global_tdofs_ip uninit =
     (case foldM (\<lambda>iel. foldM (\<lambda>i. assign_gtdof global_tdofs_ip (GetElementDofs iel ! i))
                           [0..<length (GetElementDofs iel)])
             [0..<nel] (replicate nrdof uninit, 0) of
        Inl e \<Rightarrow> Inl e
      | Inr (GTrueDofs, k) \<Rightarrow> Inr GTrueDofs)"

text \<open>
  Step 4 of \<^verbatim>\<open>SubdomainToGlobalMapsSetup\<close>: the loop over the subdomains, from
  \<^verbatim>\<open>SubdomainGTrueDofs.resize(nrsubdomains)\<close>. A subdomain of another process is
  skipped.
\<close>

definition construct_SubdomainGTrueDofs ::
  "nat \<Rightarrow> nat \<Rightarrow> (nat \<Rightarrow> nat) \<Rightarrow> (nat \<Rightarrow> nat) \<Rightarrow> (nat \<Rightarrow> nat) \<Rightarrow> (nat \<Rightarrow> nat \<Rightarrow> int list) \<Rightarrow>
   (nat \<Rightarrow> int list) \<Rightarrow> int \<Rightarrow> setup_abort + (nat \<Rightarrow> int list)" where
  "construct_SubdomainGTrueDofs nrsubdoms my_id subdom_rank GetTrueVSize nel GetElementDofs
       global_tdofs uninit =
     foldM (\<lambda>ip SubdomainGTrueDofs.
         if my_id \<noteq> subdom_rank ip then Inr SubdomainGTrueDofs
         else
           (case build_SubdomainGTrueDofs (GetTrueVSize ip) (nel ip) (GetElementDofs ip)
                   (global_tdofs ip) uninit of
              Inl e \<Rightarrow> Inl e
            | Inr GTrueDofs \<Rightarrow> Inr (SubdomainGTrueDofs(ip := GTrueDofs))))
       [0..<nrsubdoms] (\<lambda>_. [])"

text \<open>The local dofs in the order the two loops visit them.\<close>

definition dof_traversal :: "nat \<Rightarrow> (nat \<Rightarrow> int list) \<Rightarrow> nat list" where
  "dof_traversal nel GetElementDofs =
     concat (map (\<lambda>iel. map decode_dof (GetElementDofs iel)) [0..<nel])"

section \<open>Subdomains to global (DofMaps::SubdomainsToGlobal)\<close>

text \<open>
  What one process holds of the bridge between the subdomains and the global space: for a
  subdomain it owns, the global true dof of each of its true dofs; for every subdomain,
  the global true dofs of that subdomain that the process itself owns; and the offset of
  its own slice of the global vector.
\<close>

record bridge =
  SubdomainGTrueDofs :: "nat \<Rightarrow> int list"
  SubdomainLTrueDofs :: "nat \<Rightarrow> int list"
  mytoffset :: int

text \<open>
  The arrays of counts, displacements and offsets, one entry for each process, and the
  buffers are memories addressed by index. The vectors \<^verbatim>\<open>x[ip]\<close> and \<^verbatim>\<open>y\<close> are lists of
  reals, with exact arithmetic on the entries. An index outside an array or a vector is an
  abort of a debug build and a stray access of a release build; the model gives such a
  run no meaning of its own (a rank or an offset \<^verbatim>\<open>tdof - mytoffset\<close> that is negative is
  read as 0), and what is proved is about the calls described by \<open>bridges_set_up\<close> and
  \<open>vectors_fit\<close> below, in which every index lies within its array.
\<close>

definition tdof_rank :: "int list \<Rightarrow> int \<Rightarrow> nat" where
  "tdof_rank tdof_offsets tdof = nat (get_rank tdof tdof_offsets)"

text \<open>\<^verbatim>\<open>send_count[tdof_rank]++;\<close>\<close>

definition count_entry :: "int list \<Rightarrow> int list \<Rightarrow> nat \<Rightarrow> (nat \<Rightarrow> nat) \<Rightarrow> (nat \<Rightarrow> nat)" where
  "count_entry tdof_offsets GTrueDofs i send_count =
     (let tdof = GTrueDofs ! i;
          r = tdof_rank tdof_offsets tdof
      in send_count(r := send_count r + 1))"

text \<open>The first loop over the subdomains, from \<^verbatim>\<open>send_count = 0\<close>.\<close>

definition send_counts ::
  "nat \<Rightarrow> nat \<Rightarrow> (nat \<Rightarrow> nat) \<Rightarrow> int list \<Rightarrow> (nat \<Rightarrow> int list) \<Rightarrow> (nat \<Rightarrow> nat)" where
  "send_counts nrsubdoms my_id subdom_rank tdof_offsets GTrueDofs =
     fold (\<lambda>ip send_count.
         if my_id \<noteq> subdom_rank ip then send_count
         else fold (count_entry tdof_offsets (GTrueDofs ip)) [0..<length (GTrueDofs ip)]
                send_count)
       [0..<nrsubdoms] (\<lambda>_. 0)"

text \<open>
  \<^verbatim>\<open>for (int k=0; k<num_procs-1; k++) { displ[k+1] = displ[k] + count[k]; }\<close>, from
  \<^verbatim>\<open>displ = 0\<close>. The source fills the two arrays of displacements in one loop.
\<close>

definition displacements :: "nat \<Rightarrow> (nat \<Rightarrow> nat) \<Rightarrow> (nat \<Rightarrow> nat)" where
  "displacements num_procs count =
     fold (\<lambda>k displ. displ(k + 1 := displ k + count k)) [0..<num_procs - 1] (\<lambda>_. 0)"

text \<open>
  \<^verbatim>\<open>int k = send_displ[tdof_rank] + soffs[tdof_rank]; soffs[tdof_rank]++;\<close>
  \<^verbatim>\<open>sendbuf[k] = x[ip][i];\<close>
\<close>

definition pack_entry ::
  "int list \<Rightarrow> (nat \<Rightarrow> nat) \<Rightarrow> int list \<Rightarrow> vector \<Rightarrow> nat \<Rightarrow>
   darray \<times> (nat \<Rightarrow> nat) \<Rightarrow> darray \<times> (nat \<Rightarrow> nat)" where
  "pack_entry tdof_offsets send_displ GTrueDofs x_ip i = (\<lambda>(sendbuf, soffs).
     let tdof = GTrueDofs ! i;
         r = tdof_rank tdof_offsets tdof;
         k = send_displ r + soffs r
     in (sendbuf(k := x_ip ! i), soffs(r := soffs r + 1)))"

text \<open>The second loop over the subdomains, from \<^verbatim>\<open>sendbuf = 0\<close> and \<^verbatim>\<open>soffs = 0\<close>.\<close>

definition fill_sendbuf ::
  "nat \<Rightarrow> nat \<Rightarrow> (nat \<Rightarrow> nat) \<Rightarrow> int list \<Rightarrow> (nat \<Rightarrow> int list) \<Rightarrow> (nat \<Rightarrow> nat) \<Rightarrow>
   (nat \<Rightarrow> vector) \<Rightarrow> darray" where
  "fill_sendbuf nrsubdoms my_id subdom_rank tdof_offsets GTrueDofs send_displ x =
     fst (fold (\<lambda>ip s.
         if my_id \<noteq> subdom_rank ip then s
         else fold (pack_entry tdof_offsets send_displ (GTrueDofs ip) (x ip))
                [0..<length (GTrueDofs ip)] s)
       [0..<nrsubdoms] (\<lambda>_. 0, \<lambda>_. 0))"

text \<open>
  Modelled from the spec: the two collectives of the message-passing library, which is not
  among the sources. \<^verbatim>\<open>MPI_Alltoall\<close> with one integer for each process gives process \<open>q\<close>,
  in entry \<open>p\<close>, what process \<open>p\<close> sends to \<open>q\<close>. \<^verbatim>\<open>MPI_Alltoallv\<close> is the variable-size
  all-to-all exchange: process \<open>q\<close> receives from each \<open>p\<close> the block that \<open>p\<close> sends to
  \<open>q\<close> (at \<open>p\<close>'s displacement for \<open>q\<close>) and places its \<open>recv_count[p]\<close> values from
  \<open>recv_displ[p]\<close> on; the rest of the receive buffer stays as it was.
\<close>

definition MPI_Alltoall :: "nat \<Rightarrow> (nat \<Rightarrow> nat \<Rightarrow> nat) \<Rightarrow> nat \<Rightarrow> (nat \<Rightarrow> nat)" where
  "MPI_Alltoall num_procs send_count q = (\<lambda>p. if p < num_procs then send_count p q else 0)"

definition MPI_Alltoallv ::
  "nat \<Rightarrow> (nat \<Rightarrow> darray) \<Rightarrow> (nat \<Rightarrow> nat \<Rightarrow> nat) \<Rightarrow> (nat \<Rightarrow> nat) \<Rightarrow> (nat \<Rightarrow> nat) \<Rightarrow> nat \<Rightarrow>
   darray \<Rightarrow> darray" where
  "MPI_Alltoallv num_procs sendbuf send_displ recv_count recv_displ q recvbuf =
     fold (\<lambda>p. fold (\<lambda>t buf. buf(recv_displ p + t := sendbuf p (send_displ p q + t)))
                  [0..<recv_count p])
       [0..<num_procs] recvbuf"

text \<open>
  \<^verbatim>\<open>int k = tdof - mytoffset;\<close>
  \<^verbatim>\<open>int j = recv_displ[subdomain_rank[ip]] + roffs[subdomain_rank[ip]];\<close>
  \<^verbatim>\<open>roffs[subdomain_rank[ip]]++; y[k] += recvbuf[j];\<close>
\<close>

definition unpack_entry ::
  "nat \<Rightarrow> (nat \<Rightarrow> nat) \<Rightarrow> darray \<Rightarrow> int \<Rightarrow> int list \<Rightarrow> nat \<Rightarrow>
   vector \<times> (nat \<Rightarrow> nat) \<Rightarrow> vector \<times> (nat \<Rightarrow> nat)" where
  "unpack_entry r recv_displ recvbuf my_toffset LTrueDofs i = (\<lambda>(y, roffs).
     let tdof = LTrueDofs ! i;
         k = nat (tdof - my_toffset);
         j = recv_displ r + roffs r
     in (y[k := y ! k + recvbuf j], roffs(r := roffs r + 1)))"

text \<open>The last loop over the subdomains, from \<^verbatim>\<open>roffs = 0\<close>: every subdomain takes part.\<close>

definition accumulate_received ::
  "nat \<Rightarrow> (nat \<Rightarrow> nat) \<Rightarrow> (nat \<Rightarrow> nat) \<Rightarrow> darray \<Rightarrow> int \<Rightarrow> (nat \<Rightarrow> int list) \<Rightarrow>
   vector \<Rightarrow> vector" where
  "accumulate_received nrsubdoms subdom_rank recv_displ recvbuf my_toffset LTrueDofs y =
     fst (fold (\<lambda>ip. fold (unpack_entry (subdom_rank ip) recv_displ recvbuf my_toffset
                             (LTrueDofs ip))
                        [0..<length (LTrueDofs ip)])
       [0..<nrsubdoms] (y, \<lambda>_. 0))"

text \<open>
  The call on all processes, seen from process \<open>q\<close>: \<open>procs p\<close> is the bridge of process
  \<open>p\<close> and \<open>x p\<close> its subdomain vectors; \<open>y\<close> is the global vector of \<open>q\<close>, and \<open>uninit\<close>
  what its receive buffer holds when allocated. The result is the vector \<open>y\<close> of \<open>q\<close>
  after the call.
\<close>

definition SubdomainsToGlobal ::
  "nat \<Rightarrow> nat \<Rightarrow> (nat \<Rightarrow> nat) \<Rightarrow> int list \<Rightarrow> (nat \<Rightarrow> bridge) \<Rightarrow> (nat \<Rightarrow> nat \<Rightarrow> vector) \<Rightarrow>
   nat \<Rightarrow> darray \<Rightarrow> vector \<Rightarrow> vector" where
  "SubdomainsToGlobal num_procs nrsubdoms subdom_rank tdof_offsets procs x q uninit y =
     (let send_count = (\<lambda>p. send_counts nrsubdoms p subdom_rank tdof_offsets
                              (SubdomainGTrueDofs (procs p)));
          send_displ = (\<lambda>p. displacements num_procs (send_count p));
          sendbuf = (\<lambda>p. fill_sendbuf nrsubdoms p subdom_rank tdof_offsets
                           (SubdomainGTrueDofs (procs p)) (send_displ p) (x p));
          recv_count = MPI_Alltoall num_procs send_count q;
          recv_displ = displacements num_procs recv_count;
          recvbuf = MPI_Alltoallv num_procs sendbuf send_displ recv_count recv_displ q uninit
      in accumulate_received nrsubdoms subdom_rank recv_displ recvbuf (mytoffset (procs q))
           (SubdomainLTrueDofs (procs q)) y)"

subsection \<open>What the subdomains contribute to an entry\<close>

text \<open>
  The dofs \<open>i\<close> of subdomain \<open>ip\<close> whose global true dof belongs to process \<open>q\<close>, paired
  with their values: what the owner of \<open>ip\<close> sends to \<open>q\<close> for this subdomain, in order.
\<close>

definition sent_to :: "int list \<Rightarrow> int list \<Rightarrow> vector \<Rightarrow> nat \<Rightarrow> (int \<times> real) list" where
  "sent_to tdof_offsets GTrueDofs x_ip q =
     map (\<lambda>i. (GTrueDofs ! i, x_ip ! i))
       (filter (\<lambda>i. tdof_rank tdof_offsets (GTrueDofs ! i) = q) [0..<length GTrueDofs])"

text \<open>
  The values that the subdomains contribute to the entry \<open>k\<close> of the vector \<open>y\<close> of process
  \<open>q\<close>: one for each subdomain \<open>ip\<close> and each of its dofs \<open>i\<close> whose global true dof is the
  dof \<open>k + mytoffset\<close> of \<open>q\<close>.
\<close>

definition contributions ::
  "nat \<Rightarrow> (nat \<Rightarrow> nat) \<Rightarrow> int list \<Rightarrow> (nat \<Rightarrow> bridge) \<Rightarrow> (nat \<Rightarrow> nat \<Rightarrow> vector) \<Rightarrow> nat \<Rightarrow> int \<Rightarrow>
   real list" where
  "contributions nrsubdoms subdom_rank tdof_offsets procs x q k =
     concat (map (\<lambda>ip.
         map snd (filter (\<lambda>(tdof, v). tdof - mytoffset (procs q) = k)
           (sent_to tdof_offsets (SubdomainGTrueDofs (procs (subdom_rank ip)) ip)
              (x (subdom_rank ip) ip) q)))
       [0..<nrsubdoms])"

text \<open>
  The bridges as \<^verbatim>\<open>SubdomainToGlobalMapsSetup\<close> leaves them: every subdomain has its owner
  among the processes, every global true dof of a subdomain belongs to one of the
  processes, and the list that a process keeps for a subdomain is the list of the owner
  restricted to the dofs of that process.
\<close>

definition bridges_set_up ::
  "nat \<Rightarrow> nat \<Rightarrow> (nat \<Rightarrow> nat) \<Rightarrow> int list \<Rightarrow> (nat \<Rightarrow> bridge) \<Rightarrow> bool" where
  "bridges_set_up num_procs nrsubdoms subdom_rank tdof_offsets procs \<longleftrightarrow>
     (\<forall>ip\<in>set [0..<nrsubdoms].
        subdom_rank ip < num_procs \<and>
        (\<forall>tdof\<in>set (SubdomainGTrueDofs (procs (subdom_rank ip)) ip).
           0 \<le> get_rank tdof tdof_offsets \<and> get_rank tdof tdof_offsets < int num_procs) \<and>
        (\<forall>q\<in>set [0..<num_procs].
           SubdomainLTrueDofs (procs q) ip =
             filter (\<lambda>tdof. get_rank tdof tdof_offsets = int q)
               (SubdomainGTrueDofs (procs (subdom_rank ip)) ip)))"

text \<open>What process \<open>p\<close> sends to process \<open>q\<close>: its subdomains one after the other.\<close>

definition exchanged ::
  "nat \<Rightarrow> (nat \<Rightarrow> nat) \<Rightarrow> int list \<Rightarrow> (nat \<Rightarrow> int list) \<Rightarrow> (nat \<Rightarrow> vector) \<Rightarrow> nat \<Rightarrow> nat \<Rightarrow>
   (int \<times> real) list" where
  "exchanged nrsubdoms subdom_rank tdof_offsets GTrueDofs x p q =
     concat (map (\<lambda>ip. if p \<noteq> subdom_rank ip then []
                        else sent_to tdof_offsets (GTrueDofs ip) (x ip) q)
       [0..<nrsubdoms])"

text \<open>
  The two loops of a sender visit the dofs of its subdomains in one order, each with the
  rank it goes to and its value; the loop of a receiver visits the dofs it keeps, each with
  the rank it comes from.
\<close>

definition send_items ::
  "nat \<Rightarrow> (nat \<Rightarrow> nat) \<Rightarrow> int list \<Rightarrow> (nat \<Rightarrow> int list) \<Rightarrow> (nat \<Rightarrow> vector) \<Rightarrow> nat \<Rightarrow>
   (nat \<times> real) list" where
  "send_items nrsubdoms subdom_rank tdof_offsets GTrueDofs x p =
     concat (map (\<lambda>ip. if p \<noteq> subdom_rank ip then []
                        else map (\<lambda>i. (tdof_rank tdof_offsets (GTrueDofs ip ! i), x ip ! i))
                               [0..<length (GTrueDofs ip)])
       [0..<nrsubdoms])"

definition recv_items :: "nat \<Rightarrow> (nat \<Rightarrow> nat) \<Rightarrow> (nat \<Rightarrow> int list) \<Rightarrow> (nat \<times> int) list" where
  "recv_items nrsubdoms subdom_rank LTrueDofs =
     concat (map (\<lambda>ip. map (\<lambda>i. (subdom_rank ip, LTrueDofs ip ! i)) [0..<length (LTrueDofs ip)])
       [0..<nrsubdoms])"

text \<open>
  The vectors of a call fit the bridges: the vector of a subdomain has an entry for each of
  its dofs, and every dof that process \<open>q\<close> keeps lies in its vector \<open>y\<close>.
\<close>

definition vectors_fit ::
  "nat \<Rightarrow> (nat \<Rightarrow> nat) \<Rightarrow> (nat \<Rightarrow> bridge) \<Rightarrow> (nat \<Rightarrow> nat \<Rightarrow> vector) \<Rightarrow> nat \<Rightarrow> vector \<Rightarrow> bool" where
  "vectors_fit nrsubdoms subdom_rank procs x q y \<longleftrightarrow>
     (\<forall>ip\<in>set [0..<nrsubdoms].
        length (SubdomainGTrueDofs (procs (subdom_rank ip)) ip) \<le> length (x (subdom_rank ip) ip) \<and>
        (\<forall>tdof\<in>set (SubdomainLTrueDofs (procs q) ip).
           mytoffset (procs q) \<le> tdof \<and> tdof - mytoffset (procs q) < int (length y)))"
section \<open>Matrix-free tensor-product evaluation (quadinterpolator\_byvdim\_eval.cpp)\<close>

text \<open>
  \<^verbatim>\<open>Reshape\<close> and \<^verbatim>\<open>DeviceTensor\<close> are views of a flat array with the first index
  running fastest; the offsets they compute are written out here.
\<close>

definition idx2 :: "nat \<Rightarrow> nat \<Rightarrow> nat \<Rightarrow> nat" where
  "idx2 N0 i0 i1 = i0 + N0 * i1"

definition idx3 :: "nat \<Rightarrow> nat \<Rightarrow> nat \<Rightarrow> nat \<Rightarrow> nat \<Rightarrow> nat" where
  "idx3 N0 N1 i0 i1 i2 = i0 + N0 * (i1 + N1 * i2)"

definition idx4 :: "nat \<Rightarrow> nat \<Rightarrow> nat \<Rightarrow> nat \<Rightarrow> nat \<Rightarrow> nat \<Rightarrow> nat \<Rightarrow> nat" where
  "idx4 N0 N1 N2 i0 i1 i2 i3 = i0 + N0 * (i1 + N1 * (i2 + N2 * i3))"

definition idx5 ::
  "nat \<Rightarrow> nat \<Rightarrow> nat \<Rightarrow> nat \<Rightarrow> nat \<Rightarrow> nat \<Rightarrow> nat \<Rightarrow> nat \<Rightarrow> nat \<Rightarrow> nat" where
  "idx5 N0 N1 N2 N3 i0 i1 i2 i3 i4 = i0 + N0 * (i1 + N1 * (i2 + N2 * (i3 + N3 * i4)))"

text \<open>
  The kernels below follow the host execution of the \<^verbatim>\<open>MFEM_FORALL_2D/3D\<close> body:
  \<^verbatim>\<open>MFEM_FOREACH_THREAD(i,x,N)\<close> is the loop \<open>i = 0 ..< N\<close>,
  \<^verbatim>\<open>MFEM_THREAD_ID(z)\<close> is 0 and \<^verbatim>\<open>MFEM_SYNC_THREAD\<close> does nothing. Each loop nest
  is a fold over its index ranges that updates the one array the nest writes.
\<close>

text \<open>\<^verbatim>\<open>B(q,d) = b(q,d)\<close> for \<open>d < D1D\<close>, \<open>q < Q1D\<close> (both views are \<open>Q1D \<times> D1D\<close>).\<close>

definition load_B :: "nat \<Rightarrow> nat \<Rightarrow> darray \<Rightarrow> darray \<Rightarrow> darray" where
  "load_B D1D Q1D b s_B =
     fold (\<lambda>d. fold (\<lambda>q B. B(idx2 Q1D q d := b (idx2 Q1D q d))) [0..<Q1D]) [0..<D1D] s_B"

text \<open>The innermost accumulation \<^verbatim>\<open>u = 0.0; for (i < n) u += f(i);\<close>.\<close>

definition accumulate :: "nat \<Rightarrow> (nat \<Rightarrow> real) \<Rightarrow> real" where
  "accumulate n f = fold (\<lambda>i u. u + f i) [0..<n] 0"

subsection \<open>EvalByVDim2D\<close>

text \<open>\<^verbatim>\<open>DD(dx,dy) = x(dx,dy,c,e)\<close>, with \<open>DD\<close> an \<open>MD1 \<times> MD1\<close> view.\<close>

definition load_DD :: "nat \<Rightarrow> nat \<Rightarrow> nat \<Rightarrow> darray \<Rightarrow> nat \<Rightarrow> nat \<Rightarrow> darray \<Rightarrow> darray" where
  "load_DD MD1 D1D VDIM x c e s_DD =
     fold (\<lambda>dx. fold (\<lambda>dy DD. DD(idx2 MD1 dx dy := x (idx4 D1D D1D VDIM dx dy c e)))
       [0..<D1D]) [0..<D1D] s_DD"

text \<open>\<^verbatim>\<open>DQ(dy,qx) = sum over dx of B(qx,dx) * DD(dx,dy)\<close>, with \<open>DQ\<close> an \<open>MD1 \<times> MQ1\<close> view.\<close>

definition contract_DQ :: "nat \<Rightarrow> nat \<Rightarrow> nat \<Rightarrow> darray \<Rightarrow> darray \<Rightarrow> darray \<Rightarrow> darray" where
  "contract_DQ MD1 D1D Q1D B DD s_DQ =
     fold (\<lambda>dy. fold (\<lambda>qx DQ.
         DQ(idx2 MD1 dy qx := accumulate D1D (\<lambda>dx. B (idx2 Q1D qx dx) * DD (idx2 MD1 dx dy))))
       [0..<Q1D]) [0..<D1D] s_DQ"

text \<open>\<^verbatim>\<open>y(c,qx,qy,e) = sum over dy of DQ(dy,qx) * B(qy,dy)\<close>.\<close>

definition contract_y2D ::
  "nat \<Rightarrow> nat \<Rightarrow> nat \<Rightarrow> nat \<Rightarrow> darray \<Rightarrow> darray \<Rightarrow> nat \<Rightarrow> nat \<Rightarrow> darray \<Rightarrow> darray" where
  "contract_y2D MD1 D1D Q1D VDIM B DQ c e y =
     fold (\<lambda>qy. fold (\<lambda>qx y.
         y(idx4 VDIM Q1D Q1D c qx qy e :=
             accumulate D1D (\<lambda>dy. DQ (idx2 MD1 dy qx) * B (idx2 Q1D qy dy))))
       [0..<Q1D]) [0..<Q1D] y"

text \<open>
  \<^verbatim>\<open>EvalByVDim2D<T_VDIM,T_D1D,T_Q1D,T_NBZ,MAX_D1D,MAX_Q1D>(NE,b_,x_,y_,vdim,d1d,q1d)\<close>.
  The template arguments come first. \<open>uninit\<close> is the content of the shared scratch
  arrays \<^verbatim>\<open>s_B\<close>, \<^verbatim>\<open>s_DD\<close>, \<^verbatim>\<open>s_DQ\<close> when an element's body starts: they are declared
  without initialiser. The result is the output array \<^verbatim>\<open>y_\<close> after the call.
\<close>

definition EvalByVDim2D ::
  "nat \<Rightarrow> nat \<Rightarrow> nat \<Rightarrow> nat \<Rightarrow> nat \<Rightarrow> nat \<Rightarrow> darray \<Rightarrow>
   nat \<Rightarrow> darray \<Rightarrow> darray \<Rightarrow> darray \<Rightarrow> nat \<Rightarrow> nat \<Rightarrow> nat \<Rightarrow> darray" where
  "EvalByVDim2D T_VDIM T_D1D T_Q1D T_NBZ MAX_D1D MAX_Q1D uninit NE b x y0 vdim d1d q1d =
     (let D1D = (if T_D1D \<noteq> 0 then T_D1D else d1d);
          Q1D = (if T_Q1D \<noteq> 0 then T_Q1D else q1d);
          VDIM = (if T_VDIM \<noteq> 0 then T_VDIM else vdim);
          MQ1 = (if T_Q1D \<noteq> 0 then T_Q1D else MAX_Q1D);
          MD1 = (if T_D1D \<noteq> 0 then T_D1D else MAX_D1D)
      in fold (\<lambda>e y.
           let B = load_B D1D Q1D b uninit
           in snd (snd (fold (\<lambda>c (s_DD, s_DQ, y).
                let DD = load_DD MD1 D1D VDIM x c e s_DD;
                    DQ = contract_DQ MD1 D1D Q1D B DD s_DQ
                in (DD, DQ, contract_y2D MD1 D1D Q1D VDIM B DQ c e y))
              [0..<VDIM] (uninit, uninit, y))))
         [0..<NE] y0)"

subsection \<open>EvalByVDim3D\<close>

text \<open>
  The 3D kernel keeps two scratch memories: \<^verbatim>\<open>sm0\<close> is viewed both as \<open>DDD\<close>
  (\<open>MD1 \<times> MD1 \<times> MD1\<close>) and as \<open>DQQ\<close> (\<open>MD1 \<times> MQ1 \<times> MQ1\<close>), \<^verbatim>\<open>sm1\<close> as \<open>DDQ\<close>
  (\<open>MD1 \<times> MD1 \<times> MQ1\<close>).
\<close>

text \<open>\<^verbatim>\<open>DDD(dx,dy,dz) = x(dx,dy,dz,c,e)\<close>, written to \<^verbatim>\<open>sm0\<close>.\<close>

definition load_DDD :: "nat \<Rightarrow> nat \<Rightarrow> nat \<Rightarrow> darray \<Rightarrow> nat \<Rightarrow> nat \<Rightarrow> darray \<Rightarrow> darray" where
  "load_DDD MD1 D1D VDIM x c e sm0 =
     fold (\<lambda>dz. fold (\<lambda>dy. fold (\<lambda>dx DDD.
         DDD(idx3 MD1 MD1 dx dy dz := x (idx5 D1D D1D D1D VDIM dx dy dz c e)))
       [0..<D1D]) [0..<D1D]) [0..<D1D] sm0"

text \<open>\<^verbatim>\<open>DDQ(dz,dy,qx) = sum over dx of B(qx,dx) * DDD(dx,dy,dz)\<close>: reads \<^verbatim>\<open>sm0\<close>, writes \<^verbatim>\<open>sm1\<close>.\<close>

definition contract_DDQ :: "nat \<Rightarrow> nat \<Rightarrow> nat \<Rightarrow> darray \<Rightarrow> darray \<Rightarrow> darray \<Rightarrow> darray" where
  "contract_DDQ MD1 D1D Q1D B sm0 sm1 =
     fold (\<lambda>dz. fold (\<lambda>dy. fold (\<lambda>qx DDQ.
         DDQ(idx3 MD1 MD1 dz dy qx :=
             accumulate D1D (\<lambda>dx. B (idx2 Q1D qx dx) * sm0 (idx3 MD1 MD1 dx dy dz))))
       [0..<Q1D]) [0..<D1D]) [0..<D1D] sm1"

text \<open>\<^verbatim>\<open>DQQ(dz,qy,qx) = sum over dy of DDQ(dz,dy,qx) * B(qy,dy)\<close>: reads \<^verbatim>\<open>sm1\<close>, writes \<^verbatim>\<open>sm0\<close>.\<close>

definition contract_DQQ ::
  "nat \<Rightarrow> nat \<Rightarrow> nat \<Rightarrow> nat \<Rightarrow> darray \<Rightarrow> darray \<Rightarrow> darray \<Rightarrow> darray" where
  "contract_DQQ MD1 MQ1 D1D Q1D B sm1 sm0 =
     fold (\<lambda>dz. fold (\<lambda>qy. fold (\<lambda>qx DQQ.
         DQQ(idx3 MD1 MQ1 dz qy qx :=
             accumulate D1D (\<lambda>dy. sm1 (idx3 MD1 MD1 dz dy qx) * B (idx2 Q1D qy dy))))
       [0..<Q1D]) [0..<Q1D]) [0..<D1D] sm0"

text \<open>\<^verbatim>\<open>y(c,qx,qy,qz,e) = sum over dz of DQQ(dz,qy,qx) * B(qz,dz)\<close>: reads \<^verbatim>\<open>sm0\<close>.\<close>

definition contract_y3D ::
  "nat \<Rightarrow> nat \<Rightarrow> nat \<Rightarrow> nat \<Rightarrow> nat \<Rightarrow> darray \<Rightarrow> darray \<Rightarrow> nat \<Rightarrow> nat \<Rightarrow> darray \<Rightarrow> darray"
  where
  "contract_y3D MD1 MQ1 D1D Q1D VDIM B sm0 c e y =
     fold (\<lambda>qz. fold (\<lambda>qy. fold (\<lambda>qx y.
         y(idx5 VDIM Q1D Q1D Q1D c qx qy qz e :=
             accumulate D1D (\<lambda>dz. sm0 (idx3 MD1 MQ1 dz qy qx) * B (idx2 Q1D qz dz))))
       [0..<Q1D]) [0..<Q1D]) [0..<Q1D] y"

text \<open>
  \<^verbatim>\<open>EvalByVDim3D<T_VDIM,T_D1D,T_Q1D,MAX_D1D,MAX_Q1D>(NE,b_,x_,y_,vdim,d1d,q1d)\<close>.
\<close>

definition EvalByVDim3D ::
  "nat \<Rightarrow> nat \<Rightarrow> nat \<Rightarrow> nat \<Rightarrow> nat \<Rightarrow> darray \<Rightarrow>
   nat \<Rightarrow> darray \<Rightarrow> darray \<Rightarrow> darray \<Rightarrow> nat \<Rightarrow> nat \<Rightarrow> nat \<Rightarrow> darray" where
  "EvalByVDim3D T_VDIM T_D1D T_Q1D MAX_D1D MAX_Q1D uninit NE b x y0 vdim d1d q1d =
     (let D1D = (if T_D1D \<noteq> 0 then T_D1D else d1d);
          Q1D = (if T_Q1D \<noteq> 0 then T_Q1D else q1d);
          VDIM = (if T_VDIM \<noteq> 0 then T_VDIM else vdim);
          MQ1 = (if T_Q1D \<noteq> 0 then T_Q1D else MAX_Q1D);
          MD1 = (if T_D1D \<noteq> 0 then T_D1D else MAX_D1D)
      in fold (\<lambda>e y.
           let B = load_B D1D Q1D b uninit
           in snd (snd (fold (\<lambda>c (sm0, sm1, y).
                let sm0 = load_DDD MD1 D1D VDIM x c e sm0;
                    sm1 = contract_DDQ MD1 D1D Q1D B sm0 sm1;
                    sm0 = contract_DQQ MD1 MQ1 D1D Q1D B sm1 sm0
                in (sm0, sm1, contract_y3D MD1 MQ1 D1D Q1D VDIM B sm0 c e y))
              [0..<VDIM] (uninit, uninit, y))))
         [0..<NE] y0)"

text \<open>
  The dense reference contractions of the specification: the interpolation written as one
  sum over all nodal indices, with no intermediate tensor.
\<close>

definition dense2D :: "nat \<Rightarrow> nat \<Rightarrow> nat \<Rightarrow> darray \<Rightarrow> darray \<Rightarrow> nat \<Rightarrow> nat \<Rightarrow> nat \<Rightarrow> nat \<Rightarrow> real"
  where
  "dense2D D1D Q1D VDIM b x c qx qy e =
     (\<Sum>dx<D1D. \<Sum>dy<D1D.
        b (idx2 Q1D qx dx) * b (idx2 Q1D qy dy) * x (idx4 D1D D1D VDIM dx dy c e))"

definition dense3D ::
  "nat \<Rightarrow> nat \<Rightarrow> nat \<Rightarrow> darray \<Rightarrow> darray \<Rightarrow> nat \<Rightarrow> nat \<Rightarrow> nat \<Rightarrow> nat \<Rightarrow> nat \<Rightarrow> real" where
  "dense3D D1D Q1D VDIM b x c qx qy qz e =
     (\<Sum>dx<D1D. \<Sum>dy<D1D. \<Sum>dz<D1D.
        b (idx2 Q1D qx dx) * b (idx2 Q1D qy dy) * b (idx2 Q1D qz dz) *
        x (idx5 D1D D1D D1D VDIM dx dy dz c e))"

section \<open>Kernel dispatch (QuadratureInterpolator::Values, layout byVDIM)\<close>





section \<open>The discrete upwinding matrix (ex9.cpp, FluxCorrectedTransport)\<close>

subsection \<open>Sparse matrices in compressed rows\<close>

text \<open>
  A finalized \<^verbatim>\<open>SparseMatrix\<close> as the two functions read it: its size and the raw arrays
  behind \<^verbatim>\<open>GetI()\<close>, \<^verbatim>\<open>GetJ()\<close> and \<^verbatim>\<open>GetData()\<close>. The arrays are plain pointers, read
  at any offset. Row \<open>i\<close> holds the offsets from \<open>I[i]\<close> up to \<open>I[i+1]\<close>.
\<close>

record SparseMatrix =
  Size :: nat
  GetI :: "nat \<Rightarrow> nat"
  GetJ :: "nat \<Rightarrow> nat"
  GetData :: darray

datatype upwinding_abort = mfem_error_SparseMatrix_Build_smap | Did_not_find_entry

definition row_offsets :: "SparseMatrix \<Rightarrow> nat \<Rightarrow> nat list" where
  "row_offsets A i = [GetI A i..<GetI A (i + 1)]"

text \<open>
  Modelled from the spec: \<^verbatim>\<open>SparseMatrix::operator()(int i, int j)\<close>, used in
  \<^verbatim>\<open>D(i,i) = -rowsum\<close>, belongs to the library and is not among the sources. On a
  finalized matrix it walks row \<open>i\<close> and returns a reference to the first stored entry of
  column \<open>j\<close>; when the row stores none it aborts. The model returns the offset of that
  entry.
\<close>

definition SparseMatrix_entry :: "SparseMatrix \<Rightarrow> nat \<Rightarrow> nat \<Rightarrow> upwinding_abort + nat" where
  "SparseMatrix_entry A i j =
     (case find (\<lambda>k. GetJ A k = j) (row_offsets A i) of
        None \<Rightarrow> Inl Did_not_find_entry
      | Some k \<Rightarrow> Inr k)"

subsection \<open>SparseMatrix\_Build\_smap\<close>

text \<open>
  The innermost loop,
  \<^verbatim>\<open>for (int _j = I[col], _end = I[col+1]; true; _j++)\<close>: it stops with an error at
  \<^verbatim>\<open>_end\<close>, or at the first offset whose column is \<open>row\<close>. Started beyond \<^verbatim>\<open>_end\<close> it
  need not stop, so the result is optional: \<open>None\<close> is a loop that does not return.
\<close>

partial_function (option) smap_search ::
  "(nat \<Rightarrow> nat) \<Rightarrow> nat \<Rightarrow> nat \<Rightarrow> nat \<Rightarrow> (upwinding_abort + nat) option" where
  "smap_search J row j' end' =
     (if j' = end' then Some (Inl mfem_error_SparseMatrix_Build_smap)
      else if J j' = row then Some (Inr j')
      else smap_search J row (j' + 1) end')"

declare smap_search.simps [code]

text \<open>A loop whose body may abort or not return.\<close>

fun foldMO :: "('a \<Rightarrow> 's \<Rightarrow> ('e + 's) option) \<Rightarrow> 'a list \<Rightarrow> 's \<Rightarrow> ('e + 's) option" where
  "foldMO f [] s = Some (Inr s)"
| "foldMO f (x # xs) s =
     (case f x s of
        None \<Rightarrow> None
      | Some (Inl e) \<Rightarrow> Some (Inl e)
      | Some (Inr s') \<Rightarrow> foldMO f xs s')"

text \<open>The body of the loop over \<open>j\<close>: \<^verbatim>\<open>int col = J[j]; ... smap[j] = _j;\<close>\<close>

definition smap_entry ::
  "SparseMatrix \<Rightarrow> nat \<Rightarrow> nat \<Rightarrow> (nat \<Rightarrow> nat) \<Rightarrow> (upwinding_abort + (nat \<Rightarrow> nat)) option" where
  "smap_entry A row j smap =
     (let col = GetJ A j
      in case smap_search (GetJ A) row (GetI A col) (GetI A (col + 1)) of
           None \<Rightarrow> None
         | Some (Inl e) \<Rightarrow> Some (Inl e)
         | Some (Inr j') \<Rightarrow> Some (Inr (smap(j := j'))))"

text \<open>
  The body of the loop over the rows. The counter \<open>j\<close> is not reset at a row: the inner loop
  \<^verbatim>\<open>for (int end = I[row+1]; j < end; j++)\<close> goes on from where the last row left it.
\<close>

definition smap_row ::
  "SparseMatrix \<Rightarrow> nat \<Rightarrow> (nat \<Rightarrow> nat) \<times> nat \<Rightarrow> (upwinding_abort + (nat \<Rightarrow> nat) \<times> nat) option" where
  "smap_row A row = (\<lambda>(smap, j).
     let end' = GetI A (row + 1)
     in case foldMO (smap_entry A row) [j..<end'] smap of
          None \<Rightarrow> None
        | Some (Inl e) \<Rightarrow> Some (Inl e)
        | Some (Inr smap') \<Rightarrow> Some (Inr (smap', max j end')))"

text \<open>
  \<^verbatim>\<open>smap.SetSize(I[n])\<close> leaves the entries as they are: \<open>uninit\<close> is what the array holds
  then. The array is read and written as plain memory.
\<close>

definition SparseMatrix_Build_smap ::
  "SparseMatrix \<Rightarrow> (nat \<Rightarrow> nat) \<Rightarrow> (upwinding_abort + (nat \<Rightarrow> nat)) option" where
  "SparseMatrix_Build_smap A uninit =
     (case foldMO (smap_row A) [0..<Size A] (uninit, 0) of
        None \<Rightarrow> None
      | Some (Inl e) \<Rightarrow> Some (Inl e)
      | Some (Inr (smap, j)) \<Rightarrow> Some (Inr smap))"

subsection \<open>ComputeDiscreteUpwindingMatrix\<close>

text \<open>
  The body of the loop over \<open>k\<close>, on the data of \<open>D\<close> and the running \<open>rowsum\<close>. \<open>K\<close> is
  read only, and its data are not the data of \<open>D\<close> (the callers pass a copy).
\<close>

definition upwind_entry ::
  "SparseMatrix \<Rightarrow> (nat \<Rightarrow> nat) \<Rightarrow> nat \<Rightarrow> nat \<Rightarrow> darray \<times> real \<Rightarrow> darray \<times> real" where
  "upwind_entry K smap i k = (\<lambda>(Dp, rowsum).
     let j = GetJ K k;
         kij = GetData K k;
         kji = GetData K (smap k);
         dij = max (max 0 (- kij)) (- kji);
         Dp = Dp(k := dij);
         Dp = Dp(smap k := dij)
     in (Dp, if i \<noteq> j then rowsum + Dp k else rowsum))"

text \<open>
  The body of the loop over \<open>i\<close>: the entries of the row, then \<^verbatim>\<open>D(i,i) = -rowsum\<close>. As in
  \<^verbatim>\<open>SparseMatrix_Build_smap\<close> the counter \<open>k\<close> runs on from row to row.
\<close>

definition upwind_row ::
  "SparseMatrix \<Rightarrow> SparseMatrix \<Rightarrow> (nat \<Rightarrow> nat) \<Rightarrow> nat \<Rightarrow> darray \<times> nat \<Rightarrow>
   upwinding_abort + darray \<times> nat" where
  "upwind_row K D smap i = (\<lambda>(Dp, k).
     let end' = GetI K (i + 1);
         (Dp, rowsum) = fold (upwind_entry K smap i) [k..<end'] (Dp, 0)
     in case SparseMatrix_entry D i i of
          Inl e \<Rightarrow> Inl e
        | Inr d \<Rightarrow> Inr (Dp(d := - rowsum), max k end'))"

text \<open>The result is the data of \<open>D\<close>; its size and its arrays \<open>I\<close> and \<open>J\<close> stay.\<close>

definition ComputeDiscreteUpwindingMatrix ::
  "SparseMatrix \<Rightarrow> SparseMatrix \<Rightarrow> (nat \<Rightarrow> nat) \<Rightarrow> (upwinding_abort + darray) option" where
  "ComputeDiscreteUpwindingMatrix K D uninit =
     (case SparseMatrix_Build_smap K uninit of
        None \<Rightarrow> None
      | Some (Inl e) \<Rightarrow> Some (Inl e)
      | Some (Inr smap) \<Rightarrow>
          Some (case foldM (upwind_row K D smap) [0..<Size K] (GetData D, 0) of
                  Inl e \<Rightarrow> Inl e
                | Inr (Dp, k) \<Rightarrow> Inr Dp))"

subsection \<open>The matrices the claim is about\<close>

text \<open>
  A finalized square matrix: the row starts begin at 0 and do not decrease, every stored
  column is a column of the matrix, and no row stores a column twice.
\<close>

definition finalized :: "SparseMatrix \<Rightarrow> bool" where
  "finalized A \<longleftrightarrow>
     GetI A 0 = 0 \<and>
     (\<forall>i\<in>set [0..<Size A].
        GetI A i \<le> GetI A (i + 1) \<and>
        distinct (map (GetJ A) (row_offsets A i)) \<and>
        (\<forall>k\<in>set (row_offsets A i). GetJ A k < Size A))"

text \<open>The pattern is symmetric: with an entry \<open>(i, j)\<close> the matrix stores \<open>(j, i)\<close>.\<close>

definition structurally_symmetric :: "SparseMatrix \<Rightarrow> bool" where
  "structurally_symmetric A \<longleftrightarrow>
     (\<forall>i\<in>set [0..<Size A]. \<forall>k\<in>set (row_offsets A i).
        i \<in> set (map (GetJ A) (row_offsets A (GetJ A k))))"

definition stores_diagonal :: "SparseMatrix \<Rightarrow> bool" where
  "stores_diagonal A \<longleftrightarrow>
     (\<forall>i\<in>set [0..<Size A]. i \<in> set (map (GetJ A) (row_offsets A i)))"

text \<open>\<open>D\<close> has the pattern of \<open>K\<close>, as a copy of \<open>K\<close> has.\<close>

definition same_pattern :: "SparseMatrix \<Rightarrow> SparseMatrix \<Rightarrow> bool" where
  "same_pattern K D \<longleftrightarrow>
     Size D = Size K \<and>
     (\<forall>i\<in>set [0..<Size K + 1]. GetI D i = GetI K i) \<and>
     (\<forall>k\<in>set [0..<GetI K (Size K)]. GetJ D k = GetJ K k)"

text \<open>The off-diagonal offsets of a row, and the sum of the entries of a row.\<close>

definition off_diagonal :: "SparseMatrix \<Rightarrow> nat \<Rightarrow> nat list" where
  "off_diagonal A i = filter (\<lambda>k. GetJ A k \<noteq> i) (row_offsets A i)"

definition row_sum :: "SparseMatrix \<Rightarrow> darray \<Rightarrow> nat \<Rightarrow> real" where
  "row_sum A a i = sum_list (map a (row_offsets A i))"

text \<open>
  For an offset \<open>k\<close> of row \<open>i\<close>: the offset of the symmetric entry, and the value
  \<^verbatim>\<open>fmax(fmax(0.0,-kij),-kji)\<close> that belongs to the pair.
\<close>

definition symmetric_offset :: "SparseMatrix \<Rightarrow> nat \<Rightarrow> nat \<Rightarrow> nat" where
  "symmetric_offset A i k = projr (SparseMatrix_entry A (GetJ A k) i)"

definition upwind_value :: "SparseMatrix \<Rightarrow> (nat \<Rightarrow> nat) \<Rightarrow> nat \<Rightarrow> real" where
  "upwind_value K smap k = max (max 0 (- GetData K k)) (- GetData K (smap k))"
chapter \<open>Verified properties\<close>

section \<open>Loops that write arrays\<close>

text \<open>
  Two facts about a loop \<open>fold F ks s\<close>, read through a projection \<open>prj\<close> of the state
  at one position \<open>p\<close>: if no step touches \<open>p\<close> it keeps its value; if the step for \<open>k\<close>
  always leaves \<open>v\<close> there and no other step touches \<open>p\<close>, the loop leaves \<open>v\<close> there.
\<close>

lemma fold_steps_miss:
  assumes "\<And>k s. k \<in> set ks \<Longrightarrow> prj (F k s) p = prj s p"
  shows "prj (fold F ks s) p = prj s p"
  using assms by (induction ks arbitrary: s) auto

lemma fold_steps_hit:
  assumes "k \<in> set ks"
    and "\<And>s. prj (F k s) p = v"
    and "\<And>k' s. k' \<in> set ks \<Longrightarrow> k' \<noteq> k \<Longrightarrow> prj (F k' s) p = prj s p"
  shows "prj (fold F ks s) p = v"
  using assms
proof (induction ks arbitrary: s rule: rev_induct)
  case Nil
  then show ?case by simp
next
  case (snoc x xs)
  show ?case
  proof (cases "x = k")
    case True
    then show ?thesis using snoc.prems(2) by simp
  next
    case False
    then have "k \<in> set xs" using snoc.prems(1) by auto
    moreover have "prj (F x (fold F xs s)) p = prj (fold F xs s) p"
      using snoc.prems(3) [of x] False by simp
    ultimately show ?thesis
      using snoc.IH [of s] snoc.prems(2,3) by simp
  qed
qed

lemmas fold_upd_miss = fold_steps_miss [where prj = "\<lambda>a. a"]
lemmas fold_upd_hit = fold_steps_hit [where prj = "\<lambda>a. a"]

text \<open>The same two facts for a nest of three loops that writes one array entry per index triple.\<close>

lemma fold3_upd_miss:
  assumes "\<And>i j k. i < n1 \<Longrightarrow> j < n2 \<Longrightarrow> k < n3 \<Longrightarrow> p \<noteq> g i j k"
  shows "fold (\<lambda>i. fold (\<lambda>j. fold (\<lambda>k a. a(g i j k := w i j k)) [0..<n3]) [0..<n2]) [0..<n1] a p
         = a p"
  by (intro fold_upd_miss) (use assms in auto)

lemma fold3_upd_hit:
  assumes "i < n1" "j < n2" "k < n3"
    and inj: "\<And>i' j' k'. i' < n1 \<Longrightarrow> j' < n2 \<Longrightarrow> k' < n3 \<Longrightarrow> g i' j' k' = g i j k \<Longrightarrow>
                i' = i \<and> j' = j \<and> k' = k"
  shows "fold (\<lambda>i. fold (\<lambda>j. fold (\<lambda>k a. a(g i j k := w i j k)) [0..<n3]) [0..<n2]) [0..<n1] a
           (g i j k) = w i j k"
proof (rule fold_upd_hit [where k = i])
  show "i \<in> set [0..<n1]" using assms(1) by simp
next
  fix s
  show "fold (\<lambda>j. fold (\<lambda>k a. a(g i j k := w i j k)) [0..<n3]) [0..<n2] s (g i j k) = w i j k"
  proof (rule fold_upd_hit [where k = j])
    show "j \<in> set [0..<n2]" using assms(2) by simp
  next
    fix s
    show "fold (\<lambda>k a. a(g i j k := w i j k)) [0..<n3] s (g i j k) = w i j k"
      by (rule fold_upd_hit [where k = k]) (use assms inj [of i j] in auto)
  next
    fix j' s
    assume "j' \<in> set [0..<n2]" "j' \<noteq> j"
    then show "fold (\<lambda>k a. a(g i j' k := w i j' k)) [0..<n3] s (g i j k) = s (g i j k)"
      by (intro fold_upd_miss) (use assms inj [of i j'] in auto)
  qed
next
  fix i' s
  assume "i' \<in> set [0..<n1]" "i' \<noteq> i"
  then show "fold (\<lambda>j. fold (\<lambda>k a. a(g i' j k := w i' j k)) [0..<n3]) [0..<n2] s (g i j k)
             = s (g i j k)"
    by (intro fold_upd_miss) (use assms inj [of i'] in auto)
qed

text \<open>Blocks of \<open>n\<close> consecutive indices, one block per \<open>k\<close>, do not overlap.\<close>

lemma block_index_eq_iff:
  fixes k k' j j' n :: nat
  assumes "j < n" "j' < n"
  shows "k * n + j = k' * n + j' \<longleftrightarrow> k = k' \<and> j = j'"
proof
  assume eq: "k * n + j = k' * n + j'"
  then have "(k * n + j) div n = (k' * n + j') div n" by simp
  with assms have "k = k'" by simp
  with eq show "k = k' \<and> j = j'" by simp
qed simp

text \<open>A loop whose every step appends to the list read through \<open>prj\<close>.\<close>

lemma fold_appends:
  assumes "\<And>k s. prj (F k s) = prj s @ f k"
  shows "prj (fold F ks s) = prj s @ concat (map f ks)"
proof (induction ks arbitrary: s)
  case Nil
  show ?case by simp
next
  case (Cons k ks)
  show ?case by (simp add: Cons assms)
qed

lemma concat_map_if_single: "concat (map (\<lambda>x. if P x then [x] else []) xs) = filter P xs"
  by (induction xs) simp_all

text \<open>Loops over an index range, loops that skip, and nested loops, as loops over lists.\<close>

lemma fold_nth: "fold (\<lambda>i. F (xs ! i)) [0..<length xs] = fold F xs"
proof -
  have "fold (\<lambda>i. F (xs ! i)) [0..<length xs] = fold F (map (\<lambda>i. xs ! i) [0..<length xs])"
    by (simp add: fold_map comp_def)
  then show ?thesis by (simp add: map_nth)
qed

lemma fold_option_skip:
  "fold (\<lambda>d s. case h d of None \<Rightarrow> s | Some y \<Rightarrow> G y s) ds s = fold G (List.map_filter h ds) s"
  by (induction ds arbitrary: s) (simp_all add: List.map_filter_simps split: option.split)

lemma fold_fold_concat: "fold (\<lambda>a. fold G (g a)) as s = fold G (concat (map g as)) s"
  by (induction as arbitrary: s) simp_all

lemma fold_filter_skip:
  assumes "\<And>y s. \<not> P y \<Longrightarrow> G y s = s"
  shows "fold G ys s = fold G (filter P ys) s"
  by (induction ys arbitrary: s) (simp_all add: assms)

lemma set_map_filter_iff: "y \<in> set (List.map_filter h xs) \<longleftrightarrow> (\<exists>x\<in>set xs. h x = Some y)"
  by (induction xs) (auto simp: List.map_filter_simps split: option.splits)

section \<open>Loops that may abort\<close>

lemma foldM_append:
  "foldM f (xs @ ys) s = (case foldM f xs s of Inl e \<Rightarrow> Inl e | Inr s' \<Rightarrow> foldM f ys s')"
  by (induction xs arbitrary: s) (simp_all split: sum.splits)

lemma foldM_map: "foldM f (map g xs) s = foldM (\<lambda>x. f (g x)) xs s"
  by (induction xs arbitrary: s) (simp_all split: sum.splits)

lemma foldM_nth: "foldM (\<lambda>i. f (xs ! i)) [0..<length xs] s = foldM f xs s"
  using foldM_map [of f "\<lambda>i. xs ! i" "[0..<length xs]" s] by (simp add: map_nth)

lemma foldM_single: "foldM f [x] s = f x s"
  by (cases "f x s") simp_all

lemma foldM_concat: "foldM (\<lambda>a. foldM f (g a)) as s = foldM f (concat (map g as)) s"
  by (induction as arbitrary: s) (simp_all add: foldM_append split: sum.splits)

section \<open>The flux-corrected update\<close>

subsection \<open>The two loops over the nodes of an element\<close>

lemma fct_eps_pos: "0 < fct_eps"
  by (simp add: fct_eps_def)

lemma clip_fold:
  "fold (clip_node ev x yH yL k nd) [0..<n] (\<lambda>_. 0, \<lambda>_. 0, 0, 0) =
     (\<lambda>j. if j < n then uClipped_at ev x yH (k * nd + j) else 0,
      \<lambda>j. if j < n then fClipped_at ev x yH yL (k * nd + j) else 0,
      \<Sum>j<n. max (fClipped_at ev x yH yL (k * nd + j)) 0,
      \<Sum>j<n. min (fClipped_at ev x yH yL (k * nd + j)) 0)"
proof (induction n)
  case 0
  show ?case by simp
next
  case (Suc n)
  have "fold (clip_node ev x yH yL k nd) [0..<Suc n] (\<lambda>_. 0, \<lambda>_. 0, 0, 0) =
        clip_node ev x yH yL k nd n
          (fold (clip_node ev x yH yL k nd) [0..<n] (\<lambda>_. 0, \<lambda>_. 0, 0, 0))"
    by simp
  also have "\<dots> = clip_node ev x yH yL k nd n
     (\<lambda>j. if j < n then uClipped_at ev x yH (k * nd + j) else 0,
      \<lambda>j. if j < n then fClipped_at ev x yH yL (k * nd + j) else 0,
      \<Sum>j<n. max (fClipped_at ev x yH yL (k * nd + j)) 0,
      \<Sum>j<n. min (fClipped_at ev x yH yL (k * nd + j)) 0)"
    by (simp only: Suc)
  also have "\<dots> =
     (\<lambda>j. if j < Suc n then uClipped_at ev x yH (k * nd + j) else 0,
      \<lambda>j. if j < Suc n then fClipped_at ev x yH yL (k * nd + j) else 0,
      \<Sum>j<Suc n. max (fClipped_at ev x yH yL (k * nd + j)) 0,
      \<Sum>j<Suc n. min (fClipped_at ev x yH yL (k * nd + j)) 0)"
    by (auto simp: clip_node_def Let_def uClipped_at_def fClipped_at_def fun_eq_iff)
  finally show ?case .
qed

lemma clip_loop_eq:
  "clip_loop ev x yH yL k nd =
     (\<lambda>j. if j < nd then uClipped_at ev x yH (k * nd + j) else 0,
      \<lambda>j. if j < nd then fClipped_at ev x yH yL (k * nd + j) else 0,
      \<Sum>j<nd. max (fClipped_at ev x yH yL (k * nd + j)) 0,
      \<Sum>j<nd. min (fClipped_at ev x yH yL (k * nd + j)) 0)"
  unfolding clip_loop_def by (rule clip_fold)

lemma rescale_node_eq:
  "rescale_node ev yL sumPos sumNeg k nd j (fClipped, y) =
     (fClipped(j := rescaled sumPos sumNeg (fClipped j)),
      y(k * nd + j := yL (k * nd + j) +
          rescaled sumPos sumNeg (fClipped j) / (dt ev * lumpedM ev (k * nd + j))))"
  using fct_eps_pos
  by (auto simp: rescale_node_def rescaled_def Let_def fun_eq_iff)

lemma rescale_fold:
  "fold (rescale_node ev yL sumPos sumNeg k nd) [0..<n] (fClipped, y) =
     (\<lambda>j. if j < n then rescaled sumPos sumNeg (fClipped j) else fClipped j,
      \<lambda>d. if k * nd \<le> d \<and> d < k * nd + n
           then yL d + rescaled sumPos sumNeg (fClipped (d - k * nd)) / (dt ev * lumpedM ev d)
           else y d)"
proof (induction n)
  case 0
  show ?case by (auto simp: fun_eq_iff)
next
  case (Suc n)
  have "fold (rescale_node ev yL sumPos sumNeg k nd) [0..<Suc n] (fClipped, y) =
        rescale_node ev yL sumPos sumNeg k nd n
          (fold (rescale_node ev yL sumPos sumNeg k nd) [0..<n] (fClipped, y))"
    by simp
  also have "\<dots> = rescale_node ev yL sumPos sumNeg k nd n
     (\<lambda>j. if j < n then rescaled sumPos sumNeg (fClipped j) else fClipped j,
      \<lambda>d. if k * nd \<le> d \<and> d < k * nd + n
           then yL d + rescaled sumPos sumNeg (fClipped (d - k * nd)) / (dt ev * lumpedM ev d)
           else y d)"
    by (simp only: Suc)
  also have "\<dots> =
     (\<lambda>j. if j < Suc n then rescaled sumPos sumNeg (fClipped j) else fClipped j,
      \<lambda>d. if k * nd \<le> d \<and> d < k * nd + Suc n
           then yL d + rescaled sumPos sumNeg (fClipped (d - k * nd)) / (dt ev * lumpedM ev d)
           else y d)"
    unfolding rescale_node_eq by (auto simp: fun_eq_iff)
  finally show ?case .
qed

lemma FCT_element_eq:
  "FCT_element ev x yH yL k y =
     (\<lambda>d. if k * GetDof ev k \<le> d \<and> d < k * GetDof ev k + GetDof ev k
          then yL d +
               rescaled (\<Sum>j<GetDof ev k. max (fClipped_at ev x yH yL (k * GetDof ev k + j)) 0)
                        (\<Sum>j<GetDof ev k. min (fClipped_at ev x yH yL (k * GetDof ev k + j)) 0)
                        (fClipped_at ev x yH yL d) / (dt ev * lumpedM ev d)
          else y d)"
  by (auto simp: FCT_element_def Let_def clip_loop_eq rescale_loop_def rescale_fold fun_eq_iff)

lemma ComputeFCTSolution_node:
  assumes "\<forall>k<GetNE ev. GetDof ev k = nd" "k < GetNE ev" "j < nd"
  shows "ComputeFCTSolution ev x yH yL y (k * nd + j) =
         yL (k * nd + j) +
         rescaled (\<Sum>j<nd. max (fClipped_at ev x yH yL (k * nd + j)) 0)
                  (\<Sum>j<nd. min (fClipped_at ev x yH yL (k * nd + j)) 0)
                  (fClipped_at ev x yH yL (k * nd + j)) / (dt ev * lumpedM ev (k * nd + j))"
  unfolding ComputeFCTSolution_def
proof (rule fold_upd_hit [where k = k])
  show "k \<in> set [0..<GetNE ev]" using assms(2) by simp
next
  fix s
  show "FCT_element ev x yH yL k s (k * nd + j) =
         yL (k * nd + j) +
         rescaled (\<Sum>j<nd. max (fClipped_at ev x yH yL (k * nd + j)) 0)
                  (\<Sum>j<nd. min (fClipped_at ev x yH yL (k * nd + j)) 0)
                  (fClipped_at ev x yH yL (k * nd + j)) / (dt ev * lumpedM ev (k * nd + j))"
    using assms by (simp add: FCT_element_eq)
next
  fix k' s
  assume k': "k' \<in> set [0..<GetNE ev]" "k' \<noteq> k"
  then have nd: "GetDof ev k' = nd" using assms(1) by simp
  have "(k' * nd \<le> k * nd + j \<and> k * nd + j < k' * nd + nd) = False"
  proof (rule iffI)
    assume a: "k' * nd \<le> k * nd + j \<and> k * nd + j < k' * nd + nd"
    then have "k * nd + j = k' * nd + (k * nd + j - k' * nd)" "k * nd + j - k' * nd < nd"
      by auto
    with assms(3) block_index_eq_iff [of j nd "k * nd + j - k' * nd" k k'] k'(2)
    show False by auto
  qed simp
  then show "FCT_element ev x yH yL k' s (k * nd + j) = s (k * nd + j)"
    unfolding FCT_element_eq nd by (simp only: if_False)
qed

subsection \<open>The rescaling shrinks a flux\<close>

lemma rescaled_factor:
  assumes "0 \<le> sumPos" "sumNeg \<le> 0"
  obtains s where "0 \<le> s" "s \<le> 1" "rescaled sumPos sumNeg f = s * f"
proof (cases "sumPos + sumNeg > fct_eps \<and> f > fct_eps")
  case True
  with fct_eps_pos have pos: "0 < sumPos" "- sumNeg < sumPos" using assms by auto
  have "rescaled sumPos sumNeg f = (- sumNeg / sumPos) * f"
    using True fct_eps_pos by (simp add: rescaled_def)
  then have r: "rescaled sumPos sumNeg f = (- sumNeg / sumPos) * f" .
  have "0 \<le> - sumNeg / sumPos" using pos assms by (intro divide_nonneg_pos) auto
  moreover have "- sumNeg / sumPos \<le> 1" using pos by (simp add: field_simps)
  ultimately show ?thesis using r by (rule that)
next
  case False
  note first = this
  show ?thesis
  proof (cases "sumPos + sumNeg < - fct_eps \<and> f < - fct_eps")
    case True
    with fct_eps_pos have neg: "sumNeg < 0" "sumPos < - sumNeg" using assms by auto
    have "rescaled sumPos sumNeg f = (- sumPos / sumNeg) * f"
      using True first fct_eps_pos by (auto simp: rescaled_def)
    then have r: "rescaled sumPos sumNeg f = (sumPos / (- sumNeg)) * f" by simp
    have "0 \<le> sumPos / (- sumNeg)"
      using neg assms by (intro divide_nonneg_pos) auto
    moreover have "sumPos / (- sumNeg) \<le> 1"
      using neg by (subst pos_divide_le_eq) auto
    ultimately show ?thesis using r by (rule that)
  next
    case False
    with first have "rescaled sumPos sumNeg f = 1 * f"
      by (auto simp: rescaled_def)
    with that [of 1] show ?thesis by simp
  qed
qed

lemma sum_max_nonneg: "0 \<le> (\<Sum>j<n. max (f j) (0::real))"
  by (rule sum_nonneg) simp

lemma sum_min_nonpos: "(\<Sum>j<n. min (f j) (0::real)) \<le> 0"
  by (rule sum_nonpos) simp

text \<open>
  Claim C1, as the code has it, in exact arithmetic. On a mesh whose elements all have \<open>nd\<close>
  nodes, with a non-zero time step and a non-zero lumped mass at the node, and when the
  low-order update \<open>x + dt * yL\<close> of the node lies within the node's bounds, the forward
  Euler update \<open>x + dt * y\<close> with the \<open>y\<close> that \<open>ComputeFCTSolution\<close> returns lies within
  the bounds \<open>[x_min, x_max]\<close> of the node.
\<close>

theorem FCT_update_within_bounds:
  assumes "\<forall>k<GetNE ev. GetDof ev k = nd" "k < GetNE ev" "j < nd"
    and "dofInd = k * nd + j"
    and "dt ev \<noteq> 0" "lumpedM ev dofInd \<noteq> 0"
    and "x_min ev dofInd \<le> x dofInd + dt ev * yL dofInd"
    and "x dofInd + dt ev * yL dofInd \<le> x_max ev dofInd"
  shows "x_min ev dofInd \<le> x dofInd + dt ev * ComputeFCTSolution ev x yH yL y dofInd \<and>
         x dofInd + dt ev * ComputeFCTSolution ev x yH yL y dofInd \<le> x_max ev dofInd"
proof -
  define lo where "lo = x_min ev dofInd"
  define hi where "hi = x_max ev dofInd"
  define uL where "uL = x dofInd + dt ev * yL dofInd"
  define u where "u = uClipped_at ev x yH dofInd"
  define sumPos where "sumPos = (\<Sum>j<nd. max (fClipped_at ev x yH yL (k * nd + j)) 0)"
  define sumNeg where "sumNeg = (\<Sum>j<nd. min (fClipped_at ev x yH yL (k * nd + j)) 0)"
  have uL: "lo \<le> uL" "uL \<le> hi" using assms(7,8) by (simp_all add: lo_def hi_def uL_def)
  then have u: "lo \<le> u" "u \<le> hi"
    by (auto simp: u_def uClipped_at_def lo_def hi_def)
  have "0 \<le> sumPos" "sumNeg \<le> 0"
    unfolding sumPos_def sumNeg_def by (rule sum_max_nonneg, rule sum_min_nonpos)
  then obtain s where s: "0 \<le> s" "s \<le> 1"
    "rescaled sumPos sumNeg (fClipped_at ev x yH yL dofInd) = s * fClipped_at ev x yH yL dofInd"
    by (rule rescaled_factor)
  have "ComputeFCTSolution ev x yH yL y dofInd =
        yL dofInd + s * fClipped_at ev x yH yL dofInd / (dt ev * lumpedM ev dofInd)"
    using ComputeFCTSolution_node [OF assms(1-3), of x yH yL y] s(3)
    by (simp add: assms(4) sumPos_def sumNeg_def)
  also have "fClipped_at ev x yH yL dofInd = lumpedM ev dofInd * (u - uL)"
    by (simp add: fClipped_at_def u_def uL_def)
  also have "s * (lumpedM ev dofInd * (u - uL)) / (dt ev * lumpedM ev dofInd) =
             s * (u - uL) / dt ev"
    using assms(6) by simp
  finally have C: "ComputeFCTSolution ev x yH yL y dofInd = yL dofInd + s * (u - uL) / dt ev" .
  have "dt ev * (yL dofInd + s * (u - uL) / dt ev) = dt ev * yL dofInd + s * (u - uL)"
    using assms(5) by (simp add: distrib_left)
  then have "x dofInd + dt ev * ComputeFCTSolution ev x yH yL y dofInd = uL + s * (u - uL)"
    unfolding C uL_def by simp
  also have "\<dots> = (1 - s) * uL + s * u" by (simp add: algebra_simps)
  finally have eq: "x dofInd + dt ev * ComputeFCTSolution ev x yH yL y dofInd =
                    (1 - s) * uL + s * u" .
  have "(1 - s) * lo + s * lo \<le> (1 - s) * uL + s * u"
    using s uL u by (intro add_mono mult_left_mono) auto
  moreover have "(1 - s) * uL + s * u \<le> (1 - s) * hi + s * hi"
    using s uL u by (intro add_mono mult_left_mono) auto
  ultimately show ?thesis
    unfolding eq by (simp add: algebra_simps lo_def hi_def)
qed

theorem FCT_update_within_bounds_witness:
  "(0::nat) < 1 \<and> (1::real) \<noteq> 0 \<and> (0::real) \<le> 0 + 1 * (1 / 2) \<and>
   (0::real) \<le> 0 + 1 * ComputeFCTSolution
       \<lparr>dt = 1, GetNE = 1, GetDof = \<lambda>_. 1, x_min = \<lambda>_. 0, x_max = \<lambda>_. 1, lumpedM = \<lambda>_. 1\<rparr>
       (\<lambda>_. 0) (\<lambda>_. 3) (\<lambda>_. 1 / 2) (\<lambda>_. 0) 0 \<and>
   0 + 1 * ComputeFCTSolution
       \<lparr>dt = 1, GetNE = 1, GetDof = \<lambda>_. 1, x_min = \<lambda>_. 0, x_max = \<lambda>_. 1, lumpedM = \<lambda>_. 1\<rparr>
       (\<lambda>_. 0) (\<lambda>_. 3) (\<lambda>_. 1 / 2) (\<lambda>_. 0) 0 \<le> (1::real)"
  using FCT_update_within_bounds [where nd = 1 and k = 0 and j = 0 and dofInd = 0
      and ev = "\<lparr>dt = 1, GetNE = 1, GetDof = \<lambda>_. 1, x_min = \<lambda>_. 0, x_max = \<lambda>_. 1,
                lumpedM = \<lambda>_. 1\<rparr>"
      and x = "\<lambda>_. 0" and yH = "\<lambda>_. 3" and yL = "\<lambda>_. 1 / 2" and y = "\<lambda>_. 0"]
  by simp

text \<open>
  One element with one node, bounds \<open>[0, 1]\<close>, unit mass and time step, previous value 0:
  the high-order rate is 0 and the low-order rate is 5, so the low-order update 5 is
  already above the bound. The clipped flux \<open>-5\<close> is rescaled by \<open>-sumPos/sumNeg = 0\<close>,
  the result is the low-order rate, and the updated value 5 exceeds the upper bound 1
  by more than the tolerance.
\<close>

theorem FCT_update_leaves_bounds:
  "ComputeFCTSolution
       \<lparr>dt = 1, GetNE = 1, GetDof = \<lambda>_. 1, x_min = \<lambda>_. 0, x_max = \<lambda>_. 1, lumpedM = \<lambda>_. 1\<rparr>
       (\<lambda>_. 0) (\<lambda>_. 0) (\<lambda>_. 5) (\<lambda>_. 0) 0 = 5 \<and>
   \<not> (0 + 1 * ComputeFCTSolution
       \<lparr>dt = 1, GetNE = 1, GetDof = \<lambda>_. 1, x_min = \<lambda>_. 0, x_max = \<lambda>_. 1, lumpedM = \<lambda>_. 1\<rparr>
       (\<lambda>_. 0) (\<lambda>_. 0) (\<lambda>_. 5) (\<lambda>_. 0) 0 \<le> (1::real) + 1 / 10 ^ 10)"
proof -
  have "ComputeFCTSolution
       \<lparr>dt = 1, GetNE = 1, GetDof = \<lambda>_. 1, x_min = \<lambda>_. 0, x_max = \<lambda>_. 1, lumpedM = \<lambda>_. 1\<rparr>
       (\<lambda>_. 0) (\<lambda>_. 0) (\<lambda>_. 5) (\<lambda>_. 0) 0 = 5"
    by (simp add: ComputeFCTSolution_def FCT_element_def clip_loop_def clip_node_def
        rescale_loop_def rescale_node_def fct_eps_def Let_def)
  then show ?thesis by simp
qed

subsection \<open>The search on sorted tables\<close>

lemma upper_bound_loop_spec:
  assumes "sorted xs" "first + len \<le> length xs"
    and "\<forall>i < first. xs ! i \<le> val"
    and "\<forall>i. first + len \<le> i \<and> i < length xs \<longrightarrow> val < xs ! i"
  shows "upper_bound_loop xs val first len \<le> length xs \<and>
         (\<forall>i < upper_bound_loop xs val first len. xs ! i \<le> val) \<and>
         (\<forall>i. upper_bound_loop xs val first len \<le> i \<and> i < length xs \<longrightarrow> val < xs ! i)"
  using assms
proof (induction xs val first len rule: upper_bound_loop.induct)
  case (1 xs val first len)
  show ?case
  proof (cases "0 < len")
    case False
    then have "upper_bound_loop xs val first len = first"
      by (subst upper_bound_loop.simps) simp
    with False "1.prems" show ?thesis by simp
  next
    case True
    define half where "half = len div 2"
    define middle where "middle = first + half"
    have mid: "middle < first + len" "middle < length xs"
      using True "1.prems"(2) by (auto simp: half_def middle_def)
    show ?thesis
    proof (cases "val < xs ! middle")
      case lt: True
      have up: "\<forall>i. first + half \<le> i \<and> i < length xs \<longrightarrow> val < xs ! i"
      proof (intro allI impI)
        fix i assume i: "first + half \<le> i \<and> i < length xs"
        then have "xs ! middle \<le> xs ! i"
          using "1.prems"(1) by (auto simp: middle_def intro: sorted_nth_mono)
        with lt show "val < xs ! i" by simp
      qed
      have "first + half \<le> length xs" using mid by (simp add: middle_def)
      have "upper_bound_loop xs val first len = upper_bound_loop xs val first half"
        using True lt
        by (subst upper_bound_loop.simps) (simp add: Let_def half_def middle_def)
      with "1.IH"(1) [OF True half_def middle_def lt "1.prems"(1) \<open>first + half \<le> length xs\<close>
          "1.prems"(3) up]
      show ?thesis by simp
    next
      case ge: False
      have lo: "\<forall>i < middle + 1. xs ! i \<le> val"
      proof (intro allI impI)
        fix i assume "i < middle + 1"
        then have "xs ! i \<le> xs ! middle"
          using "1.prems"(1) mid by (auto intro: sorted_nth_mono)
        with ge show "xs ! i \<le> val" by simp
      qed
      have eq: "middle + 1 + (len - half - 1) = first + len"
        using True by (simp add: middle_def half_def)
      have b: "middle + 1 + (len - half - 1) \<le> length xs"
        using eq "1.prems"(2) by simp
      have up: "\<forall>i. middle + 1 + (len - half - 1) \<le> i \<and> i < length xs \<longrightarrow> val < xs ! i"
        using eq "1.prems"(4) by simp
      have "upper_bound_loop xs val first len =
            upper_bound_loop xs val (middle + 1) (len - half - 1)"
        using True ge
        by (subst upper_bound_loop.simps) (simp add: Let_def half_def middle_def)
      with "1.IH"(2) [OF True half_def middle_def ge "1.prems"(1) b lo up]
      show ?thesis by simp
    qed
  qed
qed

lemma upper_bound_spec:
  assumes "sorted xs"
  shows "upper_bound xs val \<le> length xs \<and>
         (\<forall>i < upper_bound xs val. xs ! i \<le> val) \<and>
         (\<forall>i. upper_bound xs val \<le> i \<and> i < length xs \<longrightarrow> val < xs ! i)"
  unfolding upper_bound_def
  by (rule upper_bound_loop_spec) (use assms in auto)

lemma upper_bound_takeWhile:
  assumes "sorted xs"
  shows "upper_bound xs val = length (takeWhile (\<lambda>x. x \<le> val) xs)"
proof (rule antisym)
  from upper_bound_spec [OF assms, of val]
  show "upper_bound xs val \<le> length (takeWhile (\<lambda>x. x \<le> val) xs)"
    by (intro length_takeWhile_less_P_nth) auto
next
  let ?n = "length (takeWhile (\<lambda>x. x \<le> val) xs)"
  show "?n \<le> upper_bound xs val"
  proof (rule ccontr)
    assume "\<not> ?n \<le> upper_bound xs val"
    then have lt: "upper_bound xs val < ?n" by simp
    have "?n \<le> length xs" by (rule length_takeWhile_le)
    with lt upper_bound_spec [OF assms, of val]
    have "val < xs ! upper_bound xs val" by auto
    moreover have "xs ! upper_bound xs val \<le> val"
      using nth_mem [of "upper_bound xs val" "takeWhile (\<lambda>x. x \<le> val) xs"] lt
      by (auto simp: takeWhile_nth dest: set_takeWhileD)
    ultimately show False by simp
  qed
qed

text \<open>
  Claim C4, as the code has it. On a sorted table of any size other than one,
  \<open>get_rank\<close> is the index of the first offset greater than \<open>d\<close> (the table's length
  when there is none) minus one; on a table of one entry it is 0 whatever \<open>d\<close> is; and
  the result is the largest index whose offset is at most \<open>d\<close> as soon as the first
  offset is at most \<open>d\<close>.
\<close>

theorem get_rank_sorted:
  assumes "sorted T"
  shows "(length T \<noteq> 1 \<longrightarrow>
            get_rank d T = int (length (takeWhile (\<lambda>x. x \<le> d) T)) - 1) \<and>
         (length T = 1 \<longrightarrow> get_rank d T = 0) \<and>
         (T \<noteq> [] \<and> hd T \<le> d \<longrightarrow> largest_index_le T d (get_rank d T))"
proof (intro conjI impI)
  show "get_rank d T = int (length (takeWhile (\<lambda>x. x \<le> d) T)) - 1" if "length T \<noteq> 1"
    using that upper_bound_takeWhile [OF assms] by (simp add: get_rank_def)
  show "get_rank d T = 0" if "length T = 1"
    using that by (simp add: get_rank_def)
  show "largest_index_le T d (get_rank d T)" if ne: "T \<noteq> [] \<and> hd T \<le> d"
  proof (cases "length T = 1")
    case True
    then obtain x where "T = [x]" by (cases T) auto
    with ne show ?thesis by (simp add: get_rank_def largest_index_le_def)
  next
    case False
    let ?u = "upper_bound T d"
    from upper_bound_spec [OF assms, of d]
    have u: "?u \<le> length T" "\<forall>i < ?u. T ! i \<le> d"
      "\<forall>i. ?u \<le> i \<and> i < length T \<longrightarrow> d < T ! i" by auto
    have "0 < ?u"
    proof (rule ccontr)
      assume "\<not> 0 < ?u"
      then have "d < T ! 0" using u(3) ne by auto
      with ne show False by (auto simp: hd_conv_nth)
    qed
    then have "get_rank d T = int (?u - 1)" "nat (int (?u - 1)) = ?u - 1"
      using False by (auto simp: get_rank_def)
    with u \<open>0 < ?u\<close> show ?thesis
      by (auto simp: largest_index_le_def)
  qed
qed

theorem get_rank_sorted_witness:
  "sorted [0, 4, 9 :: int] \<and> get_rank 5 [0, 4, 9] = 1 \<and> largest_index_le [0, 4, 9] 5 1"
proof -
  have s: "sorted [0, 4, 9 :: int]" by simp
  have r: "get_rank 5 [0, 4, 9] = 1"
    using get_rank_sorted [OF s, of 5] by simp
  show ?thesis
    using s get_rank_sorted [OF s, of 5] unfolding r by simp
qed

text \<open>
  The table \<open>[5, 10]\<close> is sorted, and index 3 lies before its first offset: the search
  stops at the start, \<open>get_rank\<close> is \<open>-1\<close>, and no index of the table has an offset at
  most 3.
\<close>

theorem get_rank_below_first_offset:
  "sorted [5, 10 :: int] \<and> get_rank 3 [5, 10] = - 1 \<and>
   \<not> largest_index_le [5, 10] 3 (get_rank 3 [5, 10])"
  by (simp add: get_rank_def upper_bound_def upper_bound_loop.simps Let_def
      largest_index_le_def)

section \<open>The overlap buckets\<close>

subsection \<open>One element\<close>

text \<open>
  What each loop of \<open>AddElementToOvlpLists\<close> appends to the bucket \<open>d\<close> of subdomain
  \<open>l\<close>: one copy of the element for every index that passes the \<^verbatim>\<open>continue\<close> tests and
  has direction id \<open>d\<close>.
\<close>

lemma AddElement_i_bucket:
  "AddElement_i dm_dim l iel neg pos k j i OE l d =
   OE l d @ appended_i dm_dim iel neg pos d k j i"
  by (simp add: AddElement_i_def appended_i_def Let_def)

lemma AddElement_j_bucket:
  "AddElement_j dm_dim l iel neg pos k j OE l d =
   OE l d @ appended_j dm_dim iel neg pos d k j"
  unfolding AddElement_j_def appended_j_def
  using fold_appends [where prj = "\<lambda>OE. OE l d" and F = "AddElement_i dm_dim l iel neg pos k j"
      and f = "appended_i dm_dim iel neg pos d k j" and s = OE and ks = "[- 1, 0, 1]",
      OF AddElement_i_bucket]
  by (simp del: fold_simps)

lemma AddElement_k_bucket:
  "AddElement_k dm_dim l iel neg pos k OE l d =
   OE l d @ appended_k dm_dim iel neg pos d k"
  unfolding AddElement_k_def appended_k_def
  using fold_appends [where prj = "\<lambda>OE. OE l d" and F = "AddElement_j dm_dim l iel neg pos k"
      and f = "appended_j dm_dim iel neg pos d k" and s = OE and ks = "[- 1, 0, 1]",
      OF AddElement_j_bucket]
  by (simp del: fold_simps)

lemma AddElementToOvlpLists_bucket:
  "AddElementToOvlpLists dm_dim l iel neg pos OE l d =
   OE l d @ concat (map (appended_k dm_dim iel neg pos d)
                     [(if dm_dim = 2 then 0 else - 1)..(if dm_dim = 2 then 0 else 1)])"
  unfolding AddElementToOvlpLists_def Let_def
  using fold_appends [where prj = "\<lambda>OE. OE l d" and F = "AddElement_k dm_dim l iel neg pos"
      and f = "appended_k dm_dim iel neg pos d" and s = OE, OF AddElement_k_bucket]
  by blast

lemma ball_lessThan_2: "(\<forall>a\<in>{..<2::nat}. P a) \<longleftrightarrow> P 0 \<and> P 1"
  by (auto simp: less_2_cases_iff)

lemma bex_lessThan_2: "(\<exists>a\<in>{..<2::nat}. P a) \<longleftrightarrow> P 0 \<or> P 1"
  by (auto simp: less_2_cases_iff)

lemma less_3_cases_iff: "a < (3::nat) \<longleftrightarrow> a = 0 \<or> a = 1 \<or> a = 2"
  by auto

lemma ball_lessThan_3: "(\<forall>a\<in>{..<3::nat}. P a) \<longleftrightarrow> P 0 \<and> P 1 \<and> P 2"
  by (auto simp: less_3_cases_iff)

lemma bex_lessThan_3: "(\<exists>a\<in>{..<3::nat}. P a) \<longleftrightarrow> P 0 \<or> P 1 \<or> P 2"
  by (auto simp: less_3_cases_iff)

subsection \<open>Direction ids\<close>

lemma GetDirectionId_value: "GetDirectionId [i, j, k] = (k + 1) * 9 + (j + 1) * 3 + i + 1"
  by (simp add: GetDirectionId_def)

lemma direction_component_bounds: "i \<in> {- 1, 0, 1 :: int} \<longleftrightarrow> - 1 \<le> i \<and> i \<le> 1"
  by auto

lemma GetDirectionId_inj:
  assumes "i \<in> {- 1, 0, 1}" "j \<in> {- 1, 0, 1}" "k \<in> {- 1, 0, 1}"
    and "i' \<in> {- 1, 0, 1}" "j' \<in> {- 1, 0, 1}" "k' \<in> {- 1, 0, 1}"
  shows "nat (GetDirectionId [i, j, k]) = nat (GetDirectionId [i', j', k']) \<longleftrightarrow>
         i = i' \<and> j = j' \<and> k = k'"
proof -
  have b: "- 1 \<le> i" "i \<le> 1" "- 1 \<le> j" "j \<le> 1" "- 1 \<le> k" "k \<le> 1"
    "- 1 \<le> i'" "i' \<le> 1" "- 1 \<le> j'" "j' \<le> 1" "- 1 \<le> k'" "k' \<le> 1"
    using assms by (simp_all only: direction_component_bounds)
  then have "nat (GetDirectionId [i, j, k]) = nat (GetDirectionId [i', j', k']) \<longleftrightarrow>
        (k + 1) * 9 + (j + 1) * 3 + i + 1 = (k' + 1) * 9 + (j' + 1) * 3 + i' + 1"
    unfolding GetDirectionId_value by (subst eq_nat_nat_iff) auto
  also have "\<dots> \<longleftrightarrow> i = i' \<and> j = j' \<and> k = k'"
  proof
    assume eq: "(k + 1) * 9 + (j + 1) * 3 + i + 1 = (k' + 1) * 9 + (j' + 1) * 3 + i' + 1"
    define m where "m = (j' - j) + 3 * (k' - k)"
    from eq have "i - i' = 3 * m" by (simp add: m_def algebra_simps)
    with b(1,2,7,8) have i: "i = i'" by presburger
    define n where "n = k' - k"
    from eq i have "j - j' = 3 * n" by (simp add: n_def algebra_simps)
    with b(3,4,9,10) have j: "j = j'" by presburger
    from eq i j have "k = k'" by simp
    with i j show "i = i' \<and> j = j' \<and> k = k'" by simp
  qed simp
  finally show ?thesis .
qed

text \<open>
  The loops of \<open>AddElementToOvlpLists\<close>, read at the bucket of a direction
  \<open>[i0, j0, k0]\<close>: only the index equal to the direction's component contributes.
  \<open>kk\<close> is the third component the innermost body stores for the loop index \<open>k\<close>.
\<close>

lemma appended_i_at:
  assumes "i0 \<in> {- 1, 0, 1}" "j0 \<in> {- 1, 0, 1}" "k0 \<in> {- 1, 0, 1}"
    and "i \<in> {- 1, 0, 1}" "j \<in> {- 1, 0, 1}" "kk \<in> {- 1, 0, 1}"
    and "kk = (if dm_dim = 2 then - 1 else k)"
  shows "appended_i dm_dim iel neg pos (nat (GetDirectionId [i0, j0, k0])) k j i =
         (if i = i0 \<and> j = j0 \<and> kk = k0 \<and> \<not> (i = - 1 \<and> \<not> neg 0) \<and> \<not> (i = 1 \<and> \<not> pos 0) \<and>
             \<not> (i = 0 \<and> j = 0 \<and> k = 0)
          then [iel] else [])"
proof -
  have "nat (GetDirectionId [i, j, kk]) = nat (GetDirectionId [i0, j0, k0]) \<longleftrightarrow>
        i = i0 \<and> j = j0 \<and> kk = k0"
    using assms(4-6,1-3) by (rule GetDirectionId_inj)
  then show ?thesis
    unfolding appended_i_def assms(7) [symmetric] by simp
qed

lemma appended_i_sum:
  assumes "i0 \<in> {- 1, 0, 1}" "j0 \<in> {- 1, 0, 1}" "k0 \<in> {- 1, 0, 1}"
    and "j \<in> {- 1, 0, 1}" "kk \<in> {- 1, 0, 1}"
    and "kk = (if dm_dim = 2 then - 1 else k)"
  shows "concat (map (appended_i dm_dim iel neg pos (nat (GetDirectionId [i0, j0, k0])) k j)
                  [- 1, 0, 1]) =
         (if j = j0 \<and> kk = k0 \<and> \<not> (i0 = - 1 \<and> \<not> neg 0) \<and> \<not> (i0 = 1 \<and> \<not> pos 0) \<and>
             \<not> (i0 = 0 \<and> j = 0 \<and> k = 0)
          then [iel] else [])"
proof -
  note e = appended_i_at [OF assms(1-3) _ assms(4-6), of _ iel neg pos]
  have "concat (map (appended_i dm_dim iel neg pos (nat (GetDirectionId [i0, j0, k0])) k j)
                  [- 1, 0, 1]) =
        (if - 1 = i0 \<and> j = j0 \<and> kk = k0 \<and> neg 0 \<and> \<not> (j = 0 \<and> k = 0 \<and> False) then [iel] else []) @
        (if 0 = i0 \<and> j = j0 \<and> kk = k0 \<and> \<not> (j = 0 \<and> k = 0) then [iel] else []) @
        (if 1 = i0 \<and> j = j0 \<and> kk = k0 \<and> pos 0 then [iel] else [])"
    by (simp add: e)
  also have "\<dots> = (if j = j0 \<and> kk = k0 \<and> \<not> (i0 = - 1 \<and> \<not> neg 0) \<and> \<not> (i0 = 1 \<and> \<not> pos 0) \<and>
             \<not> (i0 = 0 \<and> j = 0 \<and> k = 0)
          then [iel] else [])"
    using assms(1) by auto
  finally show ?thesis .
qed

lemma appended_j_at:
  assumes "i0 \<in> {- 1, 0, 1}" "j0 \<in> {- 1, 0, 1}" "k0 \<in> {- 1, 0, 1}"
    and "j \<in> {- 1, 0, 1}" "kk \<in> {- 1, 0, 1}"
    and "kk = (if dm_dim = 2 then - 1 else k)"
  shows "appended_j dm_dim iel neg pos (nat (GetDirectionId [i0, j0, k0])) k j =
         (if j = j0 \<and> kk = k0 \<and> \<not> (j = - 1 \<and> \<not> neg 1) \<and> \<not> (j = 1 \<and> \<not> pos 1) \<and>
             \<not> (i0 = - 1 \<and> \<not> neg 0) \<and> \<not> (i0 = 1 \<and> \<not> pos 0) \<and>
             \<not> (i0 = 0 \<and> j = 0 \<and> k = 0)
          then [iel] else [])"
  unfolding appended_j_def appended_i_sum [OF assms] by auto

lemma appended_j_sum:
  assumes "i0 \<in> {- 1, 0, 1}" "j0 \<in> {- 1, 0, 1}" "k0 \<in> {- 1, 0, 1}"
    and "kk \<in> {- 1, 0, 1}" "kk = (if dm_dim = 2 then - 1 else k)"
  shows "concat (map (appended_j dm_dim iel neg pos (nat (GetDirectionId [i0, j0, k0])) k)
                  [- 1, 0, 1]) =
         (if kk = k0 \<and> \<not> (j0 = - 1 \<and> \<not> neg 1) \<and> \<not> (j0 = 1 \<and> \<not> pos 1) \<and>
             \<not> (i0 = - 1 \<and> \<not> neg 0) \<and> \<not> (i0 = 1 \<and> \<not> pos 0) \<and>
             \<not> (i0 = 0 \<and> j0 = 0 \<and> k = 0)
          then [iel] else [])"
proof -
  note e = appended_j_at [OF assms(1-3) _ assms(4,5), of _ iel neg pos]
  have "concat (map (appended_j dm_dim iel neg pos (nat (GetDirectionId [i0, j0, k0])) k)
                  [- 1, 0, 1]) =
        (if - 1 = j0 \<and> kk = k0 \<and> neg 1 \<and>
            \<not> (i0 = - 1 \<and> \<not> neg 0) \<and> \<not> (i0 = 1 \<and> \<not> pos 0) then [iel] else []) @
        (if 0 = j0 \<and> kk = k0 \<and>
            \<not> (i0 = - 1 \<and> \<not> neg 0) \<and> \<not> (i0 = 1 \<and> \<not> pos 0) \<and> \<not> (i0 = 0 \<and> k = 0)
         then [iel] else []) @
        (if 1 = j0 \<and> kk = k0 \<and> pos 1 \<and>
            \<not> (i0 = - 1 \<and> \<not> neg 0) \<and> \<not> (i0 = 1 \<and> \<not> pos 0) then [iel] else [])"
    by (simp add: e)
  also have "\<dots> = (if kk = k0 \<and> \<not> (j0 = - 1 \<and> \<not> neg 1) \<and> \<not> (j0 = 1 \<and> \<not> pos 1) \<and>
             \<not> (i0 = - 1 \<and> \<not> neg 0) \<and> \<not> (i0 = 1 \<and> \<not> pos 0) \<and>
             \<not> (i0 = 0 \<and> j0 = 0 \<and> k = 0)
          then [iel] else [])"
    using assms(2) by auto
  finally show ?thesis .
qed

lemma appended_k_at:
  assumes "i0 \<in> {- 1, 0, 1}" "j0 \<in> {- 1, 0, 1}" "k0 \<in> {- 1, 0, 1}"
    and "kk \<in> {- 1, 0, 1}" "kk = (if dm_dim = 2 then - 1 else k)"
  shows "appended_k dm_dim iel neg pos (nat (GetDirectionId [i0, j0, k0])) k =
         (if kk = k0 \<and> \<not> (dm_dim = 3 \<and> k = - 1 \<and> \<not> neg 2) \<and> \<not> (dm_dim = 3 \<and> k = 1 \<and> \<not> pos 2) \<and>
             \<not> (j0 = - 1 \<and> \<not> neg 1) \<and> \<not> (j0 = 1 \<and> \<not> pos 1) \<and>
             \<not> (i0 = - 1 \<and> \<not> neg 0) \<and> \<not> (i0 = 1 \<and> \<not> pos 0) \<and>
             \<not> (i0 = 0 \<and> j0 = 0 \<and> k = 0)
          then [iel] else [])"
  unfolding appended_k_def appended_j_sum [OF assms] by auto

text \<open>In two dimensions the third component of a direction is the sentinel \<open>-1\<close>.\<close>

lemma upto_minus1_1: "[- 1..1::int] = [- 1, 0, 1]"
  by (simp add: upto.simps)

lemma AddElementToOvlpLists_2D:
  assumes "i \<in> {- 1, 0, 1}" "j \<in> {- 1, 0, 1}"
  shows "AddElementToOvlpLists 2 l iel neg pos OE l (nat (GetDirectionId [i, j, - 1])) =
         OE l (nat (GetDirectionId [i, j, - 1])) @
         (if direction_compatible 2 [i, j, - 1] neg pos then [iel] else [])"
proof -
  have k: "appended_k 2 iel neg pos (nat (GetDirectionId [i, j, - 1])) 0 =
        (if \<not> (j = - 1 \<and> \<not> neg 1) \<and> \<not> (j = 1 \<and> \<not> pos 1) \<and>
            \<not> (i = - 1 \<and> \<not> neg 0) \<and> \<not> (i = 1 \<and> \<not> pos 0) \<and> \<not> (i = 0 \<and> j = 0)
         then [iel] else [])"
    using appended_k_at [OF assms, of "- 1" "- 1" 2 0 iel neg pos] by simp
  have "\<not> (j = - 1 \<and> \<not> neg 1) \<and> \<not> (j = 1 \<and> \<not> pos 1) \<and>
        \<not> (i = - 1 \<and> \<not> neg 0) \<and> \<not> (i = 1 \<and> \<not> pos 0) \<and> \<not> (i = 0 \<and> j = 0) \<longleftrightarrow>
        direction_compatible 2 [i, j, - 1] neg pos"
    by (auto simp: direction_compatible_def ball_lessThan_2 bex_lessThan_2)
  with k show ?thesis
    by (simp add: AddElementToOvlpLists_bucket)
qed

lemma AddElementToOvlpLists_3D:
  assumes "i \<in> {- 1, 0, 1}" "j \<in> {- 1, 0, 1}" "k \<in> {- 1, 0, 1}"
  shows "AddElementToOvlpLists 3 l iel neg pos OE l (nat (GetDirectionId [i, j, k])) =
         OE l (nat (GetDirectionId [i, j, k])) @
         (if direction_compatible 3 [i, j, k] neg pos then [iel] else [])"
proof -
  have e: "appended_k 3 iel neg pos (nat (GetDirectionId [i, j, k])) k' =
        (if k' = k \<and> \<not> (k' = - 1 \<and> \<not> neg 2) \<and> \<not> (k' = 1 \<and> \<not> pos 2) \<and>
            \<not> (j = - 1 \<and> \<not> neg 1) \<and> \<not> (j = 1 \<and> \<not> pos 1) \<and>
            \<not> (i = - 1 \<and> \<not> neg 0) \<and> \<not> (i = 1 \<and> \<not> pos 0) \<and>
            \<not> (i = 0 \<and> j = 0 \<and> k' = 0)
         then [iel] else [])" if "k' \<in> {- 1, 0, 1}" for k'
    using appended_k_at [OF assms that, of 3 k' iel neg pos] by simp
  have "concat (map (appended_k 3 iel neg pos (nat (GetDirectionId [i, j, k]))) [- 1, 0, 1]) =
        (if - 1 = k \<and> neg 2 \<and> \<not> (j = - 1 \<and> \<not> neg 1) \<and> \<not> (j = 1 \<and> \<not> pos 1) \<and>
            \<not> (i = - 1 \<and> \<not> neg 0) \<and> \<not> (i = 1 \<and> \<not> pos 0) then [iel] else []) @
        (if 0 = k \<and> \<not> (j = - 1 \<and> \<not> neg 1) \<and> \<not> (j = 1 \<and> \<not> pos 1) \<and>
            \<not> (i = - 1 \<and> \<not> neg 0) \<and> \<not> (i = 1 \<and> \<not> pos 0) \<and> \<not> (i = 0 \<and> j = 0)
         then [iel] else []) @
        (if 1 = k \<and> pos 2 \<and> \<not> (j = - 1 \<and> \<not> neg 1) \<and> \<not> (j = 1 \<and> \<not> pos 1) \<and>
            \<not> (i = - 1 \<and> \<not> neg 0) \<and> \<not> (i = 1 \<and> \<not> pos 0) then [iel] else [])"
    by (simp add: e)
  also have "\<dots> = (if direction_compatible 3 [i, j, k] neg pos then [iel] else [])"
    using assms(3) by (auto simp: direction_compatible_def ball_lessThan_3 bex_lessThan_3)
  finally show ?thesis
    by (simp add: AddElementToOvlpLists_bucket upto_minus1_1)
qed

text \<open>The lists of another subdomain, and the lists beyond the direction ids, are not touched.\<close>

lemma AddElementToOvlpLists_other:
  assumes "l' \<noteq> l"
  shows "AddElementToOvlpLists dm_dim l iel neg pos OE l' d = OE l' d"
proof -
  have i: "AddElement_i dm_dim l iel neg pos k j i OE l' d = OE l' d" for k j i OE
    using assms by (simp add: AddElement_i_def Let_def)
  have j: "AddElement_j dm_dim l iel neg pos k j OE l' d = OE l' d" for k j OE
    unfolding AddElement_j_def
    using fold_steps_miss [where prj = "\<lambda>OE. OE l'" and p = d
        and F = "AddElement_i dm_dim l iel neg pos k j" and ks = "[- 1, 0, 1]" and s = OE, OF i]
    by (simp del: fold_simps)
  have k: "AddElement_k dm_dim l iel neg pos k OE l' d = OE l' d" for k OE
    unfolding AddElement_k_def
    using fold_steps_miss [where prj = "\<lambda>OE. OE l'" and p = d
        and F = "AddElement_j dm_dim l iel neg pos k" and ks = "[- 1, 0, 1]" and s = OE, OF j]
    by (simp del: fold_simps)
  show ?thesis
    unfolding AddElementToOvlpLists_def Let_def
    by (rule fold_steps_miss [where prj = "\<lambda>OE. OE l'" and p = d
          and F = "AddElement_k dm_dim l iel neg pos", OF k])
qed

lemma GetDirectionId_less:
  assumes "i \<in> {- 1, 0, 1}" "j \<in> {- 1, 0, 1}" "k \<in> {- 1, 0, 1}"
  shows "nat (GetDirectionId [i, j, k]) < 27" "k = - 1 \<Longrightarrow> nat (GetDirectionId [i, j, k]) < 9"
  using assms unfolding GetDirectionId_value by auto

lemma AddElementToOvlpLists_outside:
  assumes "dm_dim = 2 \<or> dm_dim = 3" "3 ^ dm_dim \<le> d"
  shows "AddElementToOvlpLists dm_dim l iel neg pos OE l d = OE l d"
proof -
  have i: "appended_i dm_dim iel neg pos d k j i = []"
    if "i \<in> {- 1, 0, 1}" "j \<in> {- 1, 0, 1}" "k \<in> {- 1, 0, 1}" for i j k
  proof -
    have "nat (GetDirectionId [i, j, if dm_dim = 2 then - 1 else k]) < 3 ^ dm_dim"
      using assms(1) GetDirectionId_less [OF that(1,2), of "- 1"]
        GetDirectionId_less(1) [OF that] by auto
    with assms(2) have "nat (GetDirectionId [i, j, if dm_dim = 2 then - 1 else k]) \<noteq> d"
      by linarith
    then show ?thesis by (simp only: appended_i_def if_False if_cancel)
  qed
  have j: "appended_j dm_dim iel neg pos d k j = []"
    if "j \<in> {- 1, 0, 1}" "k \<in> {- 1, 0, 1}" for j k
    using that by (simp add: appended_j_def i)
  have k: "appended_k dm_dim iel neg pos d k = []" if "k \<in> {- 1, 0, 1}" for k
    using that by (simp add: appended_k_def j)
  have "concat (map (appended_k dm_dim iel neg pos d)
                 [(if dm_dim = 2 then 0 else - 1)..(if dm_dim = 2 then 0 else 1)]) = []"
  proof (cases "dm_dim = 2")
    case True
    with k [of 0] show ?thesis by simp
  next
    case False
    with k [of "- 1"] k [of 0] k [of 1] show ?thesis by (simp add: upto_minus1_1)
  qed
  then show ?thesis by (simp only: AddElementToOvlpLists_bucket append_Nil2)
qed

subsection \<open>The flags of an element\<close>

lemma overlap_flags_eq:
  "overlap_flags dm ijk mesh iel =
     (\<lambda>d. d < sdim dm \<and> 0 < ijk ! d \<and>
           elem_center mesh iel d < pmin mesh d + MeshSize dm * real (2 * OvlpNlayers dm),
      \<lambda>d. d < sdim dm \<and> int (ijk ! d) < int (nxyz dm ! d) - 1 \<and>
           elem_center mesh iel d > pmax mesh d - MeshSize dm * real (2 * OvlpNlayers dm))"
proof -
  define step where "step = (\<lambda>d (neg, pos).
           (if 0 < ijk ! d \<and>
               elem_center mesh iel d < pmin mesh d + MeshSize dm * real (2 * OvlpNlayers dm)
            then neg(d := True) else neg,
            if int (ijk ! d) < int (nxyz dm ! d) - 1 \<and>
               elem_center mesh iel d > pmax mesh d - MeshSize dm * real (2 * OvlpNlayers dm)
            then pos(d := True) else pos))"
  have "fold step [0..<n] (\<lambda>_. False, \<lambda>_. False) =
     (\<lambda>d. d < n \<and> 0 < ijk ! d \<and>
           elem_center mesh iel d < pmin mesh d + MeshSize dm * real (2 * OvlpNlayers dm),
      \<lambda>d. d < n \<and> int (ijk ! d) < int (nxyz dm ! d) - 1 \<and>
           elem_center mesh iel d > pmax mesh d - MeshSize dm * real (2 * OvlpNlayers dm))" for n
  proof (induction n)
    case 0
    show ?case by simp
  next
    case (Suc n)
    have "fold step [0..<Suc n] (\<lambda>_. False, \<lambda>_. False) =
          step n (fold step [0..<n] (\<lambda>_. False, \<lambda>_. False))"
      by simp
    also have "\<dots> = (\<lambda>d. d < Suc n \<and> 0 < ijk ! d \<and>
           elem_center mesh iel d < pmin mesh d + MeshSize dm * real (2 * OvlpNlayers dm),
      \<lambda>d. d < Suc n \<and> int (ijk ! d) < int (nxyz dm ! d) - 1 \<and>
           elem_center mesh iel d > pmax mesh d - MeshSize dm * real (2 * OvlpNlayers dm))"
      unfolding Suc by (auto simp: step_def fun_eq_iff less_Suc_eq)
    finally show ?case .
  qed
  then show ?thesis
    unfolding overlap_flags_def Let_def step_def by simp
qed

subsection \<open>All elements of all subdomains\<close>

lemma ComputeOvlpElems_element_bucket:
  assumes "sdim dm = 2 \<or> sdim dm = 3"
    and "i \<in> {- 1, 0, 1}" "j \<in> {- 1, 0, 1}" "if sdim dm = 2 then k = - 1 else k \<in> {- 1, 0, 1}"
  shows "ComputeOvlpElems_element dm ijk mesh l iel OE l (nat (GetDirectionId [i, j, k])) =
         OE l (nat (GetDirectionId [i, j, k])) @
         (if direction_compatible (sdim dm) [i, j, k]
               (fst (overlap_flags dm ijk mesh iel)) (snd (overlap_flags dm ijk mesh iel))
          then [iel] else [])"
proof (cases "sdim dm = 2")
  case True
  with assms(4) have k: "k = - 1" by simp
  show ?thesis
    unfolding ComputeOvlpElems_element_def True k
    using AddElementToOvlpLists_2D [OF assms(2,3)]
    by (simp add: case_prod_beta)
next
  case False
  with assms(1,4) have d: "sdim dm = 3" and k: "k \<in> {- 1, 0, 1}" by auto
  show ?thesis
    unfolding ComputeOvlpElems_element_def d
    using AddElementToOvlpLists_3D [OF assms(2,3) k]
    by (simp add: case_prod_beta)
qed

lemma ComputeOvlpElems_subdomain_bucket:
  assumes "sdim dm = 2 \<or> sdim dm = 3" "myid dm = subdomain_rank dm l"
    and "i \<in> {- 1, 0, 1}" "j \<in> {- 1, 0, 1}" "if sdim dm = 2 then k = - 1 else k \<in> {- 1, 0, 1}"
  shows "ComputeOvlpElems_subdomain dm l OE l (nat (GetDirectionId [i, j, k])) =
         filter (\<lambda>iel. direction_compatible (sdim dm) [i, j, k]
             (fst (overlap_flags dm (GetSubdomainijk l (nxyz dm)) (subdomain_mesh dm l) iel))
             (snd (overlap_flags dm (GetSubdomainijk l (nxyz dm)) (subdomain_mesh dm l) iel)))
           [0..<mesh_NE (subdomain_mesh dm l)]"
proof -
  let ?d = "nat (GetDirectionId [i, j, k])"
  let ?ijk = "GetSubdomainijk l (nxyz dm)"
  let ?mesh = "subdomain_mesh dm l"
  let ?P = "\<lambda>iel. direction_compatible (sdim dm) [i, j, k]
             (fst (overlap_flags dm ?ijk ?mesh iel)) (snd (overlap_flags dm ?ijk ?mesh iel))"
  have "fold (ComputeOvlpElems_element dm ?ijk ?mesh l) [0..<mesh_NE ?mesh] (OE(l := (\<lambda>_. []))) l ?d
        = (OE(l := (\<lambda>_. []))) l ?d @ concat (map (\<lambda>iel. if ?P iel then [iel] else [])
                                                [0..<mesh_NE ?mesh])"
    by (rule fold_appends [where prj = "\<lambda>OE. OE l ?d"
          and F = "ComputeOvlpElems_element dm ?ijk ?mesh l"
          and f = "\<lambda>iel. if ?P iel then [iel] else []"])
      (rule ComputeOvlpElems_element_bucket [OF assms(1,3-5)])
  then show ?thesis
    using assms(2) by (simp add: ComputeOvlpElems_subdomain_def Let_def concat_map_if_single)
qed

lemma ComputeOvlpElems_subdomain_other:
  assumes "l' \<noteq> l"
  shows "ComputeOvlpElems_subdomain dm l' OE l d = OE l d"
proof -
  have "fold (ComputeOvlpElems_element dm ijk mesh l') ks s l d = s l d" for ijk mesh ks s
    by (rule fold_steps_miss [where prj = "\<lambda>OE. OE l" and p = d])
      (simp add: ComputeOvlpElems_element_def case_prod_beta AddElementToOvlpLists_other
        assms [symmetric] del: fold_simps)
  then show ?thesis
    using assms by (simp add: ComputeOvlpElems_subdomain_def Let_def)
qed

lemma ComputeOvlpElems_subdomain_outside:
  assumes "sdim dm = 2 \<or> sdim dm = 3" "myid dm = subdomain_rank dm l" "3 ^ sdim dm \<le> d"
  shows "ComputeOvlpElems_subdomain dm l OE l d = []"
proof -
  have "fold (ComputeOvlpElems_element dm ijk mesh l) ks s l d = s l d" for ijk mesh ks s
    by (rule fold_steps_miss [where prj = "\<lambda>OE. OE l" and p = d])
      (simp add: ComputeOvlpElems_element_def case_prod_beta
        AddElementToOvlpLists_outside [OF assms(1,3)] del: fold_simps)
  then show ?thesis
    using assms(2) by (simp add: ComputeOvlpElems_subdomain_def Let_def)
qed

text \<open>
  Claim C6. On the process that owns subdomain \<open>l\<close>, in two or three dimensions, with
  \<open>ijk\<close> the grid coordinates of \<open>l\<close> and \<open>nlayers = 2 * OvlpNlayers\<close>: the flag \<open>neg d\<close>
  of an element is set exactly when \<open>ijk[d] > 0\<close> and its centre is below
  \<open>pmin[d] + h * nlayers\<close>, the flag \<open>pos d\<close> exactly when \<open>ijk[d] < nxyz[d] - 1\<close> and its
  centre is above \<open>pmax[d] - h * nlayers\<close>. After \<open>ComputeOvlpElems\<close>, the bucket of every
  direction \<open>v\<close> in \<open>{-1,0,1}^dim\<close> (third component \<open>-1\<close> in two dimensions) holds, in
  increasing order and once each, exactly the elements for which \<open>v\<close> is not the zero
  direction, every \<open>-1\<close> component of \<open>v\<close> has its \<open>neg\<close> flag and every \<open>+1\<close> component
  its \<open>pos\<close> flag; the buckets beyond the \<open>3^dim\<close> direction ids stay empty.
\<close>

theorem ComputeOvlpElems_buckets:
  assumes "sdim dm = 2 \<or> sdim dm = 3" "l < nrsubdomains dm" "myid dm = subdomain_rank dm l"
    and "ijk = GetSubdomainijk l (nxyz dm)" "mesh = subdomain_mesh dm l"
    and "nlayers = 2 * OvlpNlayers dm" "h = MeshSize dm"
    and "i \<in> {- 1, 0, 1}" "j \<in> {- 1, 0, 1}" "if sdim dm = 2 then k = - 1 else k \<in> {- 1, 0, 1}"
  shows "(\<forall>iel d. (d::nat) < sdim dm \<longrightarrow>
            (fst (overlap_flags dm ijk mesh iel) d \<longleftrightarrow>
               0 < ijk ! d \<and> elem_center mesh iel d < pmin mesh d + h * real nlayers) \<and>
            (snd (overlap_flags dm ijk mesh iel) d \<longleftrightarrow>
               int (ijk ! d) < int (nxyz dm ! d) - 1 \<and>
               elem_center mesh iel d > pmax mesh d - h * real nlayers)) \<and>
         ComputeOvlpElems dm l (nat (GetDirectionId [i, j, k])) =
           filter (\<lambda>iel. direction_compatible (sdim dm) [i, j, k]
                     (fst (overlap_flags dm ijk mesh iel)) (snd (overlap_flags dm ijk mesh iel)))
             [0..<mesh_NE mesh] \<and>
         (\<forall>d::nat. 3 ^ sdim dm \<le> d \<longrightarrow> ComputeOvlpElems dm l d = [])"
proof (intro conjI allI impI)
  fix iel and d :: nat assume "d < sdim dm"
  then show "fst (overlap_flags dm ijk mesh iel) d \<longleftrightarrow>
               0 < ijk ! d \<and> elem_center mesh iel d < pmin mesh d + h * real nlayers"
    and "snd (overlap_flags dm ijk mesh iel) d \<longleftrightarrow>
               int (ijk ! d) < int (nxyz dm ! d) - 1 \<and>
               elem_center mesh iel d > pmax mesh d - h * real nlayers"
    by (simp_all add: overlap_flags_eq assms(6,7))
next
  show "ComputeOvlpElems dm l (nat (GetDirectionId [i, j, k])) =
           filter (\<lambda>iel. direction_compatible (sdim dm) [i, j, k]
                     (fst (overlap_flags dm ijk mesh iel)) (snd (overlap_flags dm ijk mesh iel)))
             [0..<mesh_NE mesh]"
    unfolding ComputeOvlpElems_def assms(4,5)
  proof (rule fold_steps_hit [where prj = "\<lambda>OE. OE l" and k = l])
    show "l \<in> set [0..<nrsubdomains dm]" using assms(2) by simp
  next
    fix s
    show "ComputeOvlpElems_subdomain dm l s l (nat (GetDirectionId [i, j, k])) =
          filter (\<lambda>iel. direction_compatible (sdim dm) [i, j, k]
             (fst (overlap_flags dm (GetSubdomainijk l (nxyz dm)) (subdomain_mesh dm l) iel))
             (snd (overlap_flags dm (GetSubdomainijk l (nxyz dm)) (subdomain_mesh dm l) iel)))
           [0..<mesh_NE (subdomain_mesh dm l)]"
      by (rule ComputeOvlpElems_subdomain_bucket [OF assms(1,3,8-10)])
  next
    fix l' s
    assume "l' \<in> set [0..<nrsubdomains dm]" "l' \<noteq> l"
    then show "ComputeOvlpElems_subdomain dm l' s l (nat (GetDirectionId [i, j, k])) =
               s l (nat (GetDirectionId [i, j, k]))"
      by (simp add: ComputeOvlpElems_subdomain_other)
  qed
next
  fix d :: nat assume d: "3 ^ sdim dm \<le> d"
  show "ComputeOvlpElems dm l d = []"
    unfolding ComputeOvlpElems_def
  proof (rule fold_steps_hit [where prj = "\<lambda>OE. OE l" and k = l])
    show "l \<in> set [0..<nrsubdomains dm]" using assms(2) by simp
  next
    fix s
    show "ComputeOvlpElems_subdomain dm l s l d = []"
      by (rule ComputeOvlpElems_subdomain_outside [OF assms(1,3) d])
  next
    fix l' s
    assume "l' \<in> set [0..<nrsubdomains dm]" "l' \<noteq> l"
    then show "ComputeOvlpElems_subdomain dm l' s l d = s l d"
      by (simp add: ComputeOvlpElems_subdomain_other)
  qed
qed

theorem ComputeOvlpElems_buckets_witness:
  "ComputeOvlpElems
     \<lparr>sdim = 2, nxyz = [2, 1, 1], nrsubdomains = 2, myid = 0, subdomain_rank = \<lambda>_. 0,
      OvlpNlayers = 1, MeshSize = 1,
      subdomain_mesh = \<lambda>_. \<lparr>mesh_NE = 2,
         elem_center = \<lambda>iel d. if iel = 0 \<and> d = 0 then 1 / 2 else if d = 0 then 7 / 2 else 1 / 2,
         pmin = \<lambda>_. 0, pmax = \<lambda>d. if d = 0 then 4 else 1\<rparr>\<rparr>
     0 (nat (GetDirectionId [1, 0, - 1])) = [1]"
proof -
  let ?mesh = "\<lparr>mesh_NE = 2,
         elem_center = \<lambda>iel d. if iel = 0 \<and> d = 0 then 1 / 2 else if d = 0 then 7 / 2 else 1 / 2,
         pmin = \<lambda>_. 0, pmax = \<lambda>d. if d = (0::nat) then 4 else (1::real)\<rparr>"
  let ?dm = "\<lparr>sdim = 2, nxyz = [2, 1, 1], nrsubdomains = 2, myid = 0, subdomain_rank = \<lambda>_. 0,
      OvlpNlayers = 1, MeshSize = 1, subdomain_mesh = \<lambda>_. ?mesh\<rparr>"
  have ijk: "GetSubdomainijk 0 (nxyz ?dm) = [0, 0, 0]"
    by (simp add: GetSubdomainijk_def)
  note t = ComputeOvlpElems_buckets [where dm = ?dm and l = 0 and i = 1 and j = 0 and k = "- 1",
      OF _ _ _ refl refl refl refl]
  have "ComputeOvlpElems ?dm 0 (nat (GetDirectionId [1, 0, - 1])) =
        filter (\<lambda>iel. direction_compatible (sdim ?dm) [1, 0, - 1]
                  (fst (overlap_flags ?dm (GetSubdomainijk 0 (nxyz ?dm)) (subdomain_mesh ?dm 0) iel))
                  (snd (overlap_flags ?dm (GetSubdomainijk 0 (nxyz ?dm)) (subdomain_mesh ?dm 0) iel)))
          [0..<mesh_NE (subdomain_mesh ?dm 0)]"
    by (rule t [THEN conjunct2, THEN conjunct1]) simp_all
  also have "\<dots> = [1]"
  proof -
    have u: "[0..<2] = [0, Suc 0]" by (simp add: eval_nat_numeral)
    show ?thesis
      unfolding ijk
      by (simp add: overlap_flags_eq direction_compatible_def ball_lessThan_2 bex_lessThan_2 u)
  qed
  finally show ?thesis .
qed

section \<open>The neighbor exchange\<close>

subsection \<open>Storing a buffer in a vector\<close>

lemma SetSubVector_prefix_length:
  "length (fold (\<lambda>i v. v[dofs ! i := elemvect ! i]) [0..<k] v) = length v"
  by (induction k) simp_all

lemma SetSubVector_prefix_miss:
  assumes "\<forall>m<k. dofs ! m \<noteq> p"
  shows "fold (\<lambda>i v. v[dofs ! i := elemvect ! i]) [0..<k] v ! p = v ! p"
  using assms by (induction k) simp_all

lemma SetSubVector_prefix_hit:
  assumes "distinct dofs" "k \<le> length dofs" "m < k" "dofs ! m < length v"
  shows "fold (\<lambda>i v. v[dofs ! i := elemvect ! i]) [0..<k] v ! (dofs ! m) = elemvect ! m"
  using assms(2,3)
proof (induction k)
  case 0
  then show ?case by simp
next
  case (Suc k)
  show ?case
  proof (cases "m = k")
    case True
    then show ?thesis
      using assms(4) by (simp add: SetSubVector_prefix_length)
  next
    case False
    with Suc.prems have m: "m < k" "k < length dofs" by simp_all
    then have "dofs ! k \<noteq> dofs ! m"
      using assms(1) by (simp add: nth_eq_iff_index_eq)
    with Suc.IH m show ?thesis by simp
  qed
qed

lemma SetSubVector_holds_received:
  assumes "distinct tdofs" "\<forall>t\<in>set tdofs. t < n"
  shows "holds_received (SetSubVector (replicate n 0) tdofs buffer) n tdofs buffer"
  unfolding holds_received_def SetSubVector_def
proof (intro conjI ballI impI)
  show "length (fold (\<lambda>i v. v[tdofs ! i := buffer ! i]) [0..<length tdofs] (replicate n 0)) = n"
    by (simp add: SetSubVector_prefix_length)
next
  fix m assume "m \<in> {..<length tdofs}"
  then show "fold (\<lambda>i v. v[tdofs ! i := buffer ! i]) [0..<length tdofs] (replicate n 0) !
             (tdofs ! m) = buffer ! m"
    using assms by (intro SetSubVector_prefix_hit) simp_all
next
  fix p assume p: "p \<in> {..<n}" "p \<notin> set tdofs"
  then have "\<forall>m<length tdofs. tdofs ! m \<noteq> p" by auto
  then show "fold (\<lambda>i v. v[tdofs ! i := buffer ! i]) [0..<length tdofs] (replicate n 0) ! p = 0"
    using p(1) by (simp add: SetSubVector_prefix_miss)
qed

subsection \<open>The pairs that pass the head of the loops\<close>

lemma neighbor_subdomain_Some_iff:
  "neighbor_subdomain dm i0 d = Some i1 \<longleftrightarrow>
     \<not> zero_direction dm d \<and> inside_grid dm (destination dm i0 d) \<and>
     i1 = GetSubdomainId (nxyz dm) (map nat (destination dm i0 d))"
  by (auto simp: neighbor_subdomain_def zero_direction_def inside_grid_def destination_def
      Let_def ball_lessThan_3)

lemma exchange_slots_iff:
  "(i0, d, i1) \<in> set (exchange_slots dm SubdomainIds) \<longleftrightarrow>
     i0 \<in> set SubdomainIds \<and> d < 3 ^ sdim dm \<and> neighbor_subdomain dm i0 d = Some i1"
  by (auto simp: exchange_slots_def set_map_filter_iff)

lemma slot_loops:
  "fold (\<lambda>is. fold (\<lambda>d s. case neighbor_subdomain dm (SubdomainIds ! is) d of
                           None \<Rightarrow> s | Some i1 \<Rightarrow> G (SubdomainIds ! is, d, i1) s)
                 [0..<3 ^ sdim dm])
     [0..<length SubdomainIds] s =
   fold G (exchange_slots dm SubdomainIds) s"
proof -
  have inner: "fold (\<lambda>d s. case neighbor_subdomain dm i0 d of
                           None \<Rightarrow> s | Some i1 \<Rightarrow> G (i0, d, i1) s) ds =
        fold G (List.map_filter
                  (\<lambda>d. map_option (\<lambda>i1. (i0, d, i1)) (neighbor_subdomain dm i0 d)) ds)" for i0 ds
  proof
    fix s
    have "(case neighbor_subdomain dm i0 d of None \<Rightarrow> s | Some i1 \<Rightarrow> G (i0, d, i1) s) =
          (case map_option (\<lambda>i1. (i0, d, i1)) (neighbor_subdomain dm i0 d) of
             None \<Rightarrow> s | Some y \<Rightarrow> G y s)" for d s
      by (simp split: option.split)
    then show "fold (\<lambda>d s. case neighbor_subdomain dm i0 d of
                           None \<Rightarrow> s | Some i1 \<Rightarrow> G (i0, d, i1) s) ds s =
        fold G (List.map_filter
                  (\<lambda>d. map_option (\<lambda>i1. (i0, d, i1)) (neighbor_subdomain dm i0 d)) ds) s"
      by (simp only: fold_option_skip)
  qed
  have "fold (\<lambda>is. fold (\<lambda>d s. case neighbor_subdomain dm (SubdomainIds ! is) d of
                           None \<Rightarrow> s | Some i1 \<Rightarrow> G (SubdomainIds ! is, d, i1) s)
                 [0..<3 ^ sdim dm])
     [0..<length SubdomainIds] s =
     fold (\<lambda>i0. fold (\<lambda>d s. case neighbor_subdomain dm i0 d of
                           None \<Rightarrow> s | Some i1 \<Rightarrow> G (i0, d, i1) s)
                 [0..<3 ^ sdim dm]) SubdomainIds s"
    by (simp only: fold_nth [where F = "\<lambda>i0. fold (\<lambda>d s. case neighbor_subdomain dm i0 d of
                           None \<Rightarrow> s | Some i1 \<Rightarrow> G (i0, d, i1) s) [0..<3 ^ sdim dm]"])
  also have "\<dots> = fold G (exchange_slots dm SubdomainIds) s"
    unfolding inner exchange_slots_def by (rule fold_fold_concat)
  finally show ?thesis .
qed

lemma foldM_option_skip:
  "foldM (\<lambda>d s. case h d of None \<Rightarrow> Inr s | Some y \<Rightarrow> G y s) ds s =
     foldM G (List.map_filter h ds) s"
proof (induction ds arbitrary: s)
  case Nil
  show ?case by (simp add: List.map_filter_simps)
next
  case (Cons d ds)
  show ?case
  proof (cases "h d")
    case None
    then show ?thesis by (simp add: List.map_filter_simps Cons)
  next
    case (Some y)
    then show ?thesis by (cases "G y s") (simp_all add: List.map_filter_simps Cons)
  qed
qed

lemma foldM_slot_loops:
  "foldM (\<lambda>is. foldM (\<lambda>d s. case neighbor_subdomain dm (SubdomainIds ! is) d of
                           None \<Rightarrow> Inr s | Some i1 \<Rightarrow> G (SubdomainIds ! is, d, i1) s)
                 [0..<3 ^ sdim dm])
     [0..<length SubdomainIds] s =
   foldM G (exchange_slots dm SubdomainIds) s"
proof -
  have inner: "foldM (\<lambda>d s. case neighbor_subdomain dm i0 d of
                           None \<Rightarrow> Inr s | Some i1 \<Rightarrow> G (i0, d, i1) s) ds =
        foldM G (List.map_filter
                  (\<lambda>d. map_option (\<lambda>i1. (i0, d, i1)) (neighbor_subdomain dm i0 d)) ds)" for i0 ds
  proof
    fix s
    have "(\<lambda>d s. case neighbor_subdomain dm i0 d of None \<Rightarrow> Inr s | Some i1 \<Rightarrow> G (i0, d, i1) s) =
          (\<lambda>d s. case map_option (\<lambda>i1. (i0, d, i1)) (neighbor_subdomain dm i0 d) of
             None \<Rightarrow> Inr s | Some y \<Rightarrow> G y s)"
      by (intro ext) (simp split: option.split)
    then show "foldM (\<lambda>d s. case neighbor_subdomain dm i0 d of
                           None \<Rightarrow> Inr s | Some i1 \<Rightarrow> G (i0, d, i1) s) ds s =
        foldM G (List.map_filter
                  (\<lambda>d. map_option (\<lambda>i1. (i0, d, i1)) (neighbor_subdomain dm i0 d)) ds) s"
      by (simp only: foldM_option_skip)
  qed
  have "foldM (\<lambda>is. foldM (\<lambda>d s. case neighbor_subdomain dm (SubdomainIds ! is) d of
                           None \<Rightarrow> Inr s | Some i1 \<Rightarrow> G (SubdomainIds ! is, d, i1) s)
                 [0..<3 ^ sdim dm])
     [0..<length SubdomainIds] s =
     foldM (\<lambda>i0. foldM (\<lambda>d s. case neighbor_subdomain dm i0 d of
                           None \<Rightarrow> Inr s | Some i1 \<Rightarrow> G (i0, d, i1) s)
                 [0..<3 ^ sdim dm]) SubdomainIds s"
    by (rule foldM_nth [where f = "\<lambda>i0. foldM (\<lambda>d s. case neighbor_subdomain dm i0 d of
                           None \<Rightarrow> Inr s | Some i1 \<Rightarrow> G (i0, d, i1) s) [0..<3 ^ sdim dm]"])
  also have "\<dots> = foldM G (exchange_slots dm SubdomainIds) s"
    unfolding inner exchange_slots_def by (rule foldM_concat)
  finally show ?thesis .
qed

subsection \<open>The requests posted\<close>

lemma post_at_foldM:
  assumes "\<forall>s\<in>set slots. fst s < length x"
  shows "foldM (post_at dm OvlpTDofs x) slots (sends, recvs) =
     Inr (sends @ map (\<lambda>(i0, d, i1). (subdomain_rank dm i1, i0 * 3 ^ sdim dm + d,
                                   GetSubVector (x ! i0) (OvlpTDofs i0 d)))
                (filter (\<lambda>(i0, d, i1). myid dm = subdomain_rank dm i0) slots),
          recvs @ map (\<lambda>(i0, d, i1). (subdomain_rank dm i0, i0 * 3 ^ sdim dm + d,
                                   length (OvlpTDofs i1 (opposite_direction_id dm d))))
                (filter (\<lambda>(i0, d, i1). myid dm = subdomain_rank dm i1) slots))"
  using assms
proof (induction slots arbitrary: sends recvs)
  case Nil
  show ?case by simp
next
  case (Cons s slots)
  obtain i0 d i1 where s: "s = (i0, d, i1)" by (cases s)
  from Cons.prems have i0: "i0 < length x" by (simp add: s)
  from Cons.prems have rest: "\<forall>s\<in>set slots. fst s < length x" by simp
  have step: "post_at dm OvlpTDofs x (i0, d, i1) (sends, recvs) =
     Inr (if myid dm = subdomain_rank dm i0
          then sends @ [(subdomain_rank dm i1, i0 * 3 ^ sdim dm + d,
                         GetSubVector (x ! i0) (OvlpTDofs i0 d))]
          else sends,
          if myid dm = subdomain_rank dm i1
          then recvs @ [(subdomain_rank dm i0, i0 * 3 ^ sdim dm + d,
                         length (OvlpTDofs i1 (opposite_direction_id dm d)))]
          else recvs)"
    using i0 by (simp add: post_at_def Let_def)
  show ?case
    unfolding s by (simp add: step Cons.IH [OF rest])
qed

lemma post_at_abort:
  assumes "myid dm = subdomain_rank dm i0" "length x \<le> i0"
  shows "post_at dm OvlpTDofs x (i0, d, i1) requests = Inl x_index_out_of_bounds"
  using assms by (cases requests) (simp add: post_at_def)

subsection \<open>The vectors extracted\<close>

lemma extract_at_counter:
  "snd (fold (extract_at dm OvlpTDofs n recv_buffer) R (S, rc)) =
   rc + length (filter (\<lambda>(i0, d, i1). myid dm = subdomain_rank dm i1) R)"
proof (induction R arbitrary: S rc)
  case Nil
  show ?case by simp
next
  case (Cons s R)
  obtain i0 d i1 where s: "s = (i0, d, i1)" by (cases s)
  have "\<exists>S'. extract_at dm OvlpTDofs n recv_buffer (i0, d, i1) (S, rc) =
          (S', if myid dm = subdomain_rank dm i1 then rc + 1 else rc)"
    by (simp add: extract_at_def Let_def)
  then obtain S' where step: "extract_at dm OvlpTDofs n recv_buffer (i0, d, i1) (S, rc) =
          (S', if myid dm = subdomain_rank dm i1 then rc + 1 else rc)" ..
  show ?case
    unfolding s by (simp add: step Cons)
qed

lemma extract_at_untouched:
  assumes "\<forall>(i0, d, i1) \<in> set R. (i1, opposite_direction_id dm d) \<noteq> (l, e)"
  shows "fst (fold (extract_at dm OvlpTDofs n recv_buffer) R (S, rc)) l e = S l e"
  using assms
proof (induction R arbitrary: S rc)
  case Nil
  show ?case by simp
next
  case (Cons s R)
  obtain i0 d i1 where s: "s = (i0, d, i1)" by (cases s)
  from Cons.prems have ne: "(i1, opposite_direction_id dm d) \<noteq> (l, e)"
    and rest: "\<forall>(i0, d, i1) \<in> set R. (i1, opposite_direction_id dm d) \<noteq> (l, e)"
    by (auto simp: s)
  have "\<exists>S' rc'. extract_at dm OvlpTDofs n recv_buffer (i0, d, i1) (S, rc) = (S', rc') \<and>
          S' l e = S l e"
    using ne by (auto simp: extract_at_def Let_def)
  then obtain S' rc' where step: "extract_at dm OvlpTDofs n recv_buffer (i0, d, i1) (S, rc) = (S', rc')"
    and keep: "S' l e = S l e" by blast
  show ?case
    unfolding s by (simp add: step Cons.IH [OF rest] keep)
qed

text \<open>
  Among the receiving pairs, the \<open>r\<close>-th one leaves at its target the vector made from the
  \<open>r\<close>-th buffer, unless a later pair has the same target.
\<close>

lemma extract_at_target:
  assumes "\<forall>(i0, d, i1) \<in> set R. myid dm = subdomain_rank dm i1"
    and "r < length R" "R ! r = (i0, d, i1)"
    and "\<forall>r'. r < r' \<and> r' < length R \<longrightarrow>
           (case R ! r' of (i0', d', i1') \<Rightarrow> (i1', opposite_direction_id dm d')) \<noteq>
           (i1, opposite_direction_id dm d)"
  shows "fst (fold (extract_at dm OvlpTDofs n recv_buffer) R (S, rc)) i1 (opposite_direction_id dm d)
         = Some (SetSubVector (replicate (n i1) 0) (OvlpTDofs i1 (opposite_direction_id dm d))
                   (recv_buffer (rc + r)))"
  using assms
proof (induction R arbitrary: S rc r)
  case Nil
  then show ?case by simp
next
  case (Cons s R)
  obtain j0 e j1 where s: "s = (j0, e, j1)" by (cases s)
  from Cons.prems(1) have own: "myid dm = subdomain_rank dm j1"
    and rest: "\<forall>(i0, d, i1) \<in> set R. myid dm = subdomain_rank dm i1"
    by (auto simp: s)
  let ?S = "S(j1 := (S j1)(opposite_direction_id dm e :=
              Some (SetSubVector (replicate (n j1) 0) (OvlpTDofs j1 (opposite_direction_id dm e))
                      (recv_buffer rc))))"
  have step: "fold (extract_at dm OvlpTDofs n recv_buffer) (s # R) (S, rc) =
              fold (extract_at dm OvlpTDofs n recv_buffer) R (?S, rc + 1)"
    unfolding s using own by (simp add: extract_at_def Let_def)
  show ?case
  proof (cases r)
    case 0
    with Cons.prems(3) have eq: "j0 = i0" "e = d" "j1 = i1" by (simp_all add: s)
    have "\<forall>(i0', d', i1') \<in> set R. (i1', opposite_direction_id dm d') \<noteq>
            (i1, opposite_direction_id dm d)"
    proof
      fix t assume "t \<in> set R"
      then obtain q where q: "q < length R" "R ! q = t"
        by (auto simp: in_set_conv_nth)
      from Cons.prems(4) [rule_format, of "Suc q"] q 0
      show "case t of (i0', d', i1') \<Rightarrow> (i1', opposite_direction_id dm d') \<noteq>
            (i1, opposite_direction_id dm d)"
        by (auto split: prod.splits)
    qed
    from extract_at_untouched [OF this, of OvlpTDofs n recv_buffer ?S "rc + 1"]
    have "fst (fold (extract_at dm OvlpTDofs n recv_buffer) R (?S, rc + 1)) i1
            (opposite_direction_id dm d) = ?S i1 (opposite_direction_id dm d)" .
    also have "\<dots> = Some (SetSubVector (replicate (n i1) 0)
                   (OvlpTDofs i1 (opposite_direction_id dm d)) (recv_buffer (rc + r)))"
      using 0 eq by simp
    finally show ?thesis unfolding step .
  next
    case (Suc r')
    with Cons.prems have r': "r' < length R" "R ! r' = (i0, d, i1)" by simp_all
    have later: "\<forall>q. r' < q \<and> q < length R \<longrightarrow>
           (case R ! q of (i0', d', i1') \<Rightarrow> (i1', opposite_direction_id dm d')) \<noteq>
           (i1, opposite_direction_id dm d)"
    proof (intro allI impI)
      fix q assume "r' < q \<and> q < length R"
      with Cons.prems(4) [rule_format, of "Suc q"] Suc
      show "(case R ! q of (i0', d', i1') \<Rightarrow> (i1', opposite_direction_id dm d')) \<noteq>
           (i1, opposite_direction_id dm d)" by simp
    qed
    have e: "rc + 1 + r' = rc + r" using Suc by simp
    from Cons.IH [OF rest r' later, of ?S "rc + 1"]
    show ?thesis unfolding step e .
  qed
qed

subsection \<open>The opposite direction\<close>

lemma opposite_direction_id_3D:
  assumes "sdim dm = 3" "d < 27"
  shows "opposite_direction_id dm d = 26 - d"
    and "GetDirectionijk (opposite_direction_id dm d) = map uminus (GetDirectionijk d)"
proof -
  have u: "[0..<3] = [0, Suc 0, Suc (Suc 0)]" by (simp add: eval_nat_numeral)
  have cases: "d = 0 \<or> d = 1 \<or> d = 2 \<or> d = 3 \<or> d = 4 \<or> d = 5 \<or> d = 6 \<or> d = 7 \<or> d = 8 \<or> d = 9 \<or> d = 10 \<or> d = 11 \<or> d = 12 \<or> d = 13 \<or> d = 14 \<or> d = 15 \<or> d = 16 \<or> d = 17 \<or> d = 18 \<or> d = 19 \<or> d = 20 \<or> d = 21 \<or> d = 22 \<or> d = 23 \<or> d = 24 \<or> d = 25 \<or> d = 26"
    using assms(2) by arith
  then show o: "opposite_direction_id dm d = 26 - d"
    by (elim disjE)
      (simp_all add: opposite_direction_id_def assms(1) u GetDirectionijk_def
        GetDirectionId_def Let_def)
  from cases show "GetDirectionijk (opposite_direction_id dm d) = map uminus (GetDirectionijk d)"
    unfolding o by (elim disjE) (simp_all add: GetDirectionijk_def Let_def)
qed

lemma opposite_direction_id_2D:
  assumes "sdim dm = 2" "d < 9"
  shows "opposite_direction_id dm d = 8 - d"
    and "GetDirectionijk (opposite_direction_id dm d) =
         [- (GetDirectionijk d ! 0), - (GetDirectionijk d ! 1), - 1]"
proof -
  have u: "[0..<2] = [0, Suc 0]" by (simp add: eval_nat_numeral)
  have cases: "d = 0 \<or> d = 1 \<or> d = 2 \<or> d = 3 \<or> d = 4 \<or> d = 5 \<or> d = 6 \<or> d = 7 \<or> d = 8"
    using assms(2) by arith
  then show o: "opposite_direction_id dm d = 8 - d"
    by (elim disjE)
      (simp_all add: opposite_direction_id_def assms(1) u GetDirectionijk_def
        GetDirectionId_def Let_def)
  from cases show "GetDirectionijk (opposite_direction_id dm d) =
         [- (GetDirectionijk d ! 0), - (GetDirectionijk d ! 1), - 1]"
    unfolding o by (elim disjE) (simp_all add: GetDirectionijk_def Let_def)
qed

subsection \<open>Distinct subdomain ids have distinct targets\<close>

lemma GetSubdomainijk_inverse:
  "ip = GetSubdomainijk ip ns ! 2 * (ns ! 0 * ns ! 1) +
        GetSubdomainijk ip ns ! 1 * ns ! 0 + GetSubdomainijk ip ns ! 0"
proof -
  have r: "ip - ip div (a * b) * a * b = ip mod (a * b)" for a b :: nat
    by (simp add: minus_div_mult_eq_mod mult.assoc)
  have "GetSubdomainijk ip ns =
        [ip mod (ns ! 0 * ns ! 1) mod ns ! 0, ip mod (ns ! 0 * ns ! 1) div ns ! 0,
         ip div (ns ! 0 * ns ! 1)]"
    by (simp add: GetSubdomainijk_def Let_def r)
  then show ?thesis by (simp add: add.assoc div_mult_mod_eq)
qed

lemma GetSubdomainijk_inj:
  assumes "GetSubdomainijk a ns ! 0 = GetSubdomainijk b ns ! 0"
    and "GetSubdomainijk a ns ! 1 = GetSubdomainijk b ns ! 1"
    and "GetSubdomainijk a ns ! 2 = GetSubdomainijk b ns ! 2"
  shows "a = b"
  using GetSubdomainijk_inverse [of a ns] GetSubdomainijk_inverse [of b ns]
  unfolding assms by simp

lemma GetSubdomainijk_plane:
  assumes "ip < ns ! 0 * ns ! 1"
  shows "GetSubdomainijk ip ns ! 2 = 0"
  using assms by (simp add: GetSubdomainijk_def Let_def)

lemma GetSubdomainId_inj:
  assumes "i < ns ! 0" "j < ns ! 1" "i' < ns ! 0" "j' < ns ! 1"
    and "GetSubdomainId ns [i, j, k] = GetSubdomainId ns [i', j', k']"
  shows "i = i' \<and> j = j' \<and> k = k'"
proof -
  from assms(5) have "(k * ns ! 1 + j) * ns ! 0 + i = (k' * ns ! 1 + j') * ns ! 0 + i'"
    by (simp add: GetSubdomainId_def algebra_simps)
  with assms(1,3) have "k * ns ! 1 + j = k' * ns ! 1 + j'" and i: "i = i'"
    by (simp_all add: block_index_eq_iff)
  with assms(2,4) show ?thesis by (simp add: block_index_eq_iff)
qed

lemma GetSubdomainId_GetSubdomainijk: "GetSubdomainId ns (GetSubdomainijk ip ns) = ip"
proof -
  have l: "GetSubdomainijk ip ns =
           [GetSubdomainijk ip ns ! 0, GetSubdomainijk ip ns ! 1, GetSubdomainijk ip ns ! 2]"
    by (simp add: GetSubdomainijk_def Let_def)
  have "GetSubdomainId ns [GetSubdomainijk ip ns ! 0, GetSubdomainijk ip ns ! 1,
                           GetSubdomainijk ip ns ! 2] =
        GetSubdomainijk ip ns ! 2 * (ns ! 0 * ns ! 1) +
        GetSubdomainijk ip ns ! 1 * ns ! 0 + GetSubdomainijk ip ns ! 0"
    by (simp add: GetSubdomainId_def algebra_simps)
  also have "\<dots> = ip" by (rule GetSubdomainijk_inverse [symmetric])
  finally show ?thesis using l by simp
qed

lemma exchange_target_inj:
  assumes s: "(i0, d, i1) \<in> set (exchange_slots dm ids)"
    and s': "(i0', d', i1') \<in> set (exchange_slots dm ids)"
    and dm: "sdim dm = 3 \<or> sdim dm = 2 \<and> (\<forall>i\<in>set ids. i < nxyz dm ! 0 * nxyz dm ! 1)"
    and eq: "i1 = i1'" "opposite_direction_id dm d = opposite_direction_id dm d'"
  shows "i0 = i0' \<and> d = d'"
proof -
  from s have i0: "i0 \<in> set ids" and d: "d < 3 ^ sdim dm"
    and g: "inside_grid dm (destination dm i0 d)"
    and i1: "i1 = GetSubdomainId (nxyz dm) (map nat (destination dm i0 d))"
    by (simp_all add: exchange_slots_iff neighbor_subdomain_Some_iff)
  from s' have i0': "i0' \<in> set ids" and d': "d' < 3 ^ sdim dm"
    and g': "inside_grid dm (destination dm i0' d')"
    and i1': "i1' = GetSubdomainId (nxyz dm) (map nat (destination dm i0' d'))"
    by (simp_all add: exchange_slots_iff neighbor_subdomain_Some_iff)
  have dd: "d = d'"
  proof (cases "sdim dm = 3")
    case True
    with d d' have "d < 27" "d' < 27" by simp_all
    with eq(2) show ?thesis by (simp add: opposite_direction_id_3D(1) [OF True])
  next
    case False
    with dm have two: "sdim dm = 2" by simp
    with d d' have "d < 9" "d' < 9" by simp_all
    with eq(2) show ?thesis by (simp add: opposite_direction_id_2D(1) [OF two])
  qed
  let ?c = "GetSubdomainijk i0 (nxyz dm)" and ?c' = "GetSubdomainijk i0' (nxyz dm)"
  let ?v = "GetDirectionijk d"
  define a b c where "a = int (?c ! 0) + ?v ! 0" and "b = int (?c ! 1) + ?v ! 1"
    and "c = (if sdim dm = 3 then int (?c ! 2) + ?v ! 2 else 0)"
  define a' b' c' where "a' = int (?c' ! 0) + ?v ! 0" and "b' = int (?c' ! 1) + ?v ! 1"
    and "c' = (if sdim dm = 3 then int (?c' ! 2) + ?v ! 2 else 0)"
  have dest: "destination dm i0 d = [a, b, c]" "destination dm i0' d = [a', b', c']"
    by (simp_all add: destination_def Let_def a_def b_def c_def a'_def b'_def c'_def)
  from g g' have bounds: "0 \<le> a" "a < int (nxyz dm ! 0)" "0 \<le> b" "b < int (nxyz dm ! 1)" "0 \<le> c"
    "0 \<le> a'" "a' < int (nxyz dm ! 0)" "0 \<le> b'" "b' < int (nxyz dm ! 1)" "0 \<le> c'"
    unfolding dd [symmetric] dest by (simp_all add: inside_grid_def ball_lessThan_3)
  from eq(1) i1 i1' have e: "GetSubdomainId (nxyz dm) [nat a, nat b, nat c] =
                          GetSubdomainId (nxyz dm) [nat a', nat b', nat c']"
    unfolding dd [symmetric] dest by simp
  from bounds have n: "nat a < nxyz dm ! 0" "nat b < nxyz dm ! 1"
    "nat a' < nxyz dm ! 0" "nat b' < nxyz dm ! 1"
    by (simp_all add: nat_less_iff)
  from GetSubdomainId_inj [OF n e]
  have nn: "nat a = nat a'" "nat b = nat b'" "nat c = nat c'" by simp_all
  have abc: "a = a'" "b = b'" "c = c'"
    using nn(1) bounds(1,6) apply arith
    using nn(2) bounds(3,8) apply arith
    using nn(3) bounds(5,10) apply arith
    done
  have c0: "?c ! 0 = ?c' ! 0" using abc(1) by (simp add: a_def a'_def)
  have c1: "?c ! 1 = ?c' ! 1" using abc(2) by (simp add: b_def b'_def)
  have c2: "?c ! 2 = ?c' ! 2"
  proof (cases "sdim dm = 3")
    case True
    with abc(3) show ?thesis by (simp add: c_def c'_def)
  next
    case False
    with dm i0 i0' have "i0 < nxyz dm ! 0 * nxyz dm ! 1" "i0' < nxyz dm ! 0 * nxyz dm ! 1"
      by simp_all
    then show ?thesis by (simp add: GetSubdomainijk_plane)
  qed
  from GetSubdomainijk_inj [OF c0 c1 c2] dd show ?thesis by simp
qed

lemma distinct_map_filter_option:
  assumes "distinct xs" "\<And>x y. x \<in> set xs \<Longrightarrow> h x = Some y \<Longrightarrow> g y = x"
  shows "distinct (List.map_filter h xs)"
  using assms
proof (induction xs)
  case Nil
  show ?case by (simp add: List.map_filter_simps)
next
  case (Cons x xs)
  from Cons.prems have IH: "distinct (List.map_filter h xs)"
    by (intro Cons.IH) auto
  show ?case
  proof (cases "h x")
    case None
    with IH show ?thesis by (simp add: List.map_filter_simps)
  next
    case (Some y)
    have "y \<notin> set (List.map_filter h xs)"
    proof
      assume "y \<in> set (List.map_filter h xs)"
      then obtain x' where x': "x' \<in> set xs" "h x' = Some y" by (auto simp: set_map_filter_iff)
      with Cons.prems(2) [of x' y] have "g y = x'" by simp
      moreover from Cons.prems(2) [of x y] Some have "g y = x" by simp
      ultimately show False using x'(1) Cons.prems(1) by simp
    qed
    with IH Some show ?thesis by (simp add: List.map_filter_simps)
  qed
qed

lemma exchange_slots_distinct:
  assumes "distinct ids"
  shows "distinct (exchange_slots dm ids)"
  using assms
proof (induction ids)
  case Nil
  show ?case by (simp add: exchange_slots_def)
next
  case (Cons i0 ids)
  let ?row = "List.map_filter (\<lambda>d. map_option (\<lambda>i1. (i0, d, i1)) (neighbor_subdomain dm i0 d))
                [0..<3 ^ sdim dm]"
  have split: "exchange_slots dm (i0 # ids) = ?row @ exchange_slots dm ids"
    by (simp add: exchange_slots_def)
  have row: "distinct ?row"
    by (rule distinct_map_filter_option [where g = "\<lambda>s. fst (snd s)"]) auto
  have "set ?row \<inter> set (exchange_slots dm ids) = {}"
  proof (rule ccontr)
    assume "set ?row \<inter> set (exchange_slots dm ids) \<noteq> {}"
    then obtain s where s: "s \<in> set ?row" "s \<in> set (exchange_slots dm ids)" by auto
    obtain j d i1 where t: "s = (j, d, i1)" by (cases s)
    from s(1) have "j = i0" unfolding t by (auto simp: set_map_filter_iff)
    moreover from s(2) have "j \<in> set ids" unfolding t by (simp add: exchange_slots_iff)
    ultimately show False using Cons.prems by simp
  qed
  with row Cons show ?case unfolding split by simp
qed

lemma receiving_targets_distinct:
  assumes "distinct ids"
    and "sdim dm = 3 \<or> sdim dm = 2 \<and> (\<forall>i\<in>set ids. i < nxyz dm ! 0 * nxyz dm ! 1)"
  shows "distinct (map (\<lambda>(i0, d, i1). (i1, opposite_direction_id dm d))
                     (receiving_slots dm ids))"
proof -
  have "inj_on (\<lambda>(i0, d, i1). (i1, opposite_direction_id dm d)) (set (exchange_slots dm ids))"
  proof (rule inj_onI)
    fix s s'
    assume m: "s \<in> set (exchange_slots dm ids)" "s' \<in> set (exchange_slots dm ids)"
      and e: "(case s of (i0, d, i1) \<Rightarrow> (i1, opposite_direction_id dm d)) =
              (case s' of (i0, d, i1) \<Rightarrow> (i1, opposite_direction_id dm d))"
    obtain i0 d i1 where s: "s = (i0, d, i1)" by (cases s)
    obtain i0' d' i1' where s': "s' = (i0', d', i1')" by (cases s')
    from e have "i1 = i1'" "opposite_direction_id dm d = opposite_direction_id dm d'"
      unfolding s s' by simp_all
    from exchange_target_inj [OF m [unfolded s s'] assms(2) this] this(1)
    show "s = s'" unfolding s s' by simp
  qed
  with exchange_slots_distinct [OF assms(1), of dm]
  have "distinct (map (\<lambda>(i0, d, i1). (i1, opposite_direction_id dm d)) (exchange_slots dm ids))"
    by (simp add: distinct_map)
  then show ?thesis
    unfolding receiving_slots_def by (rule distinct_map_filter)
qed

subsection \<open>The exchange\<close>

lemma TransferToNeighbors_eq:
  assumes "length SubdomainIds = length x" and "\<forall>i0\<in>set SubdomainIds. i0 < length x"
  shows "TransferToNeighbors dm OvlpTDofs n SubdomainIds x recv_buffer OvlpSol =
         Inr (map (\<lambda>(i0, d, i1). (subdomain_rank dm i1, i0 * 3 ^ sdim dm + d,
                                    GetSubVector (x ! i0) (OvlpTDofs i0 d)))
                (filter (\<lambda>(i0, d, i1). myid dm = subdomain_rank dm i0)
                   (exchange_slots dm SubdomainIds)),
              map (\<lambda>(i0, d, i1). (subdomain_rank dm i0, i0 * 3 ^ sdim dm + d,
                                    length (OvlpTDofs i1 (opposite_direction_id dm d))))
                (receiving_slots dm SubdomainIds),
              fst (fold (extract_at dm OvlpTDofs n recv_buffer)
                     (receiving_slots dm SubdomainIds) (OvlpSol, 0)))"
proof -
  have ids: "\<forall>s\<in>set (exchange_slots dm SubdomainIds). fst s < length x"
  proof
    fix s assume s: "s \<in> set (exchange_slots dm SubdomainIds)"
    obtain i0 d i1 where "s = (i0, d, i1)" by (cases s)
    with s assms(2) show "fst s < length x" by (simp add: exchange_slots_iff)
  qed
  have "foldM (\<lambda>is. foldM (post_requests dm OvlpTDofs x (SubdomainIds ! is)) [0..<3 ^ sdim dm])
              [0..<length SubdomainIds] ([], []) =
            foldM (post_at dm OvlpTDofs x) (exchange_slots dm SubdomainIds) ([], [])"
    unfolding post_requests_def [abs_def] by (rule foldM_slot_loops)
  then have p1: "foldM (\<lambda>is. foldM (post_requests dm OvlpTDofs x (SubdomainIds ! is))
                                 [0..<3 ^ sdim dm])
              [0..<length SubdomainIds] ([], []) =
            Inr (map (\<lambda>(i0, d, i1). (subdomain_rank dm i1, i0 * 3 ^ sdim dm + d,
                                    GetSubVector (x ! i0) (OvlpTDofs i0 d)))
                (filter (\<lambda>(i0, d, i1). myid dm = subdomain_rank dm i0)
                   (exchange_slots dm SubdomainIds)),
              map (\<lambda>(i0, d, i1). (subdomain_rank dm i0, i0 * 3 ^ sdim dm + d,
                                    length (OvlpTDofs i1 (opposite_direction_id dm d))))
                (receiving_slots dm SubdomainIds))"
    by (simp add: post_at_foldM [OF ids] receiving_slots_def)
  have p2: "fold (\<lambda>is. fold (extract_received dm OvlpTDofs n recv_buffer (SubdomainIds ! is))
                         [0..<3 ^ sdim dm])
              [0..<length SubdomainIds] (OvlpSol, 0) =
            fold (extract_at dm OvlpTDofs n recv_buffer) (exchange_slots dm SubdomainIds)
              (OvlpSol, 0)"
    unfolding extract_received_def [abs_def] by (rule slot_loops)
  have p3: "fold (extract_at dm OvlpTDofs n recv_buffer) (exchange_slots dm SubdomainIds)
              (OvlpSol, 0) =
            fold (extract_at dm OvlpTDofs n recv_buffer) (receiving_slots dm SubdomainIds)
              (OvlpSol, 0)"
    unfolding receiving_slots_def
    by (rule fold_filter_skip) (auto simp: extract_at_def)
  show ?thesis
    unfolding TransferToNeighbors_def Let_def p1 p2 p3
    using assms(1) by (simp add: case_prod_beta)
qed

text \<open>
  A call whose arrays have the same size may still read outside \<^verbatim>\<open>x\<close>: on the grid of two
  subdomains in a row, both owned by this process, the call with the single id 1 and a
  single vector reads \<^verbatim>\<open>x[1]\<close> and aborts.
\<close>

lemma TransferToNeighbors_id_outside_x:
  "(case TransferToNeighbors
       \<lparr>sdim = 2, nxyz = [2, 1, 1], nrsubdomains = 2, myid = 0, subdomain_rank = \<lambda>_. 0,
        OvlpNlayers = 1, MeshSize = 1,
        subdomain_mesh = \<lambda>_. \<lparr>mesh_NE = 0, elem_center = \<lambda>_ _. 0, pmin = \<lambda>_. 0, pmax = \<lambda>_. 0\<rparr>\<rparr>
       (\<lambda>l d. if l = 0 \<and> d = 5 then [1, 2] else if l = 1 \<and> d = 3 then [0, 1] else [])
       (\<lambda>_. 3) [1] [[1, 2, 3]] (\<lambda>_. [4, 5]) (\<lambda>_ _. None) of
      Inl e \<Rightarrow> e = x_index_out_of_bounds
    | Inr r \<Rightarrow> False)"
  by code_simp

text \<open>
  Claim C5. For a call whose two arrays have the same size and whose subdomain ids are
  subdomains and index \<^verbatim>\<open>x\<close>, \<open>TransferToNeighbors\<close> returns without error. A pair
  \<open>(i0, d)\<close> is exchanged exactly when \<open>i0\<close> is among the subdomain ids, \<open>d\<close>
  is one of the \<open>3^dim\<close> direction ids, \<open>d\<close> is not the zero direction and the destination
  coordinates lie inside the grid; the neighbor is then the subdomain at those
  coordinates. The sends posted are those of the exchanged pairs whose source this
  process owns, the receives those whose neighbor it owns, and nothing else is posted. For
  the \<open>r\<close>-th pair at which this process receives, with neighbor \<open>i1\<close> and opposite
  direction id \<open>d1\<close>, and unless a later pair has the same target, \<open>OvlpSol[i1][d1]\<close> at
  return is a vector of the size of the neighbor's space that holds the \<open>r\<close>-th received
  buffer at the positions \<open>OvlpTDofs[i1][d1]\<close> (a list without repetition, within the
  size) and zero elsewhere. When no subdomain id is given twice (and, in two dimensions,
  every id lies in the plane of \<open>nx * ny\<close> subdomains), no two pairs have the same target,
  and this holds for every pair at which the process receives. The opposite direction id
  is the id of the negated direction.
\<close>

theorem TransferToNeighbors_exchanges:
  assumes "length SubdomainIds = length x"
    and "\<forall>i0\<in>set SubdomainIds. i0 < length x \<and> i0 < nrsubdomains dm"
  shows "\<exists>sends recvs OvlpSol'.
     TransferToNeighbors dm OvlpTDofs n SubdomainIds x recv_buffer OvlpSol =
       Inr (sends, recvs, OvlpSol') \<and>
     sends = map (\<lambda>(i0, d, i1). (subdomain_rank dm i1, i0 * 3 ^ sdim dm + d,
                                  GetSubVector (x ! i0) (OvlpTDofs i0 d)))
               (filter (\<lambda>(i0, d, i1). myid dm = subdomain_rank dm i0)
                  (exchange_slots dm SubdomainIds)) \<and>
     recvs = map (\<lambda>(i0, d, i1). (subdomain_rank dm i0, i0 * 3 ^ sdim dm + d,
                                  length (OvlpTDofs i1 (opposite_direction_id dm d))))
               (receiving_slots dm SubdomainIds) \<and>
     (\<forall>i0 d i1. (i0, d, i1) \<in> set (exchange_slots dm SubdomainIds) \<longleftrightarrow>
        i0 \<in> set SubdomainIds \<and> d < 3 ^ sdim dm \<and> \<not> zero_direction dm d \<and>
        inside_grid dm (destination dm i0 d) \<and>
        i1 = GetSubdomainId (nxyz dm) (map nat (destination dm i0 d))) \<and>
     (\<forall>r i0 d i1.
        r < length (receiving_slots dm SubdomainIds) \<and>
        receiving_slots dm SubdomainIds ! r = (i0, d, i1) \<and>
        (\<forall>r'. r < r' \<and> r' < length (receiving_slots dm SubdomainIds) \<longrightarrow>
           (case receiving_slots dm SubdomainIds ! r' of
              (i0', d', i1') \<Rightarrow> (i1', opposite_direction_id dm d')) \<noteq>
           (i1, opposite_direction_id dm d)) \<and>
        distinct (OvlpTDofs i1 (opposite_direction_id dm d)) \<and>
        (\<forall>t \<in> set (OvlpTDofs i1 (opposite_direction_id dm d)). t < n i1) \<longrightarrow>
        (\<exists>v. OvlpSol' i1 (opposite_direction_id dm d) = Some v \<and>
             holds_received v (n i1) (OvlpTDofs i1 (opposite_direction_id dm d))
               (recv_buffer r))) \<and>
     (distinct SubdomainIds \<and>
      (sdim dm = 3 \<or>
       sdim dm = 2 \<and> (\<forall>i0\<in>set SubdomainIds. i0 < nxyz dm ! 0 * nxyz dm ! 1)) \<longrightarrow>
      (\<forall>r i0 d i1.
         r < length (receiving_slots dm SubdomainIds) \<and>
         receiving_slots dm SubdomainIds ! r = (i0, d, i1) \<and>
         distinct (OvlpTDofs i1 (opposite_direction_id dm d)) \<and>
         (\<forall>t \<in> set (OvlpTDofs i1 (opposite_direction_id dm d)). t < n i1) \<longrightarrow>
         (\<exists>v. OvlpSol' i1 (opposite_direction_id dm d) = Some v \<and>
              holds_received v (n i1) (OvlpTDofs i1 (opposite_direction_id dm d))
                (recv_buffer r)))) \<and>
     (\<forall>d. (sdim dm = 3 \<and> d < 27 \<longrightarrow>
             GetDirectionijk (opposite_direction_id dm d) = map uminus (GetDirectionijk d)) \<and>
          (sdim dm = 2 \<and> d < 9 \<longrightarrow>
             GetDirectionijk (opposite_direction_id dm d) =
               [- (GetDirectionijk d ! 0), - (GetDirectionijk d ! 1), - 1]))"
proof -
  let ?R = "receiving_slots dm SubdomainIds"
  let ?S = "fst (fold (extract_at dm OvlpTDofs n recv_buffer) ?R (OvlpSol, 0))"
  let ?target = "\<lambda>(i0 :: nat, d, i1 :: nat). (i1, opposite_direction_id dm d)"
  from assms(2) have ids: "\<forall>i0\<in>set SubdomainIds. i0 < length x" by blast
  have run: "TransferToNeighbors dm OvlpTDofs n SubdomainIds x recv_buffer OvlpSol =
         Inr (map (\<lambda>(i0, d, i1). (subdomain_rank dm i1, i0 * 3 ^ sdim dm + d,
                                    GetSubVector (x ! i0) (OvlpTDofs i0 d)))
                (filter (\<lambda>(i0, d, i1). myid dm = subdomain_rank dm i0)
                   (exchange_slots dm SubdomainIds)),
              map (\<lambda>(i0, d, i1). (subdomain_rank dm i0, i0 * 3 ^ sdim dm + d,
                                    length (OvlpTDofs i1 (opposite_direction_id dm d))))
                ?R,
              ?S)"
    by (rule TransferToNeighbors_eq [OF assms(1) ids])
  have slots: "\<forall>i0 d i1. (i0, d, i1) \<in> set (exchange_slots dm SubdomainIds) \<longleftrightarrow>
        i0 \<in> set SubdomainIds \<and> d < 3 ^ sdim dm \<and> \<not> zero_direction dm d \<and>
        inside_grid dm (destination dm i0 d) \<and>
        i1 = GetSubdomainId (nxyz dm) (map nat (destination dm i0 d))"
    by (simp add: exchange_slots_iff neighbor_subdomain_Some_iff)
  have own: "\<forall>(i0, d, i1) \<in> set ?R. myid dm = subdomain_rank dm i1"
    by (auto simp: receiving_slots_def)
  have main: "\<exists>v. ?S i1 (opposite_direction_id dm d) = Some v \<and>
             holds_received v (n i1) (OvlpTDofs i1 (opposite_direction_id dm d))
               (recv_buffer r)"
    if r: "r < length ?R" "?R ! r = (i0, d, i1)"
      and later: "\<forall>r'. r < r' \<and> r' < length ?R \<longrightarrow>
           (case ?R ! r' of (i0', d', i1') \<Rightarrow> (i1', opposite_direction_id dm d')) \<noteq>
           (i1, opposite_direction_id dm d)"
      and tdofs: "distinct (OvlpTDofs i1 (opposite_direction_id dm d))"
        "\<forall>t \<in> set (OvlpTDofs i1 (opposite_direction_id dm d)). t < n i1"
    for r i0 d i1
    using extract_at_target [OF own r later, of OvlpTDofs n recv_buffer OvlpSol 0]
      SetSubVector_holds_received [OF tdofs, of "recv_buffer r"]
    by simp
  have fifth: "\<forall>r i0 d i1.
        r < length ?R \<and> ?R ! r = (i0, d, i1) \<and>
        (\<forall>r'. r < r' \<and> r' < length ?R \<longrightarrow>
           (case ?R ! r' of (i0', d', i1') \<Rightarrow> (i1', opposite_direction_id dm d')) \<noteq>
           (i1, opposite_direction_id dm d)) \<and>
        distinct (OvlpTDofs i1 (opposite_direction_id dm d)) \<and>
        (\<forall>t \<in> set (OvlpTDofs i1 (opposite_direction_id dm d)). t < n i1) \<longrightarrow>
        (\<exists>v. ?S i1 (opposite_direction_id dm d) = Some v \<and>
             holds_received v (n i1) (OvlpTDofs i1 (opposite_direction_id dm d))
               (recv_buffer r))"
  proof (intro allI impI, elim conjE)
    fix r i0 d i1
    assume "r < length ?R" "?R ! r = (i0, d, i1)"
      "\<forall>r'. r < r' \<and> r' < length ?R \<longrightarrow>
           (case ?R ! r' of (i0', d', i1') \<Rightarrow> (i1', opposite_direction_id dm d')) \<noteq>
           (i1, opposite_direction_id dm d)"
      "distinct (OvlpTDofs i1 (opposite_direction_id dm d))"
      "\<forall>t \<in> set (OvlpTDofs i1 (opposite_direction_id dm d)). t < n i1"
    then show "\<exists>v. ?S i1 (opposite_direction_id dm d) = Some v \<and>
             holds_received v (n i1) (OvlpTDofs i1 (opposite_direction_id dm d))
               (recv_buffer r)"
      by (rule main)
  qed
  have sixth: "distinct SubdomainIds \<and>
      (sdim dm = 3 \<or>
       sdim dm = 2 \<and> (\<forall>i0\<in>set SubdomainIds. i0 < nxyz dm ! 0 * nxyz dm ! 1)) \<longrightarrow>
      (\<forall>r i0 d i1.
         r < length ?R \<and> ?R ! r = (i0, d, i1) \<and>
         distinct (OvlpTDofs i1 (opposite_direction_id dm d)) \<and>
         (\<forall>t \<in> set (OvlpTDofs i1 (opposite_direction_id dm d)). t < n i1) \<longrightarrow>
         (\<exists>v. ?S i1 (opposite_direction_id dm d) = Some v \<and>
              holds_received v (n i1) (OvlpTDofs i1 (opposite_direction_id dm d))
                (recv_buffer r)))"
  proof (intro allI impI, elim conjE)
    fix r i0 d i1
    assume dist: "distinct SubdomainIds"
      and dm: "sdim dm = 3 \<or>
               sdim dm = 2 \<and> (\<forall>i0\<in>set SubdomainIds. i0 < nxyz dm ! 0 * nxyz dm ! 1)"
      and r: "r < length ?R" "?R ! r = (i0, d, i1)"
      and tdofs: "distinct (OvlpTDofs i1 (opposite_direction_id dm d))"
        "\<forall>t \<in> set (OvlpTDofs i1 (opposite_direction_id dm d)). t < n i1"
    have targets: "distinct (map ?target ?R)"
      by (rule receiving_targets_distinct [OF dist dm])
    have later: "\<forall>r'. r < r' \<and> r' < length ?R \<longrightarrow>
           (case ?R ! r' of (i0', d', i1') \<Rightarrow> (i1', opposite_direction_id dm d')) \<noteq>
           (i1, opposite_direction_id dm d)"
    proof (intro allI impI)
      fix r' assume r': "r < r' \<and> r' < length ?R"
      with r(1) have lt: "r' < length (map ?target ?R)" "r < length (map ?target ?R)"
        by simp_all
      from nth_eq_iff_index_eq [OF targets lt] r' r(1)
      have "?target (?R ! r') \<noteq> ?target (?R ! r)" by simp
      with r r' show "(case ?R ! r' of (i0', d', i1') \<Rightarrow> (i1', opposite_direction_id dm d')) \<noteq>
           (i1, opposite_direction_id dm d)"
        by simp
    qed
    from r later tdofs show "\<exists>v. ?S i1 (opposite_direction_id dm d) = Some v \<and>
              holds_received v (n i1) (OvlpTDofs i1 (opposite_direction_id dm d))
                (recv_buffer r)"
      by (rule main)
  qed
  have dirs: "\<forall>d. (sdim dm = 3 \<and> d < 27 \<longrightarrow>
             GetDirectionijk (opposite_direction_id dm d) = map uminus (GetDirectionijk d)) \<and>
          (sdim dm = 2 \<and> d < 9 \<longrightarrow>
             GetDirectionijk (opposite_direction_id dm d) =
               [- (GetDirectionijk d ! 0), - (GetDirectionijk d ! 1), - 1])"
    using opposite_direction_id_3D(2) opposite_direction_id_2D(2) by blast
  show ?thesis
    apply (intro exI conjI)
          apply (rule run)
         apply (rule refl)
        apply (rule refl)
       apply (rule slots)
      apply (rule fifth)
     apply (rule sixth)
    apply (rule dirs)
    done
qed

theorem TransferToNeighbors_exchanges_witness:
  "\<exists>sends recvs OvlpSol' v.
     TransferToNeighbors
       \<lparr>sdim = 2, nxyz = [2, 1, 1], nrsubdomains = 2, myid = 0, subdomain_rank = \<lambda>_. 0,
        OvlpNlayers = 1, MeshSize = 1,
        subdomain_mesh = \<lambda>_. \<lparr>mesh_NE = 0, elem_center = \<lambda>_ _. 0, pmin = \<lambda>_. 0, pmax = \<lambda>_. 0\<rparr>\<rparr>
       (\<lambda>l d. if l = 0 \<and> d = 5 then [1, 2] else if l = 1 \<and> d = 3 then [0, 1] else [])
       (\<lambda>_. 3) [0, 1] [[1, 2, 3], [4, 5, 6]] (\<lambda>r. if r = 0 then [2, 3] else [4, 5])
       (\<lambda>_ _. None) = Inr (sends, recvs, OvlpSol') \<and>
     OvlpSol' 1 3 = Some v \<and> holds_received v 3 [0, 1] [2, 3]"
proof -
  let ?dm = "\<lparr>sdim = 2, nxyz = [2, 1, 1], nrsubdomains = 2, myid = 0, subdomain_rank = \<lambda>_. 0,
        OvlpNlayers = 1, MeshSize = 1,
        subdomain_mesh = \<lambda>_. \<lparr>mesh_NE = 0, elem_center = \<lambda>_ _. 0, pmin = \<lambda>_. 0,
                                pmax = \<lambda>_. 0\<rparr>\<rparr>"
  let ?T = "\<lambda>l d :: nat. if l = 0 \<and> d = 5 then [1, 2] else if l = 1 \<and> d = 3 then [0, 1 :: nat]
            else []"
  let ?rb = "\<lambda>r :: nat. if r = 0 then [2, 3] else [4, 5 :: real]"
  have slots: "exchange_slots ?dm [0, 1] = [(0, 5, 1), (1, 3, 0)]"
    by code_simp
  have R: "receiving_slots ?dm [0, 1] = [(0, 5, 1), (1, 3, 0)]"
    unfolding receiving_slots_def slots by simp
  have o: "opposite_direction_id ?dm 5 = 3" "opposite_direction_id ?dm 3 = 5"
    by (simp_all add: opposite_direction_id_2D(1))
  have len: "length [0, 1 :: nat] = length [[1, 2, 3], [4, 5, 6 :: real]]" by simp
  have ids: "\<forall>i0\<in>set [0, 1 :: nat].
               i0 < length [[1, 2, 3], [4, 5, 6 :: real]] \<and> i0 < nrsubdomains ?dm"
    by simp
  from TransferToNeighbors_exchanges [OF len ids, of ?T "\<lambda>_. 3" ?rb "\<lambda>_ _. None"]
  show ?thesis
  proof (elim exE conjE)
    fix sends recvs OvlpSol'
    assume t: "TransferToNeighbors ?dm ?T (\<lambda>_. 3) [0, 1] [[1, 2, 3], [4, 5, 6]] ?rb (\<lambda>_ _. None) =
        Inr (sends, recvs, OvlpSol')"
    and ex: "\<forall>r i0 d i1.
        r < length (receiving_slots ?dm [0, 1]) \<and>
        receiving_slots ?dm [0, 1] ! r = (i0, d, i1) \<and>
        (\<forall>r'. r < r' \<and> r' < length (receiving_slots ?dm [0, 1]) \<longrightarrow>
           (case receiving_slots ?dm [0, 1] ! r' of
              (i0', d', i1') \<Rightarrow> (i1', opposite_direction_id ?dm d')) \<noteq>
           (i1, opposite_direction_id ?dm d)) \<and>
        distinct (?T i1 (opposite_direction_id ?dm d)) \<and>
        (\<forall>t \<in> set (?T i1 (opposite_direction_id ?dm d)). t < 3) \<longrightarrow>
        (\<exists>v. OvlpSol' i1 (opposite_direction_id ?dm d) = Some v \<and>
             holds_received v 3 (?T i1 (opposite_direction_id ?dm d)) (?rb r))"
  have later: "\<forall>r'. 0 < r' \<and> r' < length (receiving_slots ?dm [0, 1]) \<longrightarrow>
           (case receiving_slots ?dm [0, 1] ! r' of
              (i0', d', i1') \<Rightarrow> (i1', opposite_direction_id ?dm d')) \<noteq>
           (1, opposite_direction_id ?dm 5)"
    unfolding R by (auto simp: less_Suc_eq o)
  have prem: "0 < length (receiving_slots ?dm [0, 1]) \<and>
        receiving_slots ?dm [0, 1] ! 0 = (0, 5, 1) \<and>
        (\<forall>r'. 0 < r' \<and> r' < length (receiving_slots ?dm [0, 1]) \<longrightarrow>
           (case receiving_slots ?dm [0, 1] ! r' of
              (i0', d', i1') \<Rightarrow> (i1', opposite_direction_id ?dm d')) \<noteq>
           (1, opposite_direction_id ?dm 5)) \<and>
        distinct (?T 1 (opposite_direction_id ?dm 5)) \<and>
        (\<forall>t \<in> set (?T 1 (opposite_direction_id ?dm 5)). t < 3)"
  proof (intro conjI)
    show "\<forall>r'. 0 < r' \<and> r' < length (receiving_slots ?dm [0, 1]) \<longrightarrow>
           (case receiving_slots ?dm [0, 1] ! r' of
              (i0', d', i1') \<Rightarrow> (i1', opposite_direction_id ?dm d')) \<noteq>
           (1, opposite_direction_id ?dm 5)"
      by (rule later)
    show "0 < length (receiving_slots ?dm [0, 1])" unfolding R by simp
    show "receiving_slots ?dm [0, 1] ! 0 = (0, 5, 1)" unfolding R by simp
    show "distinct (?T 1 (opposite_direction_id ?dm 5))" unfolding o by simp
    show "\<forall>t \<in> set (?T 1 (opposite_direction_id ?dm 5)). t < 3" unfolding o by simp
  qed
  from ex [rule_format, OF prem]
  have "\<exists>v. OvlpSol' 1 3 = Some v \<and> holds_received v 3 [0, 1] [2, 3]"
    unfolding o by simp
  then show ?thesis
  proof (elim exE conjE)
    fix v assume v: "OvlpSol' 1 3 = Some v" "holds_received v 3 [0, 1] [2, 3]"
    show ?thesis
      by (intro exI conjI) (rule t, rule v(1), rule v(2))
  qed
  qed
qed

section \<open>Phase A: the map of an owned subdomain\<close>

subsection \<open>The assignment loop\<close>

lemma assign_gtdof_ok:
  assumes "k < length gt" "decode_dof d < length G"
  shows "assign_gtdof gt d (G, k) = Inr (G[decode_dof d := gt ! k], k + 1)"
  using assms by (simp add: assign_gtdof_def Let_def)

lemma assign_gtdof_abort:
  assumes "k \<ge> length gt \<or> decode_dof d \<ge> length G"
  shows "assign_gtdof gt d (G, k) = Inl Array_index_out_of_bounds"
  using assms by (auto simp: assign_gtdof_def Let_def)

lemma assign_loop_succeeds_iff:
  "(\<exists>G' k'. foldM (assign_gtdof gt) ds (G, k) = Inr (G', k')) \<longleftrightarrow>
   (ds = [] \<or> k + length ds \<le> length gt) \<and> (\<forall>e\<in>set ds. decode_dof e < length G)"
proof (induction ds arbitrary: G k)
  case Nil
  show ?case by simp
next
  case (Cons d ds)
  show ?case
  proof (cases "k \<ge> length gt \<or> decode_dof d \<ge> length G")
    case True
    then have "foldM (assign_gtdof gt) (d # ds) (G, k) = Inl Array_index_out_of_bounds"
      by (simp add: assign_gtdof_abort)
    with True show ?thesis by auto
  next
    case False
    then have step: "foldM (assign_gtdof gt) (d # ds) (G, k) =
                     foldM (assign_gtdof gt) ds (G[decode_dof d := gt ! k], k + 1)"
      by (simp add: assign_gtdof_ok)
    show ?thesis
      unfolding step Cons.IH using False by auto
  qed
qed

lemma assign_loop_result:
  assumes "foldM (assign_gtdof gt) ds (G, k) = Inr (G', k')"
  shows "length G' = length G \<and> k' = k + length ds \<and>
         (\<forall>p. p \<notin> decode_dof ` set ds \<longrightarrow> G' ! p = G ! p) \<and>
         (\<forall>j<length ds. (\<forall>j'. j < j' \<and> j' < length ds \<longrightarrow> decode_dof (ds ! j') \<noteq> decode_dof (ds ! j))
              \<longrightarrow> G' ! decode_dof (ds ! j) = gt ! (k + j))"
  using assms
proof (induction ds arbitrary: G k)
  case Nil
  then show ?case by simp
next
  case (Cons d ds)
  have ok: "k < length gt \<and> decode_dof d < length G"
  proof (rule ccontr)
    assume "\<not> (k < length gt \<and> decode_dof d < length G)"
    then have "assign_gtdof gt d (G, k) = Inl Array_index_out_of_bounds"
      by (intro assign_gtdof_abort) auto
    with Cons.prems show False by simp
  qed
  then have step: "foldM (assign_gtdof gt) ds (G[decode_dof d := gt ! k], k + 1) = Inr (G', k')"
    using Cons.prems by (simp add: assign_gtdof_ok)
  note IH = Cons.IH [OF step]
  show ?case
  proof (intro conjI allI impI)
    show "length G' = length G" using IH by simp
    show "k' = k + length (d # ds)" using IH by simp
  next
    fix p assume "p \<notin> decode_dof ` set (d # ds)"
    then have "p \<notin> decode_dof ` set ds" "p \<noteq> decode_dof d" by auto
    with IH show "G' ! p = G ! p" by simp
  next
    fix j
    assume j: "j < length (d # ds)"
      and last: "\<forall>j'. j < j' \<and> j' < length (d # ds) \<longrightarrow>
                  decode_dof ((d # ds) ! j') \<noteq> decode_dof ((d # ds) ! j)"
    show "G' ! decode_dof ((d # ds) ! j) = gt ! (k + j)"
    proof (cases j)
      case 0
      have "decode_dof d \<notin> decode_dof ` set ds"
      proof
        assume "decode_dof d \<in> decode_dof ` set ds"
        then obtain q where "q < length ds" "decode_dof (ds ! q) = decode_dof d"
          by (auto simp: in_set_conv_nth)
        with last [rule_format, of "Suc q"] 0 show False by simp
      qed
      with IH have "G' ! decode_dof d = (G[decode_dof d := gt ! k]) ! decode_dof d" by blast
      with ok 0 show ?thesis by simp
    next
      case (Suc j0)
      with j have j0: "j0 < length ds" by simp
      have "\<forall>j'. j0 < j' \<and> j' < length ds \<longrightarrow> decode_dof (ds ! j') \<noteq> decode_dof (ds ! j0)"
      proof (intro allI impI)
        fix j' assume "j0 < j' \<and> j' < length ds"
        with last [rule_format, of "Suc j'"] Suc
        show "decode_dof (ds ! j') \<noteq> decode_dof (ds ! j0)" by simp
      qed
      with IH j0 have "G' ! decode_dof (ds ! j0) = gt ! (k + 1 + j0)" by blast
      with Suc show ?thesis by simp
    qed
  qed
qed

lemma build_SubdomainGTrueDofs_loop:
  "build_SubdomainGTrueDofs nrdof nel E gt uninit =
     (case foldM (assign_gtdof gt) (concat (map E [0..<nel])) (replicate nrdof uninit, 0) of
        Inl e \<Rightarrow> Inl e
      | Inr (GTrueDofs, k) \<Rightarrow> Inr GTrueDofs)"
proof -
  have inner: "(\<lambda>iel. foldM (\<lambda>i. assign_gtdof gt (E iel ! i)) [0..<length (E iel)]) =
               (\<lambda>iel. foldM (assign_gtdof gt) (E iel))"
    by (intro ext) (rule foldM_nth)
  show ?thesis
    unfolding build_SubdomainGTrueDofs_def inner foldM_concat ..
qed


lemma dof_traversal_concat:
  "dof_traversal nel E = map decode_dof (concat (map E [0..<nel]))"
  by (simp add: dof_traversal_def map_concat comp_def)

lemma build_SubdomainGTrueDofs_succeeds_iff:
  "(\<exists>G. build_SubdomainGTrueDofs nrdof nel E gt uninit = Inr G) \<longleftrightarrow>
   length (dof_traversal nel E) \<le> length gt \<and> (\<forall>p\<in>set (dof_traversal nel E). p < nrdof)"
proof -
  let ?ds = "concat (map E [0..<nel])"
  have "(\<exists>G. build_SubdomainGTrueDofs nrdof nel E gt uninit = Inr G) \<longleftrightarrow>
        (\<exists>G' k'. foldM (assign_gtdof gt) ?ds (replicate nrdof uninit, 0) = Inr (G', k'))"
    unfolding build_SubdomainGTrueDofs_loop by (auto split: sum.splits)
  also have "\<dots> \<longleftrightarrow> (?ds = [] \<or> length ?ds \<le> length gt) \<and>
                      (\<forall>e\<in>set ?ds. decode_dof e < nrdof)"
    unfolding assign_loop_succeeds_iff by simp
  also have "\<dots> \<longleftrightarrow> length (map decode_dof ?ds) \<le> length gt \<and>
                      (\<forall>p\<in>set (map decode_dof ?ds). p < nrdof)"
  proof -
    have "(ds = [] \<or> length ds \<le> length gt) \<longleftrightarrow> length ds \<le> length gt" for ds :: "int list"
      by (cases ds) simp_all
    then show ?thesis by (simp only: length_map set_map ball_simps)
  qed
  finally show ?thesis unfolding dof_traversal_concat .
qed

lemma build_SubdomainGTrueDofs_result:
  assumes "build_SubdomainGTrueDofs nrdof nel E gt uninit = Inr G"
  shows "length G = nrdof"
    and "\<forall>j<length (dof_traversal nel E).
           (\<forall>j'. j < j' \<and> j' < length (dof_traversal nel E) \<longrightarrow>
                  dof_traversal nel E ! j' \<noteq> dof_traversal nel E ! j)
           \<longrightarrow> G ! (dof_traversal nel E ! j) = gt ! j"
    and "\<forall>p<nrdof. p \<notin> set (dof_traversal nel E) \<longrightarrow> G ! p = uninit"
proof -
  let ?ds = "concat (map E [0..<nel])"
  from assms obtain k' where
    run: "foldM (assign_gtdof gt) ?ds (replicate nrdof uninit, 0) = Inr (G, k')"
    unfolding build_SubdomainGTrueDofs_loop by (auto split: sum.splits)
  note r = assign_loop_result [OF run]
  from r show "length G = nrdof" by simp
  have t: "dof_traversal nel E = map decode_dof ?ds" by (rule dof_traversal_concat)
  show "\<forall>j<length (dof_traversal nel E).
           (\<forall>j'. j < j' \<and> j' < length (dof_traversal nel E) \<longrightarrow>
                  dof_traversal nel E ! j' \<noteq> dof_traversal nel E ! j)
           \<longrightarrow> G ! (dof_traversal nel E ! j) = gt ! j"
  proof (intro allI impI)
    fix j
    assume j: "j < length (dof_traversal nel E)"
      and last: "\<forall>j'. j < j' \<and> j' < length (dof_traversal nel E) \<longrightarrow>
                  dof_traversal nel E ! j' \<noteq> dof_traversal nel E ! j"
    from j have j': "j < length ?ds" by (simp add: t)
    have "\<forall>j'. j < j' \<and> j' < length ?ds \<longrightarrow> decode_dof (?ds ! j') \<noteq> decode_dof (?ds ! j)"
    proof (intro allI impI)
      fix j' assume a: "j < j' \<and> j' < length ?ds"
      with last [rule_format, of j'] j' show "decode_dof (?ds ! j') \<noteq> decode_dof (?ds ! j)"
        by (simp add: t)
    qed
    with r j' have "G ! decode_dof (?ds ! j) = gt ! (0 + j)" by blast
    with j' show "G ! (dof_traversal nel E ! j) = gt ! j" by (simp add: t)
  qed
  show "\<forall>p<nrdof. p \<notin> set (dof_traversal nel E) \<longrightarrow> G ! p = uninit"
  proof (intro allI impI)
    fix p assume p: "p < nrdof" and "p \<notin> set (dof_traversal nel E)"
    then have "p \<notin> decode_dof ` set ?ds" by (simp add: t)
    with r have "G ! p = replicate nrdof uninit ! p" by blast
    with p show "G ! p = uninit" by simp
  qed
qed

subsection \<open>The loop over the subdomains\<close>

lemma foldM_owned:
  fixes b :: "nat \<Rightarrow> 'e + 'v"
  defines "F \<equiv> \<lambda>P (b :: nat \<Rightarrow> 'e + 'v) ip S.
     if \<not> P ip then Inr S
     else (case b ip of Inl e \<Rightarrow> Inl e | Inr v \<Rightarrow> Inr (S(ip := v)))"
  shows "foldM (F P b) [0..<n] S0 = Inr S \<longleftrightarrow>
         (\<forall>ip<n. P ip \<longrightarrow> (\<exists>v. b ip = Inr v)) \<and>
         S = (\<lambda>ip. if ip < n \<and> P ip then projr (b ip) else S0 ip)"
proof (induction n arbitrary: S)
  case 0
  show ?case by auto
next
  case (Suc n)
  let ?S = "\<lambda>ip. if ip < n \<and> P ip then projr (b ip) else S0 ip"
  show ?case
  proof (cases "\<forall>ip<n. P ip \<longrightarrow> (\<exists>v. b ip = Inr v)")
    case False
    then have "\<forall>S'. foldM (F P b) [0..<n] S0 \<noteq> Inr S'" using Suc.IH by blast
    then obtain e where "foldM (F P b) [0..<n] S0 = Inl e" by (cases "foldM (F P b) [0..<n] S0") auto
    then have "foldM (F P b) [0..<Suc n] S0 = Inl e" by (simp add: foldM_append)
    moreover from False have "\<not> (\<forall>ip<Suc n. P ip \<longrightarrow> (\<exists>v. b ip = Inr v))"
      using less_Suc_eq by blast
    ultimately show ?thesis by simp
  next
    case True
    then have pre: "foldM (F P b) [0..<n] S0 = Inr ?S" using Suc.IH by blast
    then have step: "foldM (F P b) [0..<Suc n] S0 = F P b n ?S"
      by (simp add: foldM_append foldM_single del: foldM.simps)
    show ?thesis
    proof (cases "P n")
      case n: False
      then have "F P b n ?S = Inr ?S" by (simp add: F_def)
      moreover have "?S = (\<lambda>ip. if ip < Suc n \<and> P ip then projr (b ip) else S0 ip)"
        using n by (auto simp: fun_eq_iff less_Suc_eq)
      moreover have "(\<forall>ip<Suc n. P ip \<longrightarrow> (\<exists>v. b ip = Inr v))"
        using True n by (simp add: less_Suc_eq)
      ultimately show ?thesis unfolding step by auto
    next
      case n: True
      show ?thesis
      proof (cases "b n")
        case (Inl e)
        then have "F P b n ?S = Inl e" using n by (simp add: F_def)
        moreover have "\<not> (\<forall>ip<Suc n. P ip \<longrightarrow> (\<exists>v. b ip = Inr v))"
          using Inl n by auto
        ultimately show ?thesis unfolding step by simp
      next
        case (Inr v)
        then have "F P b n ?S = Inr (?S(n := v))" using n by (simp add: F_def)
        moreover have "?S(n := v) = (\<lambda>ip. if ip < Suc n \<and> P ip then projr (b ip) else S0 ip)"
          using n Inr by (auto simp: fun_eq_iff less_Suc_eq)
        moreover have "(\<forall>ip<Suc n. P ip \<longrightarrow> (\<exists>v. b ip = Inr v))"
          using True n Inr by (simp add: less_Suc_eq)
        ultimately show ?thesis unfolding step by auto
      qed
    qed
  qed
qed

lemma construct_SubdomainGTrueDofs_eq:
  "construct_SubdomainGTrueDofs nrsubdoms my_id subdom_rank GetTrueVSize nel GetElementDofs
       global_tdofs uninit = Inr S \<longleftrightarrow>
   (\<forall>ip<nrsubdoms. my_id = subdom_rank ip \<longrightarrow>
      (\<exists>G. build_SubdomainGTrueDofs (GetTrueVSize ip) (nel ip) (GetElementDofs ip)
              (global_tdofs ip) uninit = Inr G)) \<and>
   S = (\<lambda>ip. if ip < nrsubdoms \<and> my_id = subdom_rank ip
             then projr (build_SubdomainGTrueDofs (GetTrueVSize ip) (nel ip) (GetElementDofs ip)
                           (global_tdofs ip) uninit)
             else [])"
  unfolding construct_SubdomainGTrueDofs_def
  using foldM_owned [of "\<lambda>ip. my_id = subdom_rank ip"
      "\<lambda>ip. build_SubdomainGTrueDofs (GetTrueVSize ip) (nel ip) (GetElementDofs ip)
              (global_tdofs ip) uninit" nrsubdoms "\<lambda>_. []" S]
  by simp

subsection \<open>The size of the received list is not compared with the size of the space\<close>

text \<open>
  Claim C2. The claim reads: when the number of true dofs of an owned subdomain's space
  (\<^verbatim>\<open>fes[ip]->GetTrueVSize()\<close>) differs from the number of global ids reassembled for it,
  the setup aborts. In the source the check
  \<^verbatim>\<open>MFEM_VERIFY(nrdof == global_tdofs[ip].Size(), "TrueDof list size inconsistency")\<close> is
  commented out, together with the \<^verbatim>\<open>dof_marker\<close> lines that would make the two numbers
  agree, so step 4 compares nothing. What holds instead: step 4 completes exactly when, for
  every subdomain of this process, the dofs visited by the two loops are no more than the ids
  received and each is below \<^verbatim>\<open>GetTrueVSize()\<close> (an index outside an array aborts a debug
  build); the two sizes play no other part. On completion the map of an owned subdomain has
  \<^verbatim>\<open>GetTrueVSize()\<close> entries, the entry of a visited dof is the id at the position of its
  last visit, and the entry of a dof never visited is what \<^verbatim>\<open>SetSize\<close> left there.
\<close>

theorem construct_SubdomainGTrueDofs_compares_no_sizes:
  "((\<exists>S. construct_SubdomainGTrueDofs nrsubdoms my_id subdom_rank GetTrueVSize nel GetElementDofs
            global_tdofs uninit = Inr S) \<longleftrightarrow>
    (\<forall>ip<nrsubdoms. my_id = subdom_rank ip \<longrightarrow>
       length (dof_traversal (nel ip) (GetElementDofs ip)) \<le> length (global_tdofs ip) \<and>
       (\<forall>p\<in>set (dof_traversal (nel ip) (GetElementDofs ip)). p < GetTrueVSize ip))) \<and>
   (\<forall>S. construct_SubdomainGTrueDofs nrsubdoms my_id subdom_rank GetTrueVSize nel GetElementDofs
            global_tdofs uninit = Inr S \<longrightarrow>
      (\<forall>ip<nrsubdoms. my_id = subdom_rank ip \<longrightarrow>
         length (S ip) = GetTrueVSize ip \<and>
         (\<forall>j<length (dof_traversal (nel ip) (GetElementDofs ip)).
            (\<forall>j'. j < j' \<and> j' < length (dof_traversal (nel ip) (GetElementDofs ip)) \<longrightarrow>
                   dof_traversal (nel ip) (GetElementDofs ip) ! j' \<noteq>
                   dof_traversal (nel ip) (GetElementDofs ip) ! j)
            \<longrightarrow> S ip ! (dof_traversal (nel ip) (GetElementDofs ip) ! j) = global_tdofs ip ! j) \<and>
         (\<forall>p<GetTrueVSize ip. p \<notin> set (dof_traversal (nel ip) (GetElementDofs ip)) \<longrightarrow>
            S ip ! p = uninit)))"
proof (rule conjI)
  show "(\<exists>S. construct_SubdomainGTrueDofs nrsubdoms my_id subdom_rank GetTrueVSize nel
              GetElementDofs global_tdofs uninit = Inr S) \<longleftrightarrow>
    (\<forall>ip<nrsubdoms. my_id = subdom_rank ip \<longrightarrow>
       length (dof_traversal (nel ip) (GetElementDofs ip)) \<le> length (global_tdofs ip) \<and>
       (\<forall>p\<in>set (dof_traversal (nel ip) (GetElementDofs ip)). p < GetTrueVSize ip))"
    unfolding construct_SubdomainGTrueDofs_eq build_SubdomainGTrueDofs_succeeds_iff by simp
next
  show "\<forall>S. construct_SubdomainGTrueDofs nrsubdoms my_id subdom_rank GetTrueVSize nel GetElementDofs
            global_tdofs uninit = Inr S \<longrightarrow>
      (\<forall>ip<nrsubdoms. my_id = subdom_rank ip \<longrightarrow>
         length (S ip) = GetTrueVSize ip \<and>
         (\<forall>j<length (dof_traversal (nel ip) (GetElementDofs ip)).
            (\<forall>j'. j < j' \<and> j' < length (dof_traversal (nel ip) (GetElementDofs ip)) \<longrightarrow>
                   dof_traversal (nel ip) (GetElementDofs ip) ! j' \<noteq>
                   dof_traversal (nel ip) (GetElementDofs ip) ! j)
            \<longrightarrow> S ip ! (dof_traversal (nel ip) (GetElementDofs ip) ! j) = global_tdofs ip ! j) \<and>
         (\<forall>p<GetTrueVSize ip. p \<notin> set (dof_traversal (nel ip) (GetElementDofs ip)) \<longrightarrow>
            S ip ! p = uninit))"
  proof (rule allI, rule impI, rule allI, rule impI, rule impI)
    fix S ip
    assume run: "construct_SubdomainGTrueDofs nrsubdoms my_id subdom_rank GetTrueVSize nel
                   GetElementDofs global_tdofs uninit = Inr S"
      and ip: "ip < nrsubdoms" "my_id = subdom_rank ip"
    let ?b = "build_SubdomainGTrueDofs (GetTrueVSize ip) (nel ip) (GetElementDofs ip)
                (global_tdofs ip) uninit"
    from run ip obtain G where G: "?b = Inr G"
      unfolding construct_SubdomainGTrueDofs_eq by blast
    from run ip have "S ip = projr ?b"
      unfolding construct_SubdomainGTrueDofs_eq by simp
    with G have S: "S ip = G" by simp
    note r = build_SubdomainGTrueDofs_result [OF G]
    show "length (S ip) = GetTrueVSize ip \<and>
         (\<forall>j<length (dof_traversal (nel ip) (GetElementDofs ip)).
            (\<forall>j'. j < j' \<and> j' < length (dof_traversal (nel ip) (GetElementDofs ip)) \<longrightarrow>
                   dof_traversal (nel ip) (GetElementDofs ip) ! j' \<noteq>
                   dof_traversal (nel ip) (GetElementDofs ip) ! j)
            \<longrightarrow> S ip ! (dof_traversal (nel ip) (GetElementDofs ip) ! j) = global_tdofs ip ! j) \<and>
         (\<forall>p<GetTrueVSize ip. p \<notin> set (dof_traversal (nel ip) (GetElementDofs ip)) \<longrightarrow>
            S ip ! p = uninit)"
      unfolding S by (intro conjI r(1) r(2) r(3))
  qed
qed

text \<open>
  An instance: two subdomains, the first one owned, of two elements with dofs \<open>0, -2\<close> and
  \<open>1, 2\<close> (the dof \<open>-2\<close> stands for the dof 1), a space of 3 true dofs and 5 received ids.
  Step 4 completes; the map has 3 entries and the dof 1, visited twice, holds the id of its
  second visit.
\<close>

theorem construct_SubdomainGTrueDofs_compares_no_sizes_witness:
  "\<exists>S. construct_SubdomainGTrueDofs 2 0 (\<lambda>ip. ip) (\<lambda>_. 3) (\<lambda>_. 2)
         (\<lambda>_ iel. [[0, - 2], [1, 2]] ! iel) (\<lambda>_. [10, 11, 21, 12, 99]) 0 = Inr S \<and>
       length (S 0) = 3 \<and> S 0 ! 1 = 21"
proof -
  let ?E = "\<lambda>(_ :: nat) iel. [[0, - 2], [1, 2 :: int]] ! iel"
  let ?gt = "\<lambda>_ :: nat. [10, 11, 21, 12, 99 :: int]"
  have t: "dof_traversal 2 (?E ip) = [0, 1, 1, 2]" for ip
    by code_simp
  note c = construct_SubdomainGTrueDofs_compares_no_sizes
    [of 2 0 "\<lambda>ip. ip" "\<lambda>_. 3" "\<lambda>_. 2" ?E ?gt 0]
  have "\<forall>ip<2. (0 :: nat) = ip \<longrightarrow>
          length (dof_traversal 2 (?E ip)) \<le> length (?gt ip) \<and>
          (\<forall>p\<in>set (dof_traversal 2 (?E ip)). p < 3)"
    unfolding t by simp
  with c obtain S where
    S: "construct_SubdomainGTrueDofs 2 0 (\<lambda>ip. ip) (\<lambda>_. 3) (\<lambda>_. 2) ?E ?gt 0 = Inr S"
    by blast
  with c have r: "length (S 0) = 3 \<and>
      (\<forall>j<length (dof_traversal 2 (?E 0)).
            (\<forall>j'. j < j' \<and> j' < length (dof_traversal 2 (?E 0)) \<longrightarrow>
                   dof_traversal 2 (?E 0) ! j' \<noteq> dof_traversal 2 (?E 0) ! j)
            \<longrightarrow> S 0 ! (dof_traversal 2 (?E 0) ! j) = ?gt 0 ! j)"
    by simp
  then have len: "length (S 0) = 3" by simp
  from r have "\<forall>j<length (dof_traversal 2 (?E 0)).
            (\<forall>j'. j < j' \<and> j' < length (dof_traversal 2 (?E 0)) \<longrightarrow>
                   dof_traversal 2 (?E 0) ! j' \<noteq> dof_traversal 2 (?E 0) ! j)
            \<longrightarrow> S 0 ! (dof_traversal 2 (?E 0) ! j) = ?gt 0 ! j"
    by (rule conjunct2)
  then have "2 < length (dof_traversal 2 (?E 0)) \<longrightarrow>
            (\<forall>j'. 2 < j' \<and> j' < length (dof_traversal 2 (?E 0)) \<longrightarrow>
                   dof_traversal 2 (?E 0) ! j' \<noteq> dof_traversal 2 (?E 0) ! 2)
            \<longrightarrow> S 0 ! (dof_traversal 2 (?E 0) ! 2) = ?gt 0 ! 2"
    by (rule spec)
  moreover have "2 < length (dof_traversal 2 (?E 0))" unfolding t by simp
  moreover have "\<forall>j'. 2 < j' \<and> j' < length (dof_traversal 2 (?E 0)) \<longrightarrow>
                   dof_traversal 2 (?E 0) ! j' \<noteq> dof_traversal 2 (?E 0) ! 2"
  proof (intro allI impI)
    fix j' :: nat assume "2 < j' \<and> j' < length (dof_traversal 2 (?E 0))"
    then have "j' = 3" unfolding t by simp
    then show "dof_traversal 2 (?E 0) ! j' \<noteq> dof_traversal 2 (?E 0) ! 2"
      unfolding t by simp
  qed
  ultimately have "S 0 ! (dof_traversal 2 (?E 0) ! 2) = ?gt 0 ! 2" by blast
  then have "S 0 ! 1 = 21" unfolding t by simp
  with S len show ?thesis by blast
qed

text \<open>
  The claim fails: one owned subdomain whose space has 3 true dofs, two elements with dofs
  \<open>0, 1\<close> and \<open>1, 2\<close>, and 4 reassembled ids (the shared dof is listed once for each
  element). The sizes 3 and 4 differ, and step 4 completes with the map \<open>[10, 11, 12]\<close>.
\<close>

theorem construct_SubdomainGTrueDofs_size_mismatch_completes:
  "(3 :: nat) \<noteq> length [10, 11, 11, 12 :: int] \<and>
   map_sum id (\<lambda>S. S 0)
     (construct_SubdomainGTrueDofs 1 0 (\<lambda>_. 0) (\<lambda>_. 3) (\<lambda>_. 2)
        (\<lambda>_ iel. [[0, 1], [1, 2]] ! iel) (\<lambda>_. [10, 11, 11, 12]) 0) = Inr [10, 11, 12]"
  by code_simp
section \<open>Subdomains to global\<close>

subsection \<open>Counting, scattering and gathering by rank\<close>

lemma count_by_rank:
  "fold (\<lambda>it cnt. cnt(fst it := cnt (fst it) + 1)) items cnt r =
     cnt r + length (filter (\<lambda>it. fst it = r) items)"
proof (induction items arbitrary: cnt)
  case Nil
  show ?case by simp
next
  case (Cons it items)
  have "fold (\<lambda>it cnt. cnt(fst it := cnt (fst it) + 1)) (it # items) cnt r =
        fold (\<lambda>it cnt. cnt(fst it := cnt (fst it) + 1)) items (cnt(fst it := cnt (fst it) + 1)) r"
    by simp
  also have "\<dots> = (cnt(fst it := cnt (fst it) + 1)) r + length (filter (\<lambda>it. fst it = r) items)"
    by (rule Cons.IH)
  also have "\<dots> = cnt r + length (filter (\<lambda>it. fst it = r) (it # items))"
    by simp
  finally show ?case .
qed

lemma displacements_fold:
  fixes count :: "nat \<Rightarrow> nat"
  shows "fold (\<lambda>k displ. displ(k + 1 := displ k + count k)) [0..<m] (\<lambda>_. 0) r =
     (if r \<le> m then sum count {..<r} else 0)"
proof -
  define F where "F = (\<lambda>k (displ :: nat \<Rightarrow> nat). displ(k + 1 := displ k + count k))"
  have "fold F [0..<m] (\<lambda>_. 0) r = (if r \<le> m then sum count {..<r} else 0)"
  proof (induction m arbitrary: r)
    case 0
    show ?case by simp
  next
    case (Suc m)
    let ?D = "fold F [0..<m] (\<lambda>_. 0)"
    have step: "fold F [0..<Suc m] (\<lambda>_. 0) = F m ?D" by simp
    have Dm: "?D m = sum count {..<m}" using Suc.IH [of m] by simp
    have Dr: "?D r = (if r \<le> m then sum count {..<r} else 0)" by (rule Suc.IH)
    have "F m ?D r = (if r = m + 1 then ?D m + count m else ?D r)" by (simp add: F_def)
    then show ?case
      unfolding step Dm Dr by (auto simp: le_Suc_eq)
  qed
  then show ?thesis unfolding F_def .
qed

lemma displacements_sum:
  assumes "r < num_procs"
  shows "displacements num_procs count r = sum count {..<r}"
  using displacements_fold [of count "num_procs - 1" r] assms
  unfolding displacements_def by simp

lemma displacements_ordered:
  assumes "r < r'" "r' < num_procs"
  shows "displacements num_procs count r + count r \<le> displacements num_procs count r'"
proof -
  from assms have "displacements num_procs count r + count r = sum count {..<Suc r}"
    by (simp add: displacements_sum)
  also have "\<dots> \<le> sum count {..<r'}"
    using assms by (intro sum_mono2) auto
  also have "\<dots> = displacements num_procs count r'"
    using assms by (simp add: displacements_sum)
  finally show ?thesis .
qed

lemma scatter_untouched:
  fixes displ offs :: "nat \<Rightarrow> nat"
  assumes "\<forall>r. \<not> (displ r + offs r \<le> j \<and>
                   j < displ r + offs r + length (filter (\<lambda>it. fst it = r) items))"
  shows "fst (fold (\<lambda>it (buf, offs). (buf(displ (fst it) + offs (fst it) := snd it),
                                       offs(fst it := offs (fst it) + 1)))
                items (buf, offs)) j = buf j"
proof -
  define S where "S = (\<lambda>(it :: nat \<times> 'a) (buf :: nat \<Rightarrow> 'a, offs :: nat \<Rightarrow> nat).
     (buf(displ (fst it) + offs (fst it) := snd it), offs(fst it := offs (fst it) + 1)))"
  have "fst (fold S items (buf, offs)) j = buf j"
    using assms
  proof (induction items arbitrary: buf offs)
    case Nil
    show ?case by simp
  next
    case (Cons it items)
    let ?buf = "buf(displ (fst it) + offs (fst it) := snd it)"
    let ?offs = "offs(fst it := offs (fst it) + 1)"
    have step: "fold S (it # items) (buf, offs) = fold S items (?buf, ?offs)"
      by (simp add: S_def)
    have "\<forall>r. \<not> (displ r + ?offs r \<le> j \<and>
                  j < displ r + ?offs r + length (filter (\<lambda>it. fst it = r) items))"
    proof
      fix r
      from Cons.prems have "\<not> (displ r + offs r \<le> j \<and>
                   j < displ r + offs r + length (filter (\<lambda>it. fst it = r) (it # items)))"
        by (rule spec)
      then show "\<not> (displ r + ?offs r \<le> j \<and>
                  j < displ r + ?offs r + length (filter (\<lambda>it. fst it = r) items))"
        by (cases "fst it = r") auto
    qed
    then have rest: "fst (fold S items (?buf, ?offs)) j = ?buf j" by (rule Cons.IH)
    from Cons.prems have "\<not> (displ (fst it) + offs (fst it) \<le> j \<and>
        j < displ (fst it) + offs (fst it) + length (filter (\<lambda>it'. fst it' = fst it) (it # items)))"
      by (rule spec)
    then have "j \<noteq> displ (fst it) + offs (fst it)" by auto
    then show ?case unfolding step rest by simp
  qed
  then show ?thesis unfolding S_def .
qed

lemma scatter_hit:
  fixes displ offs :: "nat \<Rightarrow> nat"
  assumes "\<forall>it\<in>set items. fst it < P"
    and "\<forall>r r'. r < r' \<and> r' < P \<longrightarrow>
           displ r + offs r + length (filter (\<lambda>it. fst it = r) items) \<le> displ r' + offs r'"
    and "t < length (filter (\<lambda>it. fst it = r) items)"
  shows "fst (fold (\<lambda>it (buf, offs). (buf(displ (fst it) + offs (fst it) := snd it),
                                       offs(fst it := offs (fst it) + 1)))
                items (buf, offs)) (displ r + offs r + t) =
         map snd (filter (\<lambda>it. fst it = r) items) ! t"
  using assms
proof (induction items arbitrary: buf offs t)
  case Nil
  then show ?case by simp
next
  case (Cons it items)
  let ?S = "\<lambda>it (buf, offs). (buf(displ (fst it) + offs (fst it) := snd it),
                               offs(fst it := offs (fst it) + 1))"
  let ?n = "\<lambda>r xs. length (filter (\<lambda>it. fst it = r) xs)"
  let ?buf = "buf(displ (fst it) + offs (fst it) := snd it)"
  let ?offs = "offs(fst it := offs (fst it) + 1)"
  have step: "fold ?S (it # items) (buf, offs) = fold ?S items (?buf, ?offs)" by simp
  from Cons.prems(1) have r0: "fst it < P" and ranks: "\<forall>it\<in>set items. fst it < P" by simp_all
  have sep: "displ a + offs a + ?n a (it # items) \<le> displ b + offs b" if "a < b" "b < P" for a b
    using Cons.prems(2) that by blast
  have sep1: "\<forall>a b. a < b \<and> b < P \<longrightarrow> displ a + ?offs a + ?n a items \<le> displ b + ?offs b"
  proof (intro allI impI)
    fix a b assume "a < b \<and> b < P"
    then have "displ a + offs a + ?n a (it # items) \<le> displ b + offs b" using sep by blast
    then show "displ a + ?offs a + ?n a items \<le> displ b + ?offs b" by auto
  qed
  show ?case
  proof (cases "r = fst it")
    case False
    with Cons.prems(3) have t: "t < ?n r items" by auto
    from Cons.IH [OF ranks sep1 t, of ?buf]
    have "fst (fold ?S items (?buf, ?offs)) (displ r + ?offs r + t) =
          map snd (filter (\<lambda>it. fst it = r) items) ! t" .
    with False show ?thesis unfolding step by auto
  next
    case True
    show ?thesis
    proof (cases t)
      case (Suc t')
      with Cons.prems(3) True have t: "t' < ?n r items" by auto
      from Cons.IH [OF ranks sep1 t, of ?buf]
      have "fst (fold ?S items (?buf, ?offs)) (displ r + ?offs r + t') =
            map snd (filter (\<lambda>it. fst it = r) items) ! t'" .
      with True Suc show ?thesis unfolding step by simp
    next
      case 0
      let ?j = "displ (fst it) + offs (fst it)"
      have "\<forall>a. \<not> (displ a + ?offs a \<le> ?j \<and> ?j < displ a + ?offs a + ?n a items)"
      proof
        fix a
        show "\<not> (displ a + ?offs a \<le> ?j \<and> ?j < displ a + ?offs a + ?n a items)"
        proof (cases "a = fst it")
          case True
          then show ?thesis by simp
        next
          case ne: False
          show ?thesis
          proof (cases "?n a items = 0")
            case True
            then show ?thesis by simp
          next
            case False
            then have "filter (\<lambda>it. fst it = a) items \<noteq> []" by simp
            then obtain it' where "it' \<in> set items" "fst it' = a"
              by (auto simp: filter_empty_conv)
            with ranks have aP: "a < P" by auto
            from ne have "a < fst it \<or> fst it < a" by arith
            then show ?thesis
            proof
              assume "a < fst it"
              from sep [OF this r0] ne show ?thesis by auto
            next
              assume "fst it < a"
              from sep [OF this aP] ne show ?thesis by auto
            qed
          qed
        qed
      qed
      from scatter_untouched [OF this, of ?buf]
      have "fst (fold ?S items (?buf, ?offs)) ?j = ?buf ?j" .
      with True 0 show ?thesis unfolding step by simp
    qed
  qed
qed

lemma gather_sum:
  fixes displ offs :: "nat \<Rightarrow> nat" and buf :: darray and y :: "'k \<Rightarrow> real"
  assumes "\<forall>it\<in>set items. fst it < P"
  shows "fst (fold (\<lambda>it (y, offs).
                 (y(key (snd it) := y (key (snd it)) + buf (displ (fst it) + offs (fst it))),
                  offs(fst it := offs (fst it) + 1)))
              items (y, offs)) k =
         y k + (\<Sum>r<P. \<Sum>t<length (filter (\<lambda>it. fst it = r) items).
                  if key (snd (filter (\<lambda>it. fst it = r) items ! t)) = k
                  then buf (displ r + offs r + t) else 0)"
  using assms
proof (induction items arbitrary: y offs)
  case Nil
  show ?case by simp
next
  case (Cons it items)
  let ?G = "\<lambda>it (y, offs).
                 (y(key (snd it) := y (key (snd it)) + buf (displ (fst it) + offs (fst it))),
                  offs(fst it := offs (fst it) + 1))"
  let ?y = "y(key (snd it) := y (key (snd it)) + buf (displ (fst it) + offs (fst it)))"
  let ?offs = "offs(fst it := offs (fst it) + 1)"
  define c where "c = (if key (snd it) = k then buf (displ (fst it) + offs (fst it)) else 0)"
  define inner where "inner = (\<lambda>xs (o' :: nat \<Rightarrow> nat) r.
      \<Sum>t<length (filter (\<lambda>it. fst it = r) xs).
         if key (snd (filter (\<lambda>it. fst it = r) xs ! t)) = k
         then buf (displ r + o' r + t) else 0)"
  have step: "fold ?G (it # items) (y, offs) = fold ?G items (?y, ?offs)" by simp
  from Cons.prems have r0: "fst it < P" and ranks: "\<forall>it\<in>set items. fst it < P" by simp_all
  have IH: "fst (fold ?G items (?y, ?offs)) k = ?y k + (\<Sum>r<P. inner items ?offs r)"
    unfolding inner_def by (rule Cons.IH [OF ranks])
  have yk: "?y k = y k + c" by (simp add: c_def)
  have per: "inner (it # items) offs r = inner items ?offs r + (if r = fst it then c else 0)" for r
  proof (cases "r = fst it")
    case False
    then have o: "?offs r = offs r" by simp
    have f: "filter (\<lambda>it'. fst it' = r) (it # items) = filter (\<lambda>it'. fst it' = r) items"
      using False by simp
    show ?thesis
      unfolding inner_def f o using False by simp
  next
    case True
    have o: "?offs r = offs r + 1" using True by simp
    have f: "filter (\<lambda>it'. fst it' = r) (it # items) = it # filter (\<lambda>it'. fst it' = r) items"
      using True by simp
    have c: "c = (if key (snd it) = k then buf (displ r + offs r) else 0)"
      unfolding c_def True ..
    have sh: "(\<Sum>t<Suc m. g t) = g 0 + (\<Sum>t<m. g (Suc t))" for g :: "nat \<Rightarrow> real" and m
      by (rule sum.lessThan_Suc_shift)
    have "inner (it # items) offs r =
          (if key (snd it) = k then buf (displ r + offs r) else 0) +
          (\<Sum>t<length (filter (\<lambda>it'. fst it' = r) items).
              if key (snd (filter (\<lambda>it'. fst it' = r) items ! t)) = k
              then buf (displ r + offs r + Suc t) else 0)"
      unfolding inner_def f length_Cons sh by simp
    also have "\<dots> = c + inner items ?offs r"
      unfolding inner_def o c by (simp add: add.assoc cong: if_cong)
    finally show ?thesis using True by simp
  qed
  have "(\<Sum>r<P. inner (it # items) offs r) = (\<Sum>r<P. inner items ?offs r) + c"
    unfolding per using r0 by (simp add: sum.distrib)
  then have "fst (fold ?G (it # items) (y, offs)) k = y k + (\<Sum>r<P. inner (it # items) offs r)"
    unfolding step IH yk by simp
  then show ?case unfolding inner_def .
qed

subsection \<open>The loops of SubdomainsToGlobal as loops over items\<close>

lemma loop_items:
  assumes "\<And>ip i s. body ip i s = F (h ip i) s"
  shows "fold (\<lambda>ip s. if skip ip then s else fold (body ip) [0..<len ip] s) ips s =
         fold F (concat (map (\<lambda>ip. if skip ip then [] else map (h ip) [0..<len ip]) ips)) s"
proof (induction ips arbitrary: s)
  case Nil
  show ?case by simp
next
  case (Cons ip ips)
  have b: "body ip = (\<lambda>i. F (h ip i))" by (intro ext) (rule assms)
  have inner: "fold (body ip) [0..<len ip] s = fold F (map (h ip) [0..<len ip]) s"
    unfolding b by (simp add: fold_map comp_def)
  show ?case
    by (cases "skip ip") (simp_all add: Cons.IH inner)
qed

lemma send_counts_items:
  "send_counts nrsubdoms p subdom_rank tdof_offsets GTrueDofs =
     fold (\<lambda>it cnt. cnt(fst it := cnt (fst it) + 1))
       (send_items nrsubdoms subdom_rank tdof_offsets GTrueDofs x p) (\<lambda>_. 0)"
  unfolding send_counts_def send_items_def
  by (rule loop_items) (simp add: count_entry_def Let_def)

lemma fill_sendbuf_items:
  "fill_sendbuf nrsubdoms p subdom_rank tdof_offsets GTrueDofs send_displ x =
     fst (fold (\<lambda>it (buf, offs). (buf(send_displ (fst it) + offs (fst it) := snd it),
                                   offs(fst it := offs (fst it) + 1)))
            (send_items nrsubdoms subdom_rank tdof_offsets GTrueDofs x p) (\<lambda>_. 0, \<lambda>_. 0))"
  unfolding fill_sendbuf_def send_items_def
  by (rule arg_cong [where f = fst], rule loop_items)
     (simp add: pack_entry_def Let_def split: prod.split)

lemma accumulate_received_items:
  "accumulate_received nrsubdoms subdom_rank recv_displ recvbuf my_toffset LTrueDofs y =
     fst (fold (\<lambda>it (y, offs).
                 (y[nat (snd it - my_toffset) := y ! nat (snd it - my_toffset) +
                      recvbuf (recv_displ (fst it) + offs (fst it))],
                  offs(fst it := offs (fst it) + 1)))
            (recv_items nrsubdoms subdom_rank LTrueDofs) (y, \<lambda>_. 0))"
proof -
  have "fold (\<lambda>ip. fold (unpack_entry (subdom_rank ip) recv_displ recvbuf my_toffset
                             (LTrueDofs ip)) [0..<length (LTrueDofs ip)])
          [0..<nrsubdoms] (y, \<lambda>_. 0) =
        fold (\<lambda>ip s. if False then s
                      else fold (unpack_entry (subdom_rank ip) recv_displ recvbuf my_toffset
                             (LTrueDofs ip)) [0..<length (LTrueDofs ip)] s)
          [0..<nrsubdoms] (y, \<lambda>_. 0)"
    by simp
  also have "\<dots> = fold (\<lambda>it (y, offs).
                 (y[nat (snd it - my_toffset) := y ! nat (snd it - my_toffset) +
                      recvbuf (recv_displ (fst it) + offs (fst it))],
                  offs(fst it := offs (fst it) + 1)))
            (concat (map (\<lambda>ip. if False then []
                                else map (\<lambda>i. (subdom_rank ip, LTrueDofs ip ! i))
                                       [0..<length (LTrueDofs ip)]) [0..<nrsubdoms]))
            (y, \<lambda>_. 0)"
    by (rule loop_items) (simp add: unpack_entry_def Let_def split: prod.split)
  finally show ?thesis
    unfolding accumulate_received_def recv_items_def by simp
qed

text \<open>
  When every index lies in the vector, the loop on the vector is the loop on the memory
  that holds the entries of the vector.
\<close>

lemma gather_in_vector:
  fixes displ offs :: "nat \<Rightarrow> nat" and buf :: darray and y :: vector and f :: darray
  assumes "\<forall>it\<in>set items. key (snd it) < length y" and "\<forall>j<length y. f j = y ! j"
  shows "length (fst (fold (\<lambda>it (y, offs).
                 (y[key (snd it) := y ! key (snd it) + buf (displ (fst it) + offs (fst it))],
                  offs(fst it := offs (fst it) + 1))) items (y, offs))) = length y \<and>
         (\<forall>j<length y.
            fst (fold (\<lambda>it (y, offs).
                 (y[key (snd it) := y ! key (snd it) + buf (displ (fst it) + offs (fst it))],
                  offs(fst it := offs (fst it) + 1))) items (y, offs)) ! j =
            fst (fold (\<lambda>it (y, offs).
                 (y(key (snd it) := y (key (snd it)) + buf (displ (fst it) + offs (fst it))),
                  offs(fst it := offs (fst it) + 1))) items (f, offs)) j)"
proof -
  define L where "L = (\<lambda>(it :: nat \<times> 'a) (y :: vector, offs :: nat \<Rightarrow> nat).
                 (y[key (snd it) := y ! key (snd it) + buf (displ (fst it) + offs (fst it))],
                  offs(fst it := offs (fst it) + 1)))"
  define M where "M = (\<lambda>(it :: nat \<times> 'a) (y :: darray, offs :: nat \<Rightarrow> nat).
                 (y(key (snd it) := y (key (snd it)) + buf (displ (fst it) + offs (fst it))),
                  offs(fst it := offs (fst it) + 1)))"
  have "length (fst (fold L items (y, offs))) = length y \<and>
        (\<forall>j<length y. fst (fold L items (y, offs)) ! j = fst (fold M items (f, offs)) j)"
    using assms
  proof (induction items arbitrary: y f offs)
    case Nil
    then show ?case by simp
  next
    case (Cons it items)
    let ?v = "buf (displ (fst it) + offs (fst it))"
    let ?y = "y[key (snd it) := y ! key (snd it) + ?v]"
    let ?f = "f(key (snd it) := f (key (snd it)) + ?v)"
    let ?offs = "offs(fst it := offs (fst it) + 1)"
    have sL: "fold L (it # items) (y, offs) = fold L items (?y, ?offs)" by (simp add: L_def)
    have sM: "fold M (it # items) (f, offs) = fold M items (?f, ?offs)" by (simp add: M_def)
    from Cons.prems(1) have here: "key (snd it) < length y"
      and rest: "\<forall>it\<in>set items. key (snd it) < length ?y" by simp_all
    have rel: "\<forall>j<length ?y. ?f j = ?y ! j"
      using Cons.prems(2) here by (simp add: nth_list_update)
    from Cons.IH [OF rest rel, of ?offs] show ?case unfolding sL sM length_list_update .
  qed
  then show ?thesis unfolding L_def M_def .
qed

subsection \<open>What one process sends to another\<close>

lemma filter_by_index:
  "map (\<lambda>i. xs ! i) (filter (\<lambda>i. P (xs ! i)) [0..<length xs]) = filter P xs"
proof -
  have "filter P xs = filter P (map (\<lambda>i. xs ! i) [0..<length xs])" by (simp add: map_nth)
  also have "\<dots> = map (\<lambda>i. xs ! i) (filter (\<lambda>i. P (xs ! i)) [0..<length xs])"
    by (simp add: filter_map comp_def)
  finally show ?thesis by simp
qed

lemma sent_to_dofs:
  assumes "\<forall>tdof\<in>set GTrueDofs. 0 \<le> get_rank tdof tdof_offsets"
  shows "map fst (sent_to tdof_offsets GTrueDofs x_ip q) =
         filter (\<lambda>tdof. get_rank tdof tdof_offsets = int q) GTrueDofs"
proof -
  have "map fst (sent_to tdof_offsets GTrueDofs x_ip q) =
        map (\<lambda>i. GTrueDofs ! i)
          (filter (\<lambda>i. tdof_rank tdof_offsets (GTrueDofs ! i) = q) [0..<length GTrueDofs])"
    by (simp add: sent_to_def comp_def)
  also have "\<dots> = filter (\<lambda>tdof. tdof_rank tdof_offsets tdof = q) GTrueDofs"
    by (rule filter_by_index)
  also have "\<dots> = filter (\<lambda>tdof. get_rank tdof tdof_offsets = int q) GTrueDofs"
  proof (rule filter_cong [OF refl])
    fix tdof assume "tdof \<in> set GTrueDofs"
    with assms have "0 \<le> get_rank tdof tdof_offsets" by blast
    then show "(tdof_rank tdof_offsets tdof = q) = (get_rank tdof tdof_offsets = int q)"
      by (auto simp: tdof_rank_def)
  qed
  finally show ?thesis .
qed

lemma send_items_to:
  "map snd (filter (\<lambda>it. fst it = q)
              (send_items nrsubdoms subdom_rank tdof_offsets GTrueDofs x p)) =
   map snd (exchanged nrsubdoms subdom_rank tdof_offsets GTrueDofs x p q)"
proof -
  have inner: "map snd (filter (\<lambda>it. fst it = q)
                 (map (\<lambda>i. (tdof_rank tdof_offsets (G ! i), xv ! i)) js)) =
               map snd (map (\<lambda>i. (G ! i, xv ! i))
                 (filter (\<lambda>i. tdof_rank tdof_offsets (G ! i) = q) js))"
    for G :: "int list" and xv :: vector and js
    by (induction js) simp_all
  have "map snd (filter (\<lambda>it. fst it = q)
          (concat (map (\<lambda>ip. if p \<noteq> subdom_rank ip then []
                        else map (\<lambda>i. (tdof_rank tdof_offsets (GTrueDofs ip ! i), x ip ! i))
                               [0..<length (GTrueDofs ip)]) ips))) =
        map snd (concat (map (\<lambda>ip. if p \<noteq> subdom_rank ip then []
                        else sent_to tdof_offsets (GTrueDofs ip) (x ip) q) ips))" for ips
  proof (induction ips)
    case Nil
    show ?case by simp
  next
    case (Cons ip ips)
    show ?case
    proof (cases "p \<noteq> subdom_rank ip")
      case True
      then show ?thesis using Cons by simp
    next
      case False
      then show ?thesis using Cons inner [of "GTrueDofs ip" "x ip" "[0..<length (GTrueDofs ip)]"]
        by (simp add: sent_to_def)
    qed
  qed
  then show ?thesis unfolding send_items_def exchanged_def .
qed

lemma recv_items_from:
  assumes "\<forall>ip<nrsubdoms. subdom_rank ip = p \<longrightarrow>
             LTrueDofs ip = map fst (sent_to tdof_offsets (GTrueDofs ip) (x ip) q)"
  shows "map snd (filter (\<lambda>it. fst it = p) (recv_items nrsubdoms subdom_rank LTrueDofs)) =
         map fst (exchanged nrsubdoms subdom_rank tdof_offsets GTrueDofs x p q)"
proof -
  have inner: "map snd (filter (\<lambda>it. fst it = p)
                 (map (\<lambda>i. (r, L ! i)) [0..<length L])) = (if r = p then L else [])"
    for r and L :: "int list"
  proof (cases "r = p")
    case True
    have "map snd (filter (\<lambda>it. fst it = p) (map (\<lambda>i. (p, L ! i)) [0..<length L])) =
          map (\<lambda>i. L ! i) [0..<length L]"
      by (simp add: filter_map comp_def)
    with True show ?thesis by (simp add: map_nth)
  next
    case False
    then show ?thesis by (simp add: filter_map comp_def)
  qed
  have "\<forall>ip\<in>set ips. subdom_rank ip = p \<longrightarrow>
            LTrueDofs ip = map fst (sent_to tdof_offsets (GTrueDofs ip) (x ip) q) \<Longrightarrow>
        map snd (filter (\<lambda>it. fst it = p)
          (concat (map (\<lambda>ip. map (\<lambda>i. (subdom_rank ip, LTrueDofs ip ! i))
                               [0..<length (LTrueDofs ip)]) ips))) =
        map fst (concat (map (\<lambda>ip. if p \<noteq> subdom_rank ip then []
                        else sent_to tdof_offsets (GTrueDofs ip) (x ip) q) ips))" for ips
  proof (induction ips)
    case Nil
    show ?case by simp
  next
    case (Cons ip ips)
    from Cons.prems have rest: "\<forall>ip\<in>set ips. subdom_rank ip = p \<longrightarrow>
            LTrueDofs ip = map fst (sent_to tdof_offsets (GTrueDofs ip) (x ip) q)"
      and here: "subdom_rank ip = p \<longrightarrow>
            LTrueDofs ip = map fst (sent_to tdof_offsets (GTrueDofs ip) (x ip) q)"
      by simp_all
    show ?case
      using Cons.IH [OF rest] here inner [of "subdom_rank ip" "LTrueDofs ip"]
      by (cases "subdom_rank ip = p") auto
  qed
  moreover have "\<forall>ip\<in>set [0..<nrsubdoms]. subdom_rank ip = p \<longrightarrow>
            LTrueDofs ip = map fst (sent_to tdof_offsets (GTrueDofs ip) (x ip) q)"
    using assms by simp
  ultimately show ?thesis unfolding recv_items_def exchanged_def by blast
qed

subsection \<open>The send buffer and the receive buffer\<close>

lemma send_counts_exchanged:
  "send_counts nrsubdoms p subdom_rank tdof_offsets GTrueDofs q =
     length (exchanged nrsubdoms subdom_rank tdof_offsets GTrueDofs x p q)"
proof -
  let ?items = "send_items nrsubdoms subdom_rank tdof_offsets GTrueDofs x p"
  have "send_counts nrsubdoms p subdom_rank tdof_offsets GTrueDofs q =
        length (filter (\<lambda>it. fst it = q) ?items)"
    unfolding send_counts_items [of nrsubdoms p subdom_rank tdof_offsets GTrueDofs x]
      count_by_rank by simp
  also have "\<dots> = length (map snd (filter (\<lambda>it. fst it = q) ?items))" by simp
  also have "\<dots> = length (exchanged nrsubdoms subdom_rank tdof_offsets GTrueDofs x p q)"
    unfolding send_items_to by simp
  finally show ?thesis .
qed

lemma fill_sendbuf_block:
  assumes ranks: "\<forall>it\<in>set (send_items nrsubdoms subdom_rank tdof_offsets GTrueDofs x p).
                    fst it < num_procs"
    and t: "t < length (exchanged nrsubdoms subdom_rank tdof_offsets GTrueDofs x p q)"
  shows "fill_sendbuf nrsubdoms p subdom_rank tdof_offsets GTrueDofs
           (displacements num_procs (send_counts nrsubdoms p subdom_rank tdof_offsets GTrueDofs))
           x
           (displacements num_procs (send_counts nrsubdoms p subdom_rank tdof_offsets GTrueDofs) q
            + t) =
         snd (exchanged nrsubdoms subdom_rank tdof_offsets GTrueDofs x p q ! t)"
proof -
  let ?items = "send_items nrsubdoms subdom_rank tdof_offsets GTrueDofs x p"
  let ?cnt = "send_counts nrsubdoms p subdom_rank tdof_offsets GTrueDofs"
  let ?displ = "displacements num_procs ?cnt"
  let ?E = "exchanged nrsubdoms subdom_rank tdof_offsets GTrueDofs x p q"
  have n: "length (filter (\<lambda>it. fst it = r) ?items) = ?cnt r" for r
  proof -
    have "length (filter (\<lambda>it. fst it = r) ?items) =
          length (map snd (filter (\<lambda>it. fst it = r) ?items))" by simp
    also have "\<dots> = ?cnt r"
      unfolding send_items_to send_counts_exchanged [of _ _ _ _ _ _ x] by simp
    finally show ?thesis .
  qed
  have sep: "\<forall>r r'. r < r' \<and> r' < num_procs \<longrightarrow>
           ?displ r + (\<lambda>_. 0 :: nat) r + length (filter (\<lambda>it. fst it = r) ?items) \<le>
           ?displ r' + (\<lambda>_. 0 :: nat) r'"
    unfolding n using displacements_ordered [of _ _ num_procs ?cnt] by simp
  from t have t': "t < length (filter (\<lambda>it. fst it = q) ?items)"
    unfolding n send_counts_exchanged [of _ _ _ _ _ _ x] .
  from scatter_hit [OF ranks sep t', of "\<lambda>_. 0"]
  have "fill_sendbuf nrsubdoms p subdom_rank tdof_offsets GTrueDofs ?displ x (?displ q + t) =
        map snd (filter (\<lambda>it. fst it = q) ?items) ! t"
    unfolding fill_sendbuf_items by simp
  also have "\<dots> = map snd ?E ! t" unfolding send_items_to ..
  also have "\<dots> = snd (?E ! t)" using t by simp
  finally show ?thesis .
qed

lemma MPI_Alltoallv_block:
  assumes p: "p < num_procs" and t: "t < recv_count p"
  shows "MPI_Alltoallv num_procs sendbuf send_displ recv_count
           (displacements num_procs recv_count) q recvbuf
           (displacements num_procs recv_count p + t) =
         sendbuf p (send_displ p q + t)"
proof -
  let ?displ = "displacements num_procs recv_count"
  let ?block = "\<lambda>p'. fold (\<lambda>t' (buf :: darray). buf(?displ p' + t' := sendbuf p' (send_displ p' q + t')))
                         [0..<recv_count p']"
  have "fold ?block [0..<num_procs] recvbuf (?displ p + t) = sendbuf p (send_displ p q + t)"
  proof (rule fold_upd_hit [where k = p])
    show "p \<in> set [0..<num_procs]" using p by simp
  next
    fix s :: darray
    show "?block p s (?displ p + t) = sendbuf p (send_displ p q + t)"
    proof (rule fold_upd_hit [where k = t])
      show "t \<in> set [0..<recv_count p]" using t by simp
    qed simp_all
  next
    fix p' and s :: darray
    assume p': "p' \<in> set [0..<num_procs]" "p' \<noteq> p"
    show "?block p' s (?displ p + t) = s (?displ p + t)"
    proof (rule fold_upd_miss)
      fix t' and s' :: darray
      assume t': "t' \<in> set [0..<recv_count p']"
      from p'(2) have "p' < p \<or> p < p'" by arith
      then have "?displ p' + t' \<noteq> ?displ p + t"
      proof
        assume "p' < p"
        from displacements_ordered [OF this p, of recv_count] t' show ?thesis by simp
      next
        assume lt: "p < p'"
        from p'(1) have "p' < num_procs" by simp
        from displacements_ordered [OF lt this, of recv_count] t show ?thesis by simp
      qed
      then show "(s'(?displ p' + t' := sendbuf p' (send_displ p' q + t'))) (?displ p + t) =
                 s' (?displ p + t)"
        by simp
    qed
  qed
  then show ?thesis unfolding MPI_Alltoallv_def .
qed

subsection \<open>Sums over what is exchanged\<close>

lemma sum_by_owner:
  fixes F :: "'a \<Rightarrow> real" and P :: nat
  assumes "\<forall>a\<in>set as. owner a < P"
  shows "(\<Sum>p<P. sum_list (map (\<lambda>a. if owner a = p then F a else 0) as)) = sum_list (map F as)"
  using assms
proof (induction as)
  case Nil
  show ?case by simp
next
  case (Cons a as)
  then have a: "owner a < P" and IH: "(\<Sum>p<P. sum_list (map (\<lambda>a. if owner a = p then F a else 0) as)) =
      sum_list (map F as)"
    by simp_all
  have d: "(\<Sum>p<P. if owner a = p then F a else 0) = F a"
    using a by (simp add: sum.delta')
  have "(\<Sum>p<P. sum_list (map (\<lambda>a. if owner a = p then F a else 0) (a # as))) =
        (\<Sum>p<P. if owner a = p then F a else 0) +
        (\<Sum>p<P. sum_list (map (\<lambda>a. if owner a = p then F a else 0) as))"
    by (simp add: sum.distrib)
  then show ?case unfolding IH d by simp
qed

lemma sum_list_exchanged:
  fixes f :: "int \<times> real \<Rightarrow> real"
  shows "sum_list (map f (exchanged nrsubdoms subdom_rank tdof_offsets GTrueDofs x p q)) =
         sum_list (map (\<lambda>ip. if subdom_rank ip = p
                              then sum_list (map f (sent_to tdof_offsets (GTrueDofs ip) (x ip) q))
                              else 0) [0..<nrsubdoms])"
proof -
  have "sum_list (map f (concat (map (\<lambda>ip. if p \<noteq> subdom_rank ip then []
                        else sent_to tdof_offsets (GTrueDofs ip) (x ip) q) ips))) =
        sum_list (map (\<lambda>ip. if subdom_rank ip = p
                              then sum_list (map f (sent_to tdof_offsets (GTrueDofs ip) (x ip) q))
                              else 0) ips)" for ips
    by (induction ips) auto
  then show ?thesis unfolding exchanged_def .
qed

lemma sum_list_filter_snd:
  fixes xs :: "('a \<times> real) list"
  shows "sum_list (map snd (filter c xs)) = sum_list (map (\<lambda>tv. if c tv then snd tv else 0) xs)"
  by (induction xs) simp_all

lemma sum_list_contributions:
  "sum_list (contributions nrsubdoms subdom_rank tdof_offsets procs x q k) =
   sum_list (map (\<lambda>ip. sum_list (map (\<lambda>tv. if fst tv - mytoffset (procs q) = k then snd tv else 0)
       (sent_to tdof_offsets (SubdomainGTrueDofs (procs (subdom_rank ip)) ip)
          (x (subdom_rank ip) ip) q))) [0..<nrsubdoms])"
proof -
  have c: "(\<lambda>(tdof :: int, v :: real). tdof - mytoffset (procs q) = k) =
           (\<lambda>tv. fst tv - mytoffset (procs q) = k)"
    by (simp add: fun_eq_iff)
  have "sum_list (concat (map (\<lambda>ip. map snd (filter (\<lambda>tv. fst tv - mytoffset (procs q) = k)
           (sent_to tdof_offsets (SubdomainGTrueDofs (procs (subdom_rank ip)) ip)
              (x (subdom_rank ip) ip) q))) ips)) =
        sum_list (map (\<lambda>ip. sum_list (map (\<lambda>tv. if fst tv - mytoffset (procs q) = k
                                               then snd tv else 0)
           (sent_to tdof_offsets (SubdomainGTrueDofs (procs (subdom_rank ip)) ip)
              (x (subdom_rank ip) ip) q))) ips)" for ips
    by (induction ips) (simp_all add: sum_list_filter_snd)
  then show ?thesis unfolding contributions_def c .
qed

lemma sum_nth_list:
  fixes f :: "'a \<Rightarrow> real"
  shows "(\<Sum>t<length xs. f (xs ! t)) = sum_list (map f xs)"
proof -
  have "sum_list (map f xs) = (\<Sum>t = 0..<length (map f xs). map f xs ! t)"
    by (rule sum_list_sum_nth)
  also have "\<dots> = (\<Sum>t<length xs. f (xs ! t))"
    by (simp add: lessThan_atLeast0)
  finally show ?thesis by simp
qed

subsection \<open>The global vector after the call\<close>

lemma bridges_set_up_facts:
  assumes "bridges_set_up num_procs nrsubdoms subdom_rank tdof_offsets procs" "ip < nrsubdoms"
  shows "subdom_rank ip < num_procs"
    and "\<And>tdof. tdof \<in> set (SubdomainGTrueDofs (procs (subdom_rank ip)) ip) \<Longrightarrow>
           0 \<le> get_rank tdof tdof_offsets \<and> get_rank tdof tdof_offsets < int num_procs"
    and "\<And>q. q < num_procs \<Longrightarrow>
           SubdomainLTrueDofs (procs q) ip =
             filter (\<lambda>tdof. get_rank tdof tdof_offsets = int q)
               (SubdomainGTrueDofs (procs (subdom_rank ip)) ip)"
  using assms by (simp_all add: bridges_set_up_def)

lemma send_items_ranks:
  assumes set_up: "bridges_set_up num_procs nrsubdoms subdom_rank tdof_offsets procs"
  shows "\<forall>it\<in>set (send_items nrsubdoms subdom_rank tdof_offsets
                     (SubdomainGTrueDofs (procs p)) xp p). fst it < num_procs"
proof
  fix it
  assume "it \<in> set (send_items nrsubdoms subdom_rank tdof_offsets
                     (SubdomainGTrueDofs (procs p)) xp p)"
  then obtain ip i where ip: "ip < nrsubdoms" "p = subdom_rank ip"
    and i: "i < length (SubdomainGTrueDofs (procs p) ip)"
    and it: "it = (tdof_rank tdof_offsets (SubdomainGTrueDofs (procs p) ip ! i), xp ip ! i)"
    by (auto simp: send_items_def split: if_splits)
  from i ip(2) have "SubdomainGTrueDofs (procs p) ip ! i \<in>
                     set (SubdomainGTrueDofs (procs (subdom_rank ip)) ip)"
    by simp
  from bridges_set_up_facts(2) [OF set_up ip(1) this]
  show "fst it < num_procs" unfolding it by (simp add: tdof_rank_def nat_less_iff)
qed

lemma recv_items_ranks:
  assumes set_up: "bridges_set_up num_procs nrsubdoms subdom_rank tdof_offsets procs"
  shows "\<forall>it\<in>set (recv_items nrsubdoms subdom_rank LTrueDofs). fst it < num_procs"
proof
  fix it assume "it \<in> set (recv_items nrsubdoms subdom_rank LTrueDofs)"
  then obtain ip where "ip < nrsubdoms" "fst it = subdom_rank ip"
    by (auto simp: recv_items_def)
  with bridges_set_up_facts(1) [OF set_up] show "fst it < num_procs" by simp
qed

lemma received_block:
  fixes x :: "nat \<Rightarrow> nat \<Rightarrow> vector"
  assumes set_up: "bridges_set_up num_procs nrsubdoms subdom_rank tdof_offsets procs"
    and q: "q < num_procs" and p: "p < num_procs"
    and cnt: "cnt = (\<lambda>p. send_counts nrsubdoms p subdom_rank tdof_offsets
                         (SubdomainGTrueDofs (procs p)))"
    and sd: "sd = (\<lambda>p. displacements num_procs (cnt p))"
    and sb: "sb = (\<lambda>p. fill_sendbuf nrsubdoms p subdom_rank tdof_offsets
                        (SubdomainGTrueDofs (procs p)) (sd p) (x p))"
    and rc: "rc = MPI_Alltoall num_procs cnt q"
    and E: "E = exchanged nrsubdoms subdom_rank tdof_offsets (SubdomainGTrueDofs (procs p))
                 (x p) p q"
    and F: "F = filter (\<lambda>it. fst it = p)
                 (recv_items nrsubdoms subdom_rank (SubdomainLTrueDofs (procs q)))"
  shows "length F = length E"
    and "\<And>t. t < length E \<Longrightarrow> snd (F ! t) = fst (E ! t)"
    and "\<And>t. t < length E \<Longrightarrow>
           MPI_Alltoallv num_procs sb sd rc (displacements num_procs rc) q uninit
             (displacements num_procs rc p + t) = snd (E ! t)"
proof -
  have lt: "\<forall>ip<nrsubdoms. subdom_rank ip = p \<longrightarrow>
              SubdomainLTrueDofs (procs q) ip =
              map fst (sent_to tdof_offsets (SubdomainGTrueDofs (procs p) ip) (x p ip) q)"
  proof (intro allI impI)
    fix ip assume ip: "ip < nrsubdoms" and own: "subdom_rank ip = p"
    have "\<forall>tdof\<in>set (SubdomainGTrueDofs (procs p) ip). 0 \<le> get_rank tdof tdof_offsets"
      using bridges_set_up_facts(2) [OF set_up ip] own by blast
    from sent_to_dofs [OF this, of "x p ip" q] bridges_set_up_facts(3) [OF set_up ip q] own
    show "SubdomainLTrueDofs (procs q) ip =
          map fst (sent_to tdof_offsets (SubdomainGTrueDofs (procs p) ip) (x p ip) q)"
      by simp
  qed
  have m: "map snd F = map fst E"
    unfolding F E by (rule recv_items_from [OF lt])
  then have "length (map snd F) = length (map fst E)" by (rule arg_cong)
  then show len: "length F = length E" by simp
  show "snd (F ! t) = fst (E ! t)" if t: "t < length E" for t
  proof -
    from m have "map snd F ! t = map fst E ! t" by (rule arg_cong)
    with t len show ?thesis by simp
  qed
  show "MPI_Alltoallv num_procs sb sd rc (displacements num_procs rc) q uninit
          (displacements num_procs rc p + t) = snd (E ! t)" if t: "t < length E" for t
  proof -
    have c: "cnt p q = length E"
      unfolding cnt E by (rule send_counts_exchanged)
    have "rc p = length E" unfolding rc MPI_Alltoall_def using p c by simp
    with t have t': "t < rc p" by simp
    have ranks: "\<forall>it\<in>set (send_items nrsubdoms subdom_rank tdof_offsets
                     (SubdomainGTrueDofs (procs p)) (x p) p). fst it < num_procs"
      by (rule send_items_ranks [OF set_up])
    from t have tE: "t < length (exchanged nrsubdoms subdom_rank tdof_offsets
                        (SubdomainGTrueDofs (procs p)) (x p) p q)"
      unfolding E .
    have "MPI_Alltoallv num_procs sb sd rc (displacements num_procs rc) q uninit
            (displacements num_procs rc p + t) = sb p (sd p q + t)"
      by (rule MPI_Alltoallv_block [OF p]) (rule t')
    also have "sb p (sd p q + t) =
        fill_sendbuf nrsubdoms p subdom_rank tdof_offsets (SubdomainGTrueDofs (procs p))
          (displacements num_procs
             (send_counts nrsubdoms p subdom_rank tdof_offsets (SubdomainGTrueDofs (procs p))))
          (x p)
          (displacements num_procs
             (send_counts nrsubdoms p subdom_rank tdof_offsets (SubdomainGTrueDofs (procs p))) q
           + t)"
      unfolding sb sd cnt ..
    also have "\<dots> = snd (E ! t)"
      unfolding E by (rule fill_sendbuf_block [OF ranks tE])
    finally show ?thesis .
  qed
qed

lemma recv_items_fit:
  assumes "vectors_fit nrsubdoms subdom_rank procs x q y"
    and "it \<in> set (recv_items nrsubdoms subdom_rank (SubdomainLTrueDofs (procs q)))"
  shows "mytoffset (procs q) \<le> snd it"
    and "nat (snd it - mytoffset (procs q)) < length y"
proof -
  from assms(2) obtain ip where ip: "ip < nrsubdoms"
    and m: "snd it \<in> set (SubdomainLTrueDofs (procs q) ip)"
    by (auto simp: recv_items_def)
  from assms(1) ip m have b: "mytoffset (procs q) \<le> snd it \<and>
                              snd it - mytoffset (procs q) < int (length y)"
    by (simp add: vectors_fit_def)
  then show "mytoffset (procs q) \<le> snd it" by simp
  from b show "nat (snd it - mytoffset (procs q)) < length y" by (simp add: nat_less_iff)
qed

text \<open>
  Claim C3. On bridges as the setup leaves them, with vectors that fit them and entries
  that are exact reals, \<^verbatim>\<open>SubdomainsToGlobal(x, y)\<close> leaves the size of the vector \<open>y\<close> of a
  process as it is, and its entry \<open>k\<close> is the value before the call plus the sum of all the
  values that the subdomains contribute to it: the values \<open>x[ip][i]\<close> of every subdomain
  \<open>ip\<close> and every dof \<open>i\<close> of it whose global true dof is the dof \<open>k + mytoffset\<close> of the
  process. So an entry to which two subdomains contribute \<open>c1\<close> and \<open>c2\<close> has increased by
  \<open>c1 + c2\<close>, and an entry to which no subdomain contributes is unchanged.
\<close>

theorem SubdomainsToGlobal_accumulates:
  assumes set_up: "bridges_set_up num_procs nrsubdoms subdom_rank tdof_offsets procs"
    and q: "q < num_procs"
    and fit: "vectors_fit nrsubdoms subdom_rank procs x q y"
    and k: "k < length y"
  shows "length (SubdomainsToGlobal num_procs nrsubdoms subdom_rank tdof_offsets procs x q
                   uninit y) = length y \<and>
         SubdomainsToGlobal num_procs nrsubdoms subdom_rank tdof_offsets procs x q uninit y ! k =
           y ! k + sum_list (contributions nrsubdoms subdom_rank tdof_offsets procs x q (int k)) \<and>
         (\<forall>c1 c2. contributions nrsubdoms subdom_rank tdof_offsets procs x q (int k) = [c1, c2] \<longrightarrow>
            SubdomainsToGlobal num_procs nrsubdoms subdom_rank tdof_offsets procs x q uninit y ! k =
              y ! k + (c1 + c2)) \<and>
         (contributions nrsubdoms subdom_rank tdof_offsets procs x q (int k) = [] \<longrightarrow>
            SubdomainsToGlobal num_procs nrsubdoms subdom_rank tdof_offsets procs x q uninit y ! k =
              y ! k)"
proof -
  define cnt where "cnt = (\<lambda>p. send_counts nrsubdoms p subdom_rank tdof_offsets
                         (SubdomainGTrueDofs (procs p)))"
  define sd where "sd = (\<lambda>p. displacements num_procs (cnt p))"
  define sb where "sb = (\<lambda>p. fill_sendbuf nrsubdoms p subdom_rank tdof_offsets
                        (SubdomainGTrueDofs (procs p)) (sd p) (x p))"
  define rc where "rc = MPI_Alltoall num_procs cnt q"
  define rd where "rd = displacements num_procs rc"
  define rb where "rb = MPI_Alltoallv num_procs sb sd rc rd q uninit"
  define off where "off = mytoffset (procs q)"
  define items where "items = recv_items nrsubdoms subdom_rank (SubdomainLTrueDofs (procs q))"
  define E where "E = (\<lambda>p. exchanged nrsubdoms subdom_rank tdof_offsets
                        (SubdomainGTrueDofs (procs p)) (x p) p q)"
  define F where "F = (\<lambda>p. filter (\<lambda>it. fst it = p) items)"
  define f where "f = (\<lambda>tv :: int \<times> real. if fst tv - off = int k then snd tv else 0)"
  define S where "S = (\<lambda>ip. sum_list (map f
       (sent_to tdof_offsets (SubdomainGTrueDofs (procs (subdom_rank ip)) ip)
          (x (subdom_rank ip) ip) q)))"
  have res: "SubdomainsToGlobal num_procs nrsubdoms subdom_rank tdof_offsets procs x q uninit y =
             accumulate_received nrsubdoms subdom_rank rd rb off (SubdomainLTrueDofs (procs q)) y"
    by (simp add: SubdomainsToGlobal_def Let_def cnt_def sd_def sb_def rc_def rd_def rb_def off_def)
  have inside: "\<forall>it\<in>set items. nat (snd it - off) < length y"
    unfolding items_def off_def using recv_items_fit(2) [OF fit] by blast
  have above: "\<forall>it\<in>set items. off \<le> snd it"
    unfolding items_def off_def using recv_items_fit(1) [OF fit] by blast
  have ranks: "\<forall>it\<in>set items. fst it < num_procs"
    unfolding items_def by (rule recv_items_ranks [OF set_up])
  note v = gather_in_vector [where key = "\<lambda>t. nat (t - off)" and f = "\<lambda>j. y ! j"
      and buf = rb and displ = rd and offs = "\<lambda>_. 0", OF inside]
  have len: "length (accumulate_received nrsubdoms subdom_rank rd rb off
                       (SubdomainLTrueDofs (procs q)) y) = length y"
    unfolding accumulate_received_items items_def [symmetric] using v by simp
  have "accumulate_received nrsubdoms subdom_rank rd rb off (SubdomainLTrueDofs (procs q)) y ! k =
        fst (fold (\<lambda>it (y, offs).
                 (y(nat (snd it - off) := y (nat (snd it - off)) + rb (rd (fst it) + offs (fst it))),
                  offs(fst it := offs (fst it) + 1))) items (\<lambda>j. y ! j, \<lambda>_. 0)) k"
    unfolding accumulate_received_items items_def [symmetric] using v k by simp
  also have "\<dots> = y ! k + (\<Sum>p<num_procs. \<Sum>t<length (F p).
                    if nat (snd (F p ! t) - off) = k then rb (rd p + 0 + t) else 0)"
    unfolding F_def
    using gather_sum [OF ranks, where key = "\<lambda>t. nat (t - off)" and buf = rb and displ = rd
        and y = "\<lambda>j. y ! j" and offs = "\<lambda>_. 0" and k = k]
    by simp
  finally have g: "accumulate_received nrsubdoms subdom_rank rd rb off
                     (SubdomainLTrueDofs (procs q)) y ! k =
           y ! k + (\<Sum>p<num_procs. \<Sum>t<length (F p).
                    if nat (snd (F p ! t) - off) = k then rb (rd p + 0 + t) else 0)" .
  have inner: "(\<Sum>t<length (F p). if nat (snd (F p ! t) - off) = k then rb (rd p + 0 + t) else 0) =
               sum_list (map f (E p))" if p: "p < num_procs" for p
  proof -
    have Ep: "E p = exchanged nrsubdoms subdom_rank tdof_offsets
                      (SubdomainGTrueDofs (procs p)) (x p) p q"
      by (simp add: E_def)
    have Fp: "F p = filter (\<lambda>it. fst it = p)
                 (recv_items nrsubdoms subdom_rank (SubdomainLTrueDofs (procs q)))"
      by (simp add: F_def items_def)
    note blk = received_block [OF set_up q p cnt_def sd_def sb_def rc_def Ep Fp]
    have b1: "length (F p) = length (E p)" by (rule blk(1))
    have b2: "snd (F p ! t) = fst (E p ! t)" if "t < length (E p)" for t
      using that by (rule blk(2))
    have b3: "rb (rd p + t) = snd (E p ! t)" if "t < length (E p)" for t
      unfolding rb_def rd_def using that by (rule blk(3))
    have "(\<Sum>t<length (F p). if nat (snd (F p ! t) - off) = k then rb (rd p + 0 + t) else 0) =
          (\<Sum>t<length (E p). f (E p ! t))"
    proof (rule sum.cong)
      show "{..<length (F p)} = {..<length (E p)}" using b1 by simp
    next
      fix t assume "t \<in> {..<length (E p)}"
      then have t: "t < length (E p)" by simp
      with b1 have "F p ! t \<in> set (F p)" by simp
      then have "F p ! t \<in> set items" by (simp add: F_def)
      with above have "off \<le> snd (F p ! t)" by blast
      then have c: "(nat (snd (F p ! t) - off) = k) = (fst (E p ! t) - off = int k)"
        unfolding b2 [OF t] by auto
      show "(if nat (snd (F p ! t) - off) = k then rb (rd p + 0 + t) else 0) = f (E p ! t)"
        unfolding f_def c using b3 [OF t] by simp
    qed
    also have "\<dots> = sum_list (map f (E p))" by (rule sum_nth_list)
    finally show ?thesis .
  qed
  have owner: "\<forall>ip\<in>set [0..<nrsubdoms]. subdom_rank ip < num_procs"
    using bridges_set_up_facts(1) [OF set_up] by simp
  have "(\<Sum>p<num_procs. sum_list (map f (E p))) =
        (\<Sum>p<num_procs. sum_list (map (\<lambda>ip. if subdom_rank ip = p then S ip else 0)
                                   [0..<nrsubdoms]))"
  proof (rule sum.cong [OF refl])
    fix p
    have "sum_list (map f (E p)) =
          sum_list (map (\<lambda>ip. if subdom_rank ip = p
               then sum_list (map f (sent_to tdof_offsets (SubdomainGTrueDofs (procs p) ip)
                                       (x p ip) q))
               else 0) [0..<nrsubdoms])"
      unfolding E_def by (rule sum_list_exchanged)
    also have "\<dots> = sum_list (map (\<lambda>ip. if subdom_rank ip = p then S ip else 0) [0..<nrsubdoms])"
      by (rule arg_cong [where f = sum_list], rule map_cong [OF refl]) (simp add: S_def)
    finally show "sum_list (map f (E p)) =
          sum_list (map (\<lambda>ip. if subdom_rank ip = p then S ip else 0) [0..<nrsubdoms])" .
  qed
  also have "\<dots> = sum_list (map S [0..<nrsubdoms])"
    by (rule sum_by_owner [OF owner])
  also have "\<dots> = sum_list (contributions nrsubdoms subdom_rank tdof_offsets procs x q (int k))"
    unfolding S_def f_def off_def by (rule sum_list_contributions [symmetric])
  finally have total: "(\<Sum>p<num_procs. sum_list (map f (E p))) =
        sum_list (contributions nrsubdoms subdom_rank tdof_offsets procs x q (int k))" .
  have "(\<Sum>p<num_procs. \<Sum>t<length (F p).
            if nat (snd (F p ! t) - off) = k then rb (rd p + 0 + t) else 0) =
        (\<Sum>p<num_procs. sum_list (map f (E p)))"
    by (rule sum.cong [OF refl]) (simp add: inner)
  then have main: "SubdomainsToGlobal num_procs nrsubdoms subdom_rank tdof_offsets procs x q
                     uninit y ! k =
        y ! k + sum_list (contributions nrsubdoms subdom_rank tdof_offsets procs x q (int k))"
    unfolding res g total [symmetric] by simp
  show ?thesis
  proof (intro conjI allI impI)
    show "length (SubdomainsToGlobal num_procs nrsubdoms subdom_rank tdof_offsets procs x q
                   uninit y) = length y"
      unfolding res by (rule len)
  next
    show "SubdomainsToGlobal num_procs nrsubdoms subdom_rank tdof_offsets procs x q uninit y ! k =
        y ! k + sum_list (contributions nrsubdoms subdom_rank tdof_offsets procs x q (int k))"
      by (rule main)
  next
    fix c1 c2
    assume "contributions nrsubdoms subdom_rank tdof_offsets procs x q (int k) = [c1, c2]"
    then show "SubdomainsToGlobal num_procs nrsubdoms subdom_rank tdof_offsets procs x q uninit
                 y ! k = y ! k + (c1 + c2)"
      unfolding main by simp
  next
    assume "contributions nrsubdoms subdom_rank tdof_offsets procs x q (int k) = []"
    then show "SubdomainsToGlobal num_procs nrsubdoms subdom_rank tdof_offsets procs x q uninit
                 y ! k = y ! k"
      unfolding main by simp
  qed
qed

text \<open>
  An instance: two processes and two subdomains, subdomain \<open>ip\<close> owned by process \<open>ip\<close>. The
  global true dofs 0, 1, 2 belong to process 0 and 3, 4, 5 to process 1; subdomain 0 has
  the dofs 0 to 3 and subdomain 1 the dofs 2 to 5. The dof 2 of process 0 receives 3 from
  subdomain 0 and 10 from subdomain 1: its entry goes from 100 to 113.
\<close>

theorem SubdomainsToGlobal_accumulates_witness:
  "SubdomainsToGlobal 2 2 (\<lambda>ip. ip) [0, 3]
     (\<lambda>p. if p = 0
          then \<lparr>SubdomainGTrueDofs = \<lambda>ip. if ip = 0 then [0, 1, 2, 3] else [],
                SubdomainLTrueDofs = \<lambda>ip. if ip = 0 then [0, 1, 2] else [2], mytoffset = 0\<rparr>
          else \<lparr>SubdomainGTrueDofs = \<lambda>ip. if ip = 1 then [2, 3, 4, 5] else [],
                SubdomainLTrueDofs = \<lambda>ip. if ip = 0 then [3] else [3, 4, 5], mytoffset = 3\<rparr>)
     (\<lambda>p ip. if p = 0 then [1, 2, 3, 4] else [10, 20, 30, 40])
     0 (\<lambda>_. 77) [100, 100, 100] ! 2 = 100 + (3 + 10)"
proof -
  let ?procs = "\<lambda>p :: nat. if p = 0
          then \<lparr>SubdomainGTrueDofs = \<lambda>ip :: nat. if ip = 0 then [0, 1, 2, 3] else [],
                SubdomainLTrueDofs = \<lambda>ip :: nat. if ip = 0 then [0, 1, 2] else [2],
                mytoffset = 0\<rparr>
          else \<lparr>SubdomainGTrueDofs = \<lambda>ip. if ip = 1 then [2, 3, 4, 5] else [],
                SubdomainLTrueDofs = \<lambda>ip. if ip = 0 then [3] else [3, 4, 5], mytoffset = 3\<rparr>"
  let ?x = "\<lambda>(p :: nat) (ip :: nat). if p = 0 then [1, 2, 3, 4 :: real] else [10, 20, 30, 40]"
  let ?y = "[100, 100, 100 :: real]"
  have set_up: "bridges_set_up 2 2 (\<lambda>ip. ip) [0, 3] ?procs" by code_simp
  have q: "(0 :: nat) < 2" by simp
  have fit: "vectors_fit 2 (\<lambda>ip. ip) ?procs ?x 0 ?y" by code_simp
  have k: "2 < length ?y" by simp
  have c: "contributions 2 (\<lambda>ip. ip) [0, 3] ?procs ?x 0 (int 2) = [3, 10]" by code_simp
  from SubdomainsToGlobal_accumulates [OF set_up q fit k, of "\<lambda>_. 77"]
  have "\<forall>c1 c2. contributions 2 (\<lambda>ip. ip) [0, 3] ?procs ?x 0 (int 2) = [c1, c2] \<longrightarrow>
          SubdomainsToGlobal 2 2 (\<lambda>ip. ip) [0, 3] ?procs ?x 0 (\<lambda>_. 77) ?y ! 2 =
            ?y ! 2 + (c1 + c2)"
    by (elim conjE)
  with c have "SubdomainsToGlobal 2 2 (\<lambda>ip. ip) [0, 3] ?procs ?x 0 (\<lambda>_. 77) ?y ! 2 =
            ?y ! 2 + (3 + 10)"
    by blast
  then show ?thesis by simp
qed
section \<open>Sum factorisation equals the dense contraction\<close>

subsection \<open>Offsets of the tensor views\<close>

lemma idx2_inj:
  assumes "i < N" "i' < N" "idx2 N i j = idx2 N i' j'"
  shows "i = i' \<and> j = j'"
proof -
  from assms(3) have "(i + N * j) mod N = (i' + N * j') mod N"
    by (simp add: idx2_def)
  with assms(1,2) have i: "i = i'" by simp
  with assms(3) have "N * j = N * j'" by (simp add: idx2_def)
  with assms(1) have "j = j'" by simp
  with i show ?thesis by simp
qed

lemma idx3_idx2: "idx3 N0 N1 i0 i1 i2 = idx2 N0 i0 (idx2 N1 i1 i2)"
  by (simp add: idx3_def idx2_def)

lemma idx4_idx2: "idx4 N0 N1 N2 i0 i1 i2 i3 = idx2 N0 i0 (idx2 N1 i1 (idx2 N2 i2 i3))"
  by (simp add: idx4_def idx2_def)

lemma idx5_idx2:
  "idx5 N0 N1 N2 N3 i0 i1 i2 i3 i4 = idx2 N0 i0 (idx2 N1 i1 (idx2 N2 i2 (idx2 N3 i3 i4)))"
  by (simp add: idx5_def idx2_def)

lemma idx2_eq_iff:
  "i < N \<Longrightarrow> i' < N \<Longrightarrow> idx2 N i j = idx2 N i' j' \<longleftrightarrow> i = i' \<and> j = j'"
  using idx2_inj by blast

lemma idx3_eq_iff:
  "i0 < N0 \<Longrightarrow> j0 < N0 \<Longrightarrow> i1 < N1 \<Longrightarrow> j1 < N1 \<Longrightarrow>
   idx3 N0 N1 i0 i1 i2 = idx3 N0 N1 j0 j1 j2 \<longleftrightarrow> i0 = j0 \<and> i1 = j1 \<and> i2 = j2"
  by (simp add: idx3_idx2 idx2_eq_iff)

lemma idx4_eq_iff:
  "i0 < N0 \<Longrightarrow> j0 < N0 \<Longrightarrow> i1 < N1 \<Longrightarrow> j1 < N1 \<Longrightarrow> i2 < N2 \<Longrightarrow> j2 < N2 \<Longrightarrow>
   idx4 N0 N1 N2 i0 i1 i2 i3 = idx4 N0 N1 N2 j0 j1 j2 j3 \<longleftrightarrow>
   i0 = j0 \<and> i1 = j1 \<and> i2 = j2 \<and> i3 = j3"
  by (simp add: idx4_idx2 idx2_eq_iff)

lemma idx5_eq_iff:
  "i0 < N0 \<Longrightarrow> j0 < N0 \<Longrightarrow> i1 < N1 \<Longrightarrow> j1 < N1 \<Longrightarrow> i2 < N2 \<Longrightarrow> j2 < N2 \<Longrightarrow>
   i3 < N3 \<Longrightarrow> j3 < N3 \<Longrightarrow>
   idx5 N0 N1 N2 N3 i0 i1 i2 i3 i4 = idx5 N0 N1 N2 N3 j0 j1 j2 j3 j4 \<longleftrightarrow>
   i0 = j0 \<and> i1 = j1 \<and> i2 = j2 \<and> i3 = j3 \<and> i4 = j4"
  by (simp add: idx5_idx2 idx2_eq_iff)

subsection \<open>The accumulation loop is a sum\<close>

lemma fold_add_sum: "fold (\<lambda>i u. u + f i) [0..<n] (a::real) = a + sum f {..<n}"
  by (induction n) (simp_all add: lessThan_Suc add.assoc)

lemma accumulate_sum: "accumulate n f = sum f {..<n}"
  by (simp add: accumulate_def fold_add_sum)

subsection \<open>What each loop nest leaves in the array it writes\<close>

lemma load_B_hit:
  assumes "q < Q1D" "d < D1D"
  shows "load_B D1D Q1D b s_B (idx2 Q1D q d) = b (idx2 Q1D q d)"
  unfolding load_B_def
proof (rule fold_upd_hit [where k = d])
  show "d \<in> set [0..<D1D]" using assms by simp
next
  fix s
  show "fold (\<lambda>q B. B(idx2 Q1D q d := b (idx2 Q1D q d))) [0..<Q1D] s (idx2 Q1D q d) =
        b (idx2 Q1D q d)"
    by (rule fold_upd_hit [where k = q]) (use assms in \<open>auto simp: idx2_eq_iff\<close>)
next
  fix d' s
  assume "d' \<in> set [0..<D1D]" "d' \<noteq> d"
  then show "fold (\<lambda>q B. B(idx2 Q1D q d' := b (idx2 Q1D q d'))) [0..<Q1D] s (idx2 Q1D q d) =
        s (idx2 Q1D q d)"
    by (intro fold_upd_miss) (use assms in \<open>auto simp: idx2_eq_iff\<close>)
qed

lemma load_DD_hit:
  assumes "dx < D1D" "dy < D1D" "D1D \<le> MD1"
  shows "load_DD MD1 D1D VDIM x c e s_DD (idx2 MD1 dx dy) = x (idx4 D1D D1D VDIM dx dy c e)"
  unfolding load_DD_def
proof (rule fold_upd_hit [where k = dx])
  show "dx \<in> set [0..<D1D]" using assms by simp
next
  fix s
  show "fold (\<lambda>dy DD. DD(idx2 MD1 dx dy := x (idx4 D1D D1D VDIM dx dy c e))) [0..<D1D] s
          (idx2 MD1 dx dy) = x (idx4 D1D D1D VDIM dx dy c e)"
    by (rule fold_upd_hit [where k = dy]) (use assms in \<open>auto simp: idx2_eq_iff\<close>)
next
  fix dx' s
  assume "dx' \<in> set [0..<D1D]" "dx' \<noteq> dx"
  then show "fold (\<lambda>dy DD. DD(idx2 MD1 dx' dy := x (idx4 D1D D1D VDIM dx' dy c e))) [0..<D1D] s
          (idx2 MD1 dx dy) = s (idx2 MD1 dx dy)"
    by (intro fold_upd_miss) (use assms in \<open>auto simp: idx2_eq_iff\<close>)
qed

lemma contract_DQ_hit:
  assumes "dy < D1D" "qx < Q1D" "D1D \<le> MD1"
  shows "contract_DQ MD1 D1D Q1D B DD s_DQ (idx2 MD1 dy qx) =
         accumulate D1D (\<lambda>dx. B (idx2 Q1D qx dx) * DD (idx2 MD1 dx dy))"
  unfolding contract_DQ_def
proof (rule fold_upd_hit [where k = dy])
  show "dy \<in> set [0..<D1D]" using assms by simp
next
  fix s
  show "fold (\<lambda>qx DQ. DQ(idx2 MD1 dy qx :=
            accumulate D1D (\<lambda>dx. B (idx2 Q1D qx dx) * DD (idx2 MD1 dx dy)))) [0..<Q1D] s
          (idx2 MD1 dy qx) = accumulate D1D (\<lambda>dx. B (idx2 Q1D qx dx) * DD (idx2 MD1 dx dy))"
    by (rule fold_upd_hit [where k = qx]) (use assms in \<open>auto simp: idx2_eq_iff\<close>)
next
  fix dy' s
  assume "dy' \<in> set [0..<D1D]" "dy' \<noteq> dy"
  then show "fold (\<lambda>qx DQ. DQ(idx2 MD1 dy' qx :=
            accumulate D1D (\<lambda>dx. B (idx2 Q1D qx dx) * DD (idx2 MD1 dx dy')))) [0..<Q1D] s
          (idx2 MD1 dy qx) = s (idx2 MD1 dy qx)"
    by (intro fold_upd_miss) (use assms in \<open>auto simp: idx2_eq_iff\<close>)
qed

lemma contract_y2D_miss:
  assumes "\<forall>qx<Q1D. \<forall>qy<Q1D. p \<noteq> idx4 VDIM Q1D Q1D c qx qy e"
  shows "contract_y2D MD1 D1D Q1D VDIM B DQ c e y p = y p"
  unfolding contract_y2D_def
  by (intro fold_upd_miss) (use assms in auto)

lemma contract_y2D_hit:
  assumes "qx < Q1D" "qy < Q1D" "c < VDIM"
  shows "contract_y2D MD1 D1D Q1D VDIM B DQ c e y (idx4 VDIM Q1D Q1D c qx qy e) =
         accumulate D1D (\<lambda>dy. DQ (idx2 MD1 dy qx) * B (idx2 Q1D qy dy))"
  unfolding contract_y2D_def
proof (rule fold_upd_hit [where k = qy])
  show "qy \<in> set [0..<Q1D]" using assms by simp
next
  fix s
  show "fold (\<lambda>qx y. y(idx4 VDIM Q1D Q1D c qx qy e :=
            accumulate D1D (\<lambda>dy. DQ (idx2 MD1 dy qx) * B (idx2 Q1D qy dy)))) [0..<Q1D] s
          (idx4 VDIM Q1D Q1D c qx qy e) =
        accumulate D1D (\<lambda>dy. DQ (idx2 MD1 dy qx) * B (idx2 Q1D qy dy))"
    by (rule fold_upd_hit [where k = qx])
      (use assms in \<open>auto simp: idx4_eq_iff\<close>)
next
  fix qy' s
  assume "qy' \<in> set [0..<Q1D]" "qy' \<noteq> qy"
  then show "fold (\<lambda>qx y. y(idx4 VDIM Q1D Q1D c qx qy' e :=
            accumulate D1D (\<lambda>dy. DQ (idx2 MD1 dy qx) * B (idx2 Q1D qy' dy)))) [0..<Q1D] s
          (idx4 VDIM Q1D Q1D c qx qy e) = s (idx4 VDIM Q1D Q1D c qx qy e)"
    by (intro fold_upd_miss)
      (use assms in \<open>auto simp: idx4_eq_iff\<close>)
qed

subsection \<open>One component of one element, 2D\<close>

lemma factor2D_sum:
  fixes f h :: "nat \<Rightarrow> real" and g :: "nat \<Rightarrow> nat \<Rightarrow> real"
  shows "(\<Sum>dy<n. (\<Sum>dx<n. f dx * g dx dy) * h dy) = (\<Sum>dx<n. \<Sum>dy<n. f dx * h dy * g dx dy)"
proof -
  have "(\<Sum>dy<n. (\<Sum>dx<n. f dx * g dx dy) * h dy) = (\<Sum>dy<n. \<Sum>dx<n. f dx * h dy * g dx dy)"
    by (intro sum.cong refl) (simp add: sum_distrib_right sum_distrib_left mult_ac)
  also have "\<dots> = (\<Sum>dx<n. \<Sum>dy<n. f dx * h dy * g dx dy)"
    by (rule sum.swap)
  finally show ?thesis .
qed

lemma component2D_value:
  assumes "qx < Q1D" "qy < Q1D" "c < VDIM" "D1D \<le> MD1"
    and B: "\<forall>q<Q1D. \<forall>d<D1D. B (idx2 Q1D q d) = b (idx2 Q1D q d)"
  shows "contract_y2D MD1 D1D Q1D VDIM B
           (contract_DQ MD1 D1D Q1D B (load_DD MD1 D1D VDIM x c e s_DD) s_DQ) c e y
           (idx4 VDIM Q1D Q1D c qx qy e) = dense2D D1D Q1D VDIM b x c qx qy e"
proof -
  let ?DD = "load_DD MD1 D1D VDIM x c e s_DD"
  let ?DQ = "contract_DQ MD1 D1D Q1D B ?DD s_DQ"
  have DQ: "?DQ (idx2 MD1 dy qx) = (\<Sum>dx<D1D. b (idx2 Q1D qx dx) * x (idx4 D1D D1D VDIM dx dy c e))"
    if "dy < D1D" for dy
    using that assms(1,4)
    by (simp add: contract_DQ_hit accumulate_sum load_DD_hit B)
  have "contract_y2D MD1 D1D Q1D VDIM B ?DQ c e y (idx4 VDIM Q1D Q1D c qx qy e) =
        (\<Sum>dy<D1D. ?DQ (idx2 MD1 dy qx) * B (idx2 Q1D qy dy))"
    using assms(1-3) by (simp add: contract_y2D_hit accumulate_sum)
  also have "\<dots> = (\<Sum>dy<D1D. (\<Sum>dx<D1D. b (idx2 Q1D qx dx) * x (idx4 D1D D1D VDIM dx dy c e)) *
                      b (idx2 Q1D qy dy))"
    using assms(2) by (intro sum.cong) (simp_all add: DQ B)
  also have "\<dots> = dense2D D1D Q1D VDIM b x c qx qy e"
    unfolding dense2D_def by (rule factor2D_sum)
  finally show ?thesis .
qed

lemma element2D_hit:
  assumes "qx < Q1D" "qy < Q1D" "c < VDIM" "D1D \<le> MD1"
    and B: "\<forall>q<Q1D. \<forall>d<D1D. B (idx2 Q1D q d) = b (idx2 Q1D q d)"
  shows "snd (snd (fold (\<lambda>c (s_DD, s_DQ, y).
                let DD = load_DD MD1 D1D VDIM x c e s_DD;
                    DQ = contract_DQ MD1 D1D Q1D B DD s_DQ
                in (DD, DQ, contract_y2D MD1 D1D Q1D VDIM B DQ c e y))
              [0..<VDIM] s0)) (idx4 VDIM Q1D Q1D c qx qy e) =
         dense2D D1D Q1D VDIM b x c qx qy e"
proof (rule fold_steps_hit [where prj = "\<lambda>s. snd (snd s)" and k = c])
  show "c \<in> set [0..<VDIM]" using assms(3) by simp
next
  fix s :: "darray \<times> darray \<times> darray"
  obtain s_DD s_DQ y where s: "s = (s_DD, s_DQ, y)" by (cases s)
  show "snd (snd ((case s of (s_DD, s_DQ, y) \<Rightarrow>
                let DD = load_DD MD1 D1D VDIM x c e s_DD;
                    DQ = contract_DQ MD1 D1D Q1D B DD s_DQ
                in (DD, DQ, contract_y2D MD1 D1D Q1D VDIM B DQ c e y))))
          (idx4 VDIM Q1D Q1D c qx qy e) = dense2D D1D Q1D VDIM b x c qx qy e"
    unfolding s using component2D_value [OF assms(1-4) B] by (simp add: Let_def)
next
  fix c' and s :: "darray \<times> darray \<times> darray"
  assume c': "c' \<in> set [0..<VDIM]" "c' \<noteq> c"
  obtain s_DD s_DQ y where s: "s = (s_DD, s_DQ, y)" by (cases s)
  show "snd (snd ((case s of (s_DD, s_DQ, y) \<Rightarrow>
                let DD = load_DD MD1 D1D VDIM x c' e s_DD;
                    DQ = contract_DQ MD1 D1D Q1D B DD s_DQ
                in (DD, DQ, contract_y2D MD1 D1D Q1D VDIM B DQ c' e y))))
          (idx4 VDIM Q1D Q1D c qx qy e) = snd (snd s) (idx4 VDIM Q1D Q1D c qx qy e)"
    unfolding s using c' assms(1-3)
    by (simp add: Let_def contract_y2D_miss idx4_eq_iff)
qed

lemma element2D_miss:
  assumes "e' \<noteq> e" "qx < Q1D" "qy < Q1D" "c < VDIM"
  shows "snd (snd (fold (\<lambda>c (s_DD, s_DQ, y).
                let DD = load_DD MD1 D1D VDIM x c e' s_DD;
                    DQ = contract_DQ MD1 D1D Q1D B DD s_DQ
                in (DD, DQ, contract_y2D MD1 D1D Q1D VDIM B DQ c e' y))
              [0..<VDIM] s0)) (idx4 VDIM Q1D Q1D c qx qy e) =
         snd (snd s0) (idx4 VDIM Q1D Q1D c qx qy e)"
proof (rule fold_steps_miss [where prj = "\<lambda>s. snd (snd s)"])
  fix c' and s :: "darray \<times> darray \<times> darray"
  assume c': "c' \<in> set [0..<VDIM]"
  obtain s_DD s_DQ y where s: "s = (s_DD, s_DQ, y)" by (cases s)
  show "snd (snd ((case s of (s_DD, s_DQ, y) \<Rightarrow>
                let DD = load_DD MD1 D1D VDIM x c' e' s_DD;
                    DQ = contract_DQ MD1 D1D Q1D B DD s_DQ
                in (DD, DQ, contract_y2D MD1 D1D Q1D VDIM B DQ c' e' y))))
          (idx4 VDIM Q1D Q1D c qx qy e) = snd (snd s) (idx4 VDIM Q1D Q1D c qx qy e)"
    unfolding s using c' assms
    by (simp add: Let_def contract_y2D_miss idx4_eq_iff)
qed

lemma EvalByVDim2D_dense:
  assumes "D1D = (if T_D1D \<noteq> 0 then T_D1D else d1d)"
    and "Q1D = (if T_Q1D \<noteq> 0 then T_Q1D else q1d)"
    and "VDIM = (if T_VDIM \<noteq> 0 then T_VDIM else vdim)"
    and "T_D1D = 0 \<longrightarrow> d1d \<le> MAX_D1D"
    and "e < NE" "c < VDIM" "qx < Q1D" "qy < Q1D"
  shows "EvalByVDim2D T_VDIM T_D1D T_Q1D T_NBZ MAX_D1D MAX_Q1D uninit NE b x y0 vdim d1d q1d
           (idx4 VDIM Q1D Q1D c qx qy e) = dense2D D1D Q1D VDIM b x c qx qy e"
proof -
  define MD1 where "MD1 = (if T_D1D \<noteq> 0 then T_D1D else MAX_D1D)"
  define MQ1 where "MQ1 = (if T_Q1D \<noteq> 0 then T_Q1D else MAX_Q1D)"
  have le: "D1D \<le> MD1" using assms(1,4) by (simp add: MD1_def)
  define step where "step = (\<lambda>e y.
           let B = load_B D1D Q1D b uninit
           in snd (snd (fold (\<lambda>c (s_DD, s_DQ, y).
                let DD = load_DD MD1 D1D VDIM x c e s_DD;
                    DQ = contract_DQ MD1 D1D Q1D B DD s_DQ
                in (DD, DQ, contract_y2D MD1 D1D Q1D VDIM B DQ c e y))
              [0..<VDIM] (uninit, uninit, y))))"
  have unfold: "EvalByVDim2D T_VDIM T_D1D T_Q1D T_NBZ MAX_D1D MAX_Q1D uninit NE b x y0 vdim d1d q1d
      = fold step [0..<NE] y0"
    unfolding EvalByVDim2D_def step_def Let_def MD1_def assms(1-3) by (rule refl)
  have "fold step [0..<NE] y0 (idx4 VDIM Q1D Q1D c qx qy e) = dense2D D1D Q1D VDIM b x c qx qy e"
  proof (rule fold_upd_hit [where k = e])
    show "e \<in> set [0..<NE]" using assms(5) by simp
  next
    fix y
    show "step e y (idx4 VDIM Q1D Q1D c qx qy e) = dense2D D1D Q1D VDIM b x c qx qy e"
      unfolding step_def Let_def
      by (rule element2D_hit [unfolded Let_def, OF assms(7,8,6) le]) (simp add: load_B_hit)
  next
    fix e' y
    assume "e' \<in> set [0..<NE]" "e' \<noteq> e"
    then show "step e' y (idx4 VDIM Q1D Q1D c qx qy e) = y (idx4 VDIM Q1D Q1D c qx qy e)"
      unfolding step_def Let_def
      using element2D_miss [unfolded Let_def, OF _ assms(7,8,6), of e' e] by simp
  qed
  with unfold show ?thesis by simp
qed

subsection \<open>The loop nests of the 3D kernel\<close>

lemma load_DDD_hit:
  assumes "dx < D1D" "dy < D1D" "dz < D1D" "D1D \<le> MD1"
  shows "load_DDD MD1 D1D VDIM x c e sm0 (idx3 MD1 MD1 dx dy dz) =
         x (idx5 D1D D1D D1D VDIM dx dy dz c e)"
  unfolding load_DDD_def
  by (rule fold3_upd_hit [where g = "\<lambda>dz dy dx. idx3 MD1 MD1 dx dy dz"
        and w = "\<lambda>dz dy dx. x (idx5 D1D D1D D1D VDIM dx dy dz c e)"])
    (use assms in \<open>auto simp: idx3_eq_iff\<close>)

lemma contract_DDQ_hit:
  assumes "dz < D1D" "dy < D1D" "qx < Q1D" "D1D \<le> MD1"
  shows "contract_DDQ MD1 D1D Q1D B sm0 sm1 (idx3 MD1 MD1 dz dy qx) =
         accumulate D1D (\<lambda>dx. B (idx2 Q1D qx dx) * sm0 (idx3 MD1 MD1 dx dy dz))"
  unfolding contract_DDQ_def
  by (rule fold3_upd_hit [where g = "\<lambda>dz dy qx. idx3 MD1 MD1 dz dy qx"
        and w = "\<lambda>dz dy qx. accumulate D1D
                   (\<lambda>dx. B (idx2 Q1D qx dx) * sm0 (idx3 MD1 MD1 dx dy dz))"])
    (use assms in \<open>auto simp: idx3_eq_iff\<close>)

lemma contract_DQQ_hit:
  assumes "dz < D1D" "qy < Q1D" "qx < Q1D" "D1D \<le> MD1" "Q1D \<le> MQ1"
  shows "contract_DQQ MD1 MQ1 D1D Q1D B sm1 sm0 (idx3 MD1 MQ1 dz qy qx) =
         accumulate D1D (\<lambda>dy. sm1 (idx3 MD1 MD1 dz dy qx) * B (idx2 Q1D qy dy))"
  unfolding contract_DQQ_def
  by (rule fold3_upd_hit [where g = "\<lambda>dz qy qx. idx3 MD1 MQ1 dz qy qx"
        and w = "\<lambda>dz qy qx. accumulate D1D
                   (\<lambda>dy. sm1 (idx3 MD1 MD1 dz dy qx) * B (idx2 Q1D qy dy))"])
    (use assms in \<open>auto simp: idx3_eq_iff\<close>)

lemma contract_y3D_miss:
  assumes "\<forall>qx<Q1D. \<forall>qy<Q1D. \<forall>qz<Q1D. p \<noteq> idx5 VDIM Q1D Q1D Q1D c qx qy qz e"
  shows "contract_y3D MD1 MQ1 D1D Q1D VDIM B sm0 c e y p = y p"
  unfolding contract_y3D_def
  by (rule fold3_upd_miss) (use assms in auto)

lemma contract_y3D_hit:
  assumes "qx < Q1D" "qy < Q1D" "qz < Q1D" "c < VDIM"
  shows "contract_y3D MD1 MQ1 D1D Q1D VDIM B sm0 c e y (idx5 VDIM Q1D Q1D Q1D c qx qy qz e) =
         accumulate D1D (\<lambda>dz. sm0 (idx3 MD1 MQ1 dz qy qx) * B (idx2 Q1D qz dz))"
  unfolding contract_y3D_def
  by (rule fold3_upd_hit [where g = "\<lambda>qz qy qx. idx5 VDIM Q1D Q1D Q1D c qx qy qz e"
        and w = "\<lambda>qz qy qx. accumulate D1D
                   (\<lambda>dz. sm0 (idx3 MD1 MQ1 dz qy qx) * B (idx2 Q1D qz dz))"])
    (use assms in \<open>auto simp: idx5_eq_iff\<close>)

subsection \<open>One component of one element, 3D\<close>

lemma factor3D_sum:
  fixes f h k :: "nat \<Rightarrow> real" and g :: "nat \<Rightarrow> nat \<Rightarrow> nat \<Rightarrow> real"
  shows "(\<Sum>dz<n. (\<Sum>dy<n. (\<Sum>dx<n. f dx * g dx dy dz) * h dy) * k dz) =
         (\<Sum>dx<n. \<Sum>dy<n. \<Sum>dz<n. f dx * h dy * k dz * g dx dy dz)"
proof -
  let ?T = "\<lambda>dx dy dz. f dx * h dy * k dz * g dx dy dz"
  have "(\<Sum>dz<n. (\<Sum>dy<n. (\<Sum>dx<n. f dx * g dx dy dz) * h dy) * k dz) =
        (\<Sum>dz<n. \<Sum>dy<n. \<Sum>dx<n. ?T dx dy dz)"
    by (intro sum.cong refl) (simp add: sum_distrib_right sum_distrib_left mult_ac)
  also have "\<dots> = (\<Sum>dz<n. \<Sum>dx<n. \<Sum>dy<n. ?T dx dy dz)"
    by (intro sum.cong refl sum.swap)
  also have "\<dots> = (\<Sum>dx<n. \<Sum>dz<n. \<Sum>dy<n. ?T dx dy dz)"
    by (rule sum.swap)
  also have "\<dots> = (\<Sum>dx<n. \<Sum>dy<n. \<Sum>dz<n. ?T dx dy dz)"
    by (intro sum.cong refl sum.swap)
  finally show ?thesis .
qed

lemma component3D_value:
  assumes "qx < Q1D" "qy < Q1D" "qz < Q1D" "c < VDIM" "D1D \<le> MD1" "Q1D \<le> MQ1"
    and B: "\<forall>q<Q1D. \<forall>d<D1D. B (idx2 Q1D q d) = b (idx2 Q1D q d)"
  shows "contract_y3D MD1 MQ1 D1D Q1D VDIM B
           (contract_DQQ MD1 MQ1 D1D Q1D B
              (contract_DDQ MD1 D1D Q1D B (load_DDD MD1 D1D VDIM x c e sm0) sm1)
              (load_DDD MD1 D1D VDIM x c e sm0)) c e y
           (idx5 VDIM Q1D Q1D Q1D c qx qy qz e) = dense3D D1D Q1D VDIM b x c qx qy qz e"
proof -
  let ?DDD = "load_DDD MD1 D1D VDIM x c e sm0"
  let ?DDQ = "contract_DDQ MD1 D1D Q1D B ?DDD sm1"
  let ?DQQ = "contract_DQQ MD1 MQ1 D1D Q1D B ?DDQ ?DDD"
  have DDQ: "?DDQ (idx3 MD1 MD1 dz dy qx) =
      (\<Sum>dx<D1D. b (idx2 Q1D qx dx) * x (idx5 D1D D1D D1D VDIM dx dy dz c e))"
    if "dz < D1D" "dy < D1D" for dz dy
    using that assms(1,5) B
    by (simp add: contract_DDQ_hit accumulate_sum load_DDD_hit)
  have DQQ: "?DQQ (idx3 MD1 MQ1 dz qy qx) =
      (\<Sum>dy<D1D. (\<Sum>dx<D1D. b (idx2 Q1D qx dx) * x (idx5 D1D D1D D1D VDIM dx dy dz c e)) *
                  b (idx2 Q1D qy dy))"
    if "dz < D1D" for dz
    using that assms(1,2,5,6) B
    by (simp add: contract_DQQ_hit accumulate_sum DDQ)
  have "contract_y3D MD1 MQ1 D1D Q1D VDIM B ?DQQ c e y (idx5 VDIM Q1D Q1D Q1D c qx qy qz e) =
        (\<Sum>dz<D1D. ?DQQ (idx3 MD1 MQ1 dz qy qx) * B (idx2 Q1D qz dz))"
    using assms(1-4) by (simp add: contract_y3D_hit accumulate_sum)
  also have "\<dots> = (\<Sum>dz<D1D. (\<Sum>dy<D1D.
        (\<Sum>dx<D1D. b (idx2 Q1D qx dx) * x (idx5 D1D D1D D1D VDIM dx dy dz c e)) *
                  b (idx2 Q1D qy dy)) * b (idx2 Q1D qz dz))"
    using assms(3) B by (intro sum.cong) (simp_all add: DQQ)
  also have "\<dots> = dense3D D1D Q1D VDIM b x c qx qy qz e"
    unfolding dense3D_def by (rule factor3D_sum)
  finally show ?thesis .
qed

lemma element3D_hit:
  assumes "qx < Q1D" "qy < Q1D" "qz < Q1D" "c < VDIM" "D1D \<le> MD1" "Q1D \<le> MQ1"
    and B: "\<forall>q<Q1D. \<forall>d<D1D. B (idx2 Q1D q d) = b (idx2 Q1D q d)"
  shows "snd (snd (fold (\<lambda>c (sm0, sm1, y).
                let sm0 = load_DDD MD1 D1D VDIM x c e sm0;
                    sm1 = contract_DDQ MD1 D1D Q1D B sm0 sm1;
                    sm0 = contract_DQQ MD1 MQ1 D1D Q1D B sm1 sm0
                in (sm0, sm1, contract_y3D MD1 MQ1 D1D Q1D VDIM B sm0 c e y))
              [0..<VDIM] s0)) (idx5 VDIM Q1D Q1D Q1D c qx qy qz e) =
         dense3D D1D Q1D VDIM b x c qx qy qz e"
proof (rule fold_steps_hit [where prj = "\<lambda>s. snd (snd s)" and k = c])
  show "c \<in> set [0..<VDIM]" using assms(4) by simp
next
  fix s :: "darray \<times> darray \<times> darray"
  obtain sm0 sm1 y where s: "s = (sm0, sm1, y)" by (cases s)
  show "snd (snd ((case s of (sm0, sm1, y) \<Rightarrow>
                let sm0 = load_DDD MD1 D1D VDIM x c e sm0;
                    sm1 = contract_DDQ MD1 D1D Q1D B sm0 sm1;
                    sm0 = contract_DQQ MD1 MQ1 D1D Q1D B sm1 sm0
                in (sm0, sm1, contract_y3D MD1 MQ1 D1D Q1D VDIM B sm0 c e y))))
          (idx5 VDIM Q1D Q1D Q1D c qx qy qz e) = dense3D D1D Q1D VDIM b x c qx qy qz e"
    unfolding s using component3D_value [OF assms(1-6) B] by (simp add: Let_def)
next
  fix c' and s :: "darray \<times> darray \<times> darray"
  assume c': "c' \<in> set [0..<VDIM]" "c' \<noteq> c"
  obtain sm0 sm1 y where s: "s = (sm0, sm1, y)" by (cases s)
  show "snd (snd ((case s of (sm0, sm1, y) \<Rightarrow>
                let sm0 = load_DDD MD1 D1D VDIM x c' e sm0;
                    sm1 = contract_DDQ MD1 D1D Q1D B sm0 sm1;
                    sm0 = contract_DQQ MD1 MQ1 D1D Q1D B sm1 sm0
                in (sm0, sm1, contract_y3D MD1 MQ1 D1D Q1D VDIM B sm0 c' e y))))
          (idx5 VDIM Q1D Q1D Q1D c qx qy qz e) =
        snd (snd s) (idx5 VDIM Q1D Q1D Q1D c qx qy qz e)"
    unfolding s using c' assms(1-4)
    by (simp add: Let_def contract_y3D_miss idx5_eq_iff)
qed

lemma element3D_miss:
  assumes "e' \<noteq> e" "qx < Q1D" "qy < Q1D" "qz < Q1D" "c < VDIM"
  shows "snd (snd (fold (\<lambda>c (sm0, sm1, y).
                let sm0 = load_DDD MD1 D1D VDIM x c e' sm0;
                    sm1 = contract_DDQ MD1 D1D Q1D B sm0 sm1;
                    sm0 = contract_DQQ MD1 MQ1 D1D Q1D B sm1 sm0
                in (sm0, sm1, contract_y3D MD1 MQ1 D1D Q1D VDIM B sm0 c e' y))
              [0..<VDIM] s0)) (idx5 VDIM Q1D Q1D Q1D c qx qy qz e) =
         snd (snd s0) (idx5 VDIM Q1D Q1D Q1D c qx qy qz e)"
proof (rule fold_steps_miss [where prj = "\<lambda>s. snd (snd s)"])
  fix c' and s :: "darray \<times> darray \<times> darray"
  assume c': "c' \<in> set [0..<VDIM]"
  obtain sm0 sm1 y where s: "s = (sm0, sm1, y)" by (cases s)
  show "snd (snd ((case s of (sm0, sm1, y) \<Rightarrow>
                let sm0 = load_DDD MD1 D1D VDIM x c' e' sm0;
                    sm1 = contract_DDQ MD1 D1D Q1D B sm0 sm1;
                    sm0 = contract_DQQ MD1 MQ1 D1D Q1D B sm1 sm0
                in (sm0, sm1, contract_y3D MD1 MQ1 D1D Q1D VDIM B sm0 c' e' y))))
          (idx5 VDIM Q1D Q1D Q1D c qx qy qz e) =
        snd (snd s) (idx5 VDIM Q1D Q1D Q1D c qx qy qz e)"
    unfolding s using c' assms
    by (simp add: Let_def contract_y3D_miss idx5_eq_iff)
qed

lemma EvalByVDim3D_dense:
  assumes "D1D = (if T_D1D \<noteq> 0 then T_D1D else d1d)"
    and "Q1D = (if T_Q1D \<noteq> 0 then T_Q1D else q1d)"
    and "VDIM = (if T_VDIM \<noteq> 0 then T_VDIM else vdim)"
    and "T_D1D = 0 \<longrightarrow> d1d \<le> MAX_D1D" "T_Q1D = 0 \<longrightarrow> q1d \<le> MAX_Q1D"
    and "e < NE" "c < VDIM" "qx < Q1D" "qy < Q1D" "qz < Q1D"
  shows "EvalByVDim3D T_VDIM T_D1D T_Q1D MAX_D1D MAX_Q1D uninit NE b x y0 vdim d1d q1d
           (idx5 VDIM Q1D Q1D Q1D c qx qy qz e) = dense3D D1D Q1D VDIM b x c qx qy qz e"
proof -
  define MD1 where "MD1 = (if T_D1D \<noteq> 0 then T_D1D else MAX_D1D)"
  define MQ1 where "MQ1 = (if T_Q1D \<noteq> 0 then T_Q1D else MAX_Q1D)"
  have le: "D1D \<le> MD1" "Q1D \<le> MQ1" using assms(1,2,4,5) by (simp_all add: MD1_def MQ1_def)
  define step where "step = (\<lambda>e y.
           let B = load_B D1D Q1D b uninit
           in snd (snd (fold (\<lambda>c (sm0, sm1, y).
                let sm0 = load_DDD MD1 D1D VDIM x c e sm0;
                    sm1 = contract_DDQ MD1 D1D Q1D B sm0 sm1;
                    sm0 = contract_DQQ MD1 MQ1 D1D Q1D B sm1 sm0
                in (sm0, sm1, contract_y3D MD1 MQ1 D1D Q1D VDIM B sm0 c e y))
              [0..<VDIM] (uninit, uninit, y))))"
  have unfold: "EvalByVDim3D T_VDIM T_D1D T_Q1D MAX_D1D MAX_Q1D uninit NE b x y0 vdim d1d q1d
      = fold step [0..<NE] y0"
    unfolding EvalByVDim3D_def step_def Let_def MD1_def MQ1_def assms(1-3) by (rule refl)
  have "fold step [0..<NE] y0 (idx5 VDIM Q1D Q1D Q1D c qx qy qz e) =
        dense3D D1D Q1D VDIM b x c qx qy qz e"
  proof (rule fold_upd_hit [where k = e])
    show "e \<in> set [0..<NE]" using assms(6) by simp
  next
    fix y
    show "step e y (idx5 VDIM Q1D Q1D Q1D c qx qy qz e) = dense3D D1D Q1D VDIM b x c qx qy qz e"
      unfolding step_def Let_def
      by (rule element3D_hit [unfolded Let_def, OF assms(8,9,10,7) le]) (simp add: load_B_hit)
  next
    fix e' y
    assume "e' \<in> set [0..<NE]" "e' \<noteq> e"
    then show "step e' y (idx5 VDIM Q1D Q1D Q1D c qx qy qz e) =
               y (idx5 VDIM Q1D Q1D Q1D c qx qy qz e)"
      unfolding step_def Let_def
      using element3D_miss [unfolded Let_def, OF _ assms(8,9,10,7), of e' e] by simp
  qed
  with unfold show ?thesis by simp
qed

text \<open>
  Claim C7. In exact arithmetic, every output entry of the two sum-factorised kernels is the
  dense tensor-product contraction of the inputs: for each element \<open>e < NE\<close>, component
  \<open>c < VDIM\<close> and quadrature point, \<open>y(c,qx,qy,e)\<close> after \<open>EvalByVDim2D\<close> is the double
  sum over \<open>dx, dy\<close> of \<open>b(qx,dx) * b(qy,dy) * x(dx,dy,c,e)\<close>, and \<open>y(c,qx,qy,qz,e)\<close>
  after \<open>EvalByVDim3D\<close> is the triple sum over \<open>dx, dy, dz\<close> of
  \<open>b(qx,dx) * b(qy,dy) * b(qz,dz) * x(dx,dy,dz,c,e)\<close>. The sizes are the template
  arguments where those are non-zero and the run-time arguments otherwise; run-time sizes
  fit the scratch arrays (\<open>d1d \<le> MAX_D1D\<close>, \<open>q1d \<le> MAX_Q1D\<close>). Neither the previous
  content of the output nor the uninitialised scratch content matters.
\<close>

theorem sum_factorization_is_dense_contraction:
  assumes "D1D = (if T_D1D \<noteq> 0 then T_D1D else d1d)"
    and "Q1D = (if T_Q1D \<noteq> 0 then T_Q1D else q1d)"
    and "VDIM = (if T_VDIM \<noteq> 0 then T_VDIM else vdim)"
    and "T_D1D = 0 \<longrightarrow> d1d \<le> MAX_D1D" "T_Q1D = 0 \<longrightarrow> q1d \<le> MAX_Q1D"
    and "e < NE" "c < VDIM" "qx < Q1D" "qy < Q1D"
  shows "EvalByVDim2D T_VDIM T_D1D T_Q1D T_NBZ MAX_D1D MAX_Q1D uninit NE b x y0 vdim d1d q1d
           (idx4 VDIM Q1D Q1D c qx qy e) =
         (\<Sum>dx<D1D. \<Sum>dy<D1D.
            b (idx2 Q1D qx dx) * b (idx2 Q1D qy dy) * x (idx4 D1D D1D VDIM dx dy c e)) \<and>
         (\<forall>qz<Q1D.
           EvalByVDim3D T_VDIM T_D1D T_Q1D MAX_D1D MAX_Q1D uninit NE b x y0 vdim d1d q1d
             (idx5 VDIM Q1D Q1D Q1D c qx qy qz e) =
           (\<Sum>dx<D1D. \<Sum>dy<D1D. \<Sum>dz<D1D.
              b (idx2 Q1D qx dx) * b (idx2 Q1D qy dy) * b (idx2 Q1D qz dz) *
              x (idx5 D1D D1D D1D VDIM dx dy dz c e)))"
  using EvalByVDim2D_dense [OF assms(1-4,6-9)] EvalByVDim3D_dense [OF assms]
  by (simp add: dense2D_def dense3D_def)

theorem sum_factorization_is_dense_contraction_witness:
  "(2::nat) \<le> 8 \<and> (0::nat) < 1 \<and> (1::nat) < 2 \<and>
   EvalByVDim2D 0 0 0 0 8 8 (\<lambda>_. 0) 1 real (\<lambda>_. 1) (\<lambda>_. 0) 1 2 2 (idx4 1 2 2 0 1 1 0) =
     (\<Sum>dx<2. \<Sum>dy<2. real (idx2 2 1 dx) * real (idx2 2 1 dy) * 1) \<and>
   EvalByVDim3D 0 0 0 8 8 (\<lambda>_. 0) 1 real (\<lambda>_. 1) (\<lambda>_. 0) 1 2 2 (idx5 1 2 2 2 0 1 1 1 0) =
     (\<Sum>dx<2. \<Sum>dy<2. \<Sum>dz<2.
        real (idx2 2 1 dx) * real (idx2 2 1 dy) * real (idx2 2 1 dz) * 1)"
proof -
  have both:
    "EvalByVDim2D 0 0 0 0 8 8 (\<lambda>_. 0) 1 real (\<lambda>_. 1) (\<lambda>_. 0) 1 2 2 (idx4 1 2 2 0 1 1 0) =
       (\<Sum>dx<2. \<Sum>dy<2. real (idx2 2 1 dx) * real (idx2 2 1 dy) * 1) \<and>
     (\<forall>qz<2. EvalByVDim3D 0 0 0 8 8 (\<lambda>_. 0) 1 real (\<lambda>_. 1) (\<lambda>_. 0) 1 2 2
                (idx5 1 2 2 2 0 1 1 qz 0) =
              (\<Sum>dx<2. \<Sum>dy<2. \<Sum>dz<2.
                 real (idx2 2 1 dx) * real (idx2 2 1 dy) * real (idx2 2 qz dz) * 1))"
    by (rule sum_factorization_is_dense_contraction [where D1D = 2 and T_D1D = 0 and d1d = 2
          and Q1D = 2 and T_Q1D = 0 and q1d = 2 and VDIM = 1 and T_VDIM = 0 and vdim = 1
          and MAX_D1D = 8 and MAX_Q1D = 8 and e = 0 and NE = 1 and c = 0 and qx = 1 and qy = 1
          and T_NBZ = 0 and uninit = "\<lambda>_. 0" and b = real and x = "\<lambda>_. 1"
          and ?y0.0 = "\<lambda>_. 0"]) simp_all
  from both have "EvalByVDim3D 0 0 0 8 8 (\<lambda>_. 0) 1 real (\<lambda>_. 1) (\<lambda>_. 0) 1 2 2
                (idx5 1 2 2 2 0 1 1 1 0) =
              (\<Sum>dx<2. \<Sum>dy<2. \<Sum>dz<2.
                 real (idx2 2 1 dx) * real (idx2 2 1 dy) * real (idx2 2 1 dz) * 1)"
    by (elim conjE allE [where x = 1], elim impE) simp_all
  with both show ?thesis by simp
qed

section \<open>The generic fallback of the kernel dispatch\<close>




section \<open>Element-local mass of the rescaled fluxes\<close>

lemma element_flux_sum_rescaled:
  assumes "\<forall>k<GetNE ev. GetDof ev k = nd" "k < GetNE ev"
    and "dt ev \<noteq> 0" "\<forall>j<nd. lumpedM ev (k * nd + j) \<noteq> 0"
    and "clip_loop ev x yH yL k nd = (uClipped, fClipped, sumPos, sumNeg)"
  shows "element_flux_sum ev yL (ComputeFCTSolution ev x yH yL y) k nd =
         (\<Sum>j<nd. rescaled sumPos sumNeg (fClipped j))"
    and "sumPos = (\<Sum>j<nd. max (fClipped j) 0)"
    and "sumNeg = (\<Sum>j<nd. min (fClipped j) 0)"
proof -
  from assms(5) have fC: "fClipped = (\<lambda>j. if j < nd then fClipped_at ev x yH yL (k * nd + j) else 0)"
    and sP: "sumPos = (\<Sum>j<nd. max (fClipped_at ev x yH yL (k * nd + j)) 0)"
    and sN: "sumNeg = (\<Sum>j<nd. min (fClipped_at ev x yH yL (k * nd + j)) 0)"
    by (simp_all add: clip_loop_eq)
  show "sumPos = (\<Sum>j<nd. max (fClipped j) 0)"
    unfolding sP fC by (rule sum.cong) simp_all
  show "sumNeg = (\<Sum>j<nd. min (fClipped j) 0)"
    unfolding sN fC by (rule sum.cong) simp_all
  show "element_flux_sum ev yL (ComputeFCTSolution ev x yH yL y) k nd =
         (\<Sum>j<nd. rescaled sumPos sumNeg (fClipped j))"
    unfolding element_flux_sum_def
  proof (rule sum.cong)
    fix j assume "j \<in> {..<nd}"
    then have j: "j < nd" by simp
    then have nz: "dt ev * lumpedM ev (k * nd + j) \<noteq> 0" using assms(3,4) by simp
    have "ComputeFCTSolution ev x yH yL y (k * nd + j) - yL (k * nd + j) =
          rescaled sumPos sumNeg (fClipped j) / (dt ev * lumpedM ev (k * nd + j))"
      using ComputeFCTSolution_node [OF assms(1,2) j, of x yH yL y] j
      by (simp add: sP sN fC)
    then show "lumpedM ev (k * nd + j) * dt ev *
            (ComputeFCTSolution ev x yH yL y (k * nd + j) - yL (k * nd + j)) =
          rescaled sumPos sumNeg (fClipped j)"
      using nz by (simp add: mult.commute)
  qed simp
qed

text \<open>
  With more positive than negative flux, the rescaling leaves untouched the positive
  fluxes that are at most \<open>eps\<close>; the sum of the rescaled fluxes is a fraction of the sum
  of those. Symmetrically with more negative flux.
\<close>

lemma rescaled_sum_pos:
  fixes f :: "nat \<Rightarrow> real"
  assumes "sumPos = (\<Sum>j<n. max (f j) 0)" "sumNeg = (\<Sum>j<n. min (f j) 0)"
    and "sumPos + sumNeg > fct_eps"
  shows "(\<Sum>j<n. rescaled sumPos sumNeg (f j)) =
         (1 + sumNeg / sumPos) * (\<Sum>j<n. if 0 < f j \<and> f j \<le> fct_eps then f j else 0)"
proof -
  define c where "c = - sumNeg / sumPos"
  have "sumNeg \<le> 0" unfolding assms(2) by (rule sum_min_nonpos)
  with assms(3) fct_eps_pos have pos: "0 < sumPos" by linarith
  have pt: "rescaled sumPos sumNeg v =
        c * max v 0 + min v 0 + (1 - c) * (if 0 < v \<and> v \<le> fct_eps then v else 0)" for v
    using assms(3) fct_eps_pos by (auto simp: rescaled_def c_def algebra_simps)
  have "(\<Sum>j<n. rescaled sumPos sumNeg (f j)) =
        c * (\<Sum>j<n. max (f j) 0) + (\<Sum>j<n. min (f j) 0) +
        (1 - c) * (\<Sum>j<n. if 0 < f j \<and> f j \<le> fct_eps then f j else 0)"
    by (simp only: pt sum.distrib sum_distrib_left)
  then have "(\<Sum>j<n. rescaled sumPos sumNeg (f j)) =
        c * sumPos + sumNeg + (1 - c) * (\<Sum>j<n. if 0 < f j \<and> f j \<le> fct_eps then f j else 0)"
    by (simp only: assms(1,2))
  also have "c * sumPos = - sumNeg" using pos by (simp add: c_def)
  finally show ?thesis by (simp add: c_def)
qed

lemma rescaled_sum_neg:
  fixes f :: "nat \<Rightarrow> real"
  assumes "sumPos = (\<Sum>j<n. max (f j) 0)" "sumNeg = (\<Sum>j<n. min (f j) 0)"
    and "sumPos + sumNeg < - fct_eps"
  shows "(\<Sum>j<n. rescaled sumPos sumNeg (f j)) =
         (1 + sumPos / sumNeg) * (\<Sum>j<n. if - fct_eps \<le> f j \<and> f j < 0 then f j else 0)"
proof -
  define c where "c = - sumPos / sumNeg"
  have "0 \<le> sumPos" unfolding assms(1) by (rule sum_max_nonneg)
  with assms(3) fct_eps_pos have neg: "sumNeg < 0" by linarith
  have pt: "rescaled sumPos sumNeg v =
        max v 0 + c * min v 0 + (1 - c) * (if - fct_eps \<le> v \<and> v < 0 then v else 0)" for v
    using assms(3) fct_eps_pos by (auto simp: rescaled_def c_def algebra_simps)
  have "(\<Sum>j<n. rescaled sumPos sumNeg (f j)) =
        (\<Sum>j<n. max (f j) 0) + c * (\<Sum>j<n. min (f j) 0) +
        (1 - c) * (\<Sum>j<n. if - fct_eps \<le> f j \<and> f j < 0 then f j else 0)"
    by (simp only: pt sum.distrib sum_distrib_left)
  then have "(\<Sum>j<n. rescaled sumPos sumNeg (f j)) =
        sumPos + c * sumNeg + (1 - c) * (\<Sum>j<n. if - fct_eps \<le> f j \<and> f j < 0 then f j else 0)"
    by (simp only: assms(1,2))
  also have "c * sumNeg = - sumPos" using neg by (simp add: c_def)
  finally show ?thesis by (simp add: c_def)
qed

lemma rescaled_sum_small:
  fixes f :: "nat \<Rightarrow> real"
  assumes "sumPos = (\<Sum>j<n. max (f j) 0)" "sumNeg = (\<Sum>j<n. min (f j) 0)"
    and "\<bar>sumPos + sumNeg\<bar> \<le> fct_eps"
  shows "(\<Sum>j<n. rescaled sumPos sumNeg (f j)) = sumPos + sumNeg"
proof -
  have pt: "rescaled sumPos sumNeg v = max v 0 + min v 0" for v
    using assms(3) by (auto simp: rescaled_def)
  have "(\<Sum>j<n. rescaled sumPos sumNeg (f j)) = (\<Sum>j<n. max (f j) 0) + (\<Sum>j<n. min (f j) 0)"
    by (simp only: pt sum.distrib)
  then show ?thesis by (simp only: assms(1,2))
qed

text \<open>
  Claim C9, as the code has it, in exact arithmetic. On a mesh whose elements all have
  \<open>nd\<close> nodes, with non-zero time step and lumped masses, write \<open>F\<close> for the sum over the
  nodes of element \<open>k\<close> of \<open>lumpedM * dt * (y - yL)\<close> after \<open>ComputeFCTSolution\<close>, and
  \<open>fClipped\<close>, \<open>sumPos\<close>, \<open>sumNeg\<close> for the values of the first loop.
  When \<open>sumPos + sumNeg > eps\<close>, \<open>F\<close> is \<open>(1 + sumNeg/sumPos)\<close> times the sum of the positive
  fluxes that are at most \<open>eps\<close> (the guard \<open>fClipped(j) > eps\<close> leaves those unscaled), so
  \<open>F = 0\<close> when there is no such flux; symmetrically when \<open>sumPos + sumNeg < -eps\<close>, with
  the negative fluxes that are at least \<open>-eps\<close>. When \<open>|sumPos + sumNeg| \<le> eps\<close> nothing
  is rescaled and \<open>F = sumPos + sumNeg\<close>, within \<open>eps\<close> of zero.
\<close>

theorem FCT_rescaling_element_mass:
  assumes "\<forall>k<GetNE ev. GetDof ev k = nd" "k < GetNE ev"
    and "dt ev \<noteq> 0" "\<forall>j<nd. lumpedM ev (k * nd + j) \<noteq> 0"
    and "clip_loop ev x yH yL k nd = (uClipped, fClipped, sumPos, sumNeg)"
    and "F = element_flux_sum ev yL (ComputeFCTSolution ev x yH yL y) k nd"
  shows "(sumPos + sumNeg > fct_eps \<longrightarrow>
            F = (1 + sumNeg / sumPos) *
                (\<Sum>j<nd. if 0 < fClipped j \<and> fClipped j \<le> fct_eps then fClipped j else 0)) \<and>
         (sumPos + sumNeg > fct_eps \<and> (\<forall>j<nd. \<not> (0 < fClipped j \<and> fClipped j \<le> fct_eps)) \<longrightarrow>
            F = 0) \<and>
         (sumPos + sumNeg < - fct_eps \<longrightarrow>
            F = (1 + sumPos / sumNeg) *
                (\<Sum>j<nd. if - fct_eps \<le> fClipped j \<and> fClipped j < 0 then fClipped j else 0)) \<and>
         (sumPos + sumNeg < - fct_eps \<and> (\<forall>j<nd. \<not> (- fct_eps \<le> fClipped j \<and> fClipped j < 0)) \<longrightarrow>
            F = 0) \<and>
         (\<bar>sumPos + sumNeg\<bar> \<le> fct_eps \<longrightarrow> F = sumPos + sumNeg \<and> \<bar>F\<bar> \<le> fct_eps)"
proof -
  note r = element_flux_sum_rescaled(2,3) [OF assms(1-5)]
  have F: "F = (\<Sum>j<nd. rescaled sumPos sumNeg (fClipped j))"
    using element_flux_sum_rescaled(1) [OF assms(1-5), of y] assms(6) by simp
  have pos: "F = (1 + sumNeg / sumPos) *
                (\<Sum>j<nd. if 0 < fClipped j \<and> fClipped j \<le> fct_eps then fClipped j else 0)"
    if "sumPos + sumNeg > fct_eps"
    unfolding F using r that by (rule rescaled_sum_pos)
  have neg: "F = (1 + sumPos / sumNeg) *
                (\<Sum>j<nd. if - fct_eps \<le> fClipped j \<and> fClipped j < 0 then fClipped j else 0)"
    if "sumPos + sumNeg < - fct_eps"
    unfolding F using r that by (rule rescaled_sum_neg)
  have small: "F = sumPos + sumNeg" if "\<bar>sumPos + sumNeg\<bar> \<le> fct_eps"
    unfolding F using r that by (rule rescaled_sum_small)
  have pos0: "F = 0"
    if "sumPos + sumNeg > fct_eps" "\<forall>j<nd. \<not> (0 < fClipped j \<and> fClipped j \<le> fct_eps)"
  proof -
    have "(\<Sum>j<nd. if 0 < fClipped j \<and> fClipped j \<le> fct_eps then fClipped j else 0) = 0"
      by (rule sum.neutral) (use that(2) in auto)
    with pos [OF that(1)] show ?thesis by simp
  qed
  have neg0: "F = 0"
    if "sumPos + sumNeg < - fct_eps" "\<forall>j<nd. \<not> (- fct_eps \<le> fClipped j \<and> fClipped j < 0)"
  proof -
    have "(\<Sum>j<nd. if - fct_eps \<le> fClipped j \<and> fClipped j < 0 then fClipped j else 0) = 0"
      by (rule sum.neutral) (use that(2) in auto)
    with neg [OF that(1)] show ?thesis by simp
  qed
  have small': "F = sumPos + sumNeg \<and> \<bar>F\<bar> \<le> fct_eps" if "\<bar>sumPos + sumNeg\<bar> \<le> fct_eps"
    using small [OF that] that by simp
  show ?thesis
    using pos neg small' pos0 neg0 by blast
qed

theorem FCT_rescaling_element_mass_witness:
  "element_flux_sum
     \<lparr>dt = 1, GetNE = 1, GetDof = \<lambda>_. 2, x_min = \<lambda>_. - 2, x_max = \<lambda>_. 2, lumpedM = \<lambda>_. 1\<rparr>
     (\<lambda>_. 0)
     (ComputeFCTSolution
        \<lparr>dt = 1, GetNE = 1, GetDof = \<lambda>_. 2, x_min = \<lambda>_. - 2, x_max = \<lambda>_. 2, lumpedM = \<lambda>_. 1\<rparr>
        (\<lambda>_. 0) (\<lambda>d. if d = 0 then 1 else - (1 / 2)) (\<lambda>_. 0) (\<lambda>_. 0)) 0 2 = 0"
proof -
  let ?ev = "\<lparr>dt = 1, GetNE = 1, GetDof = \<lambda>_. 2, x_min = \<lambda>_. - 2, x_max = \<lambda>_. 2,
              lumpedM = \<lambda>_. 1 :: real\<rparr>"
  let ?yH = "\<lambda>d::nat. if d = 0 then 1 else - (1 / 2) :: real"
  let ?c = "clip_loop ?ev (\<lambda>_. 0) ?yH (\<lambda>_. 0) 0 2"
  have c: "?c = (fst ?c, fst (snd ?c), fst (snd (snd ?c)), snd (snd (snd ?c)))" by simp
  have f: "fst (snd ?c) = (\<lambda>j. if j < 2 then (if j = 0 then 1 else - (1 / 2)) else 0)"
    by (simp add: clip_loop_eq fClipped_at_def uClipped_at_def fun_eq_iff)
  have sP: "fst (snd (snd ?c)) = 1"
    by (simp add: clip_loop_eq fClipped_at_def uClipped_at_def eval_nat_numeral)
  have sN: "snd (snd (snd ?c)) = - (1 / 2)"
    by (simp add: clip_loop_eq fClipped_at_def uClipped_at_def eval_nat_numeral)
  have gt: "fst (snd (snd ?c)) + snd (snd (snd ?c)) > fct_eps"
    unfolding sP sN by (simp add: fct_eps_def)
  have nosmall: "\<forall>j<2. \<not> (0 < fst (snd ?c) j \<and> fst (snd ?c) j \<le> fct_eps)"
    unfolding f by (simp add: fct_eps_def)
  have u: "\<forall>k<GetNE ?ev. GetDof ?ev k = 2" "0 < GetNE ?ev" "dt ?ev \<noteq> 0"
    "\<forall>j<2. lumpedM ?ev (0 * 2 + j) \<noteq> 0"
    by simp_all
  note t = FCT_rescaling_element_mass [where y = "\<lambda>_. 0", OF u c refl]
  show ?thesis
    by (rule t [THEN conjunct2, THEN conjunct1, rule_format]) (use gt nosmall in auto)
qed

text \<open>
  One element with two nodes, unit masses and time step, bounds \<open>[0, 2]\<close>, zero previous
  values and zero low-order rates; the high-order rates are 1 and \<open>eps/2\<close>. The clipped
  fluxes are 1 and \<open>eps/2\<close>, so \<open>sumPos + sumNeg = 1 + eps/2 > eps\<close>. The first flux is
  rescaled by \<open>-sumNeg/sumPos = 0\<close>; the second is not greater than \<open>eps\<close> and stays. The
  sum of the rescaled fluxes is \<open>eps/2\<close>, not zero.
\<close>

theorem FCT_rescaling_leaves_small_flux:
  "fst (snd (snd (clip_loop
       \<lparr>dt = 1, GetNE = 1, GetDof = \<lambda>_. 2, x_min = \<lambda>_. 0, x_max = \<lambda>_. 2, lumpedM = \<lambda>_. 1\<rparr>
       (\<lambda>_. 0) (\<lambda>d. if d = 0 then 1 else 1 / (2 * 10 ^ 15)) (\<lambda>_. 0) 0 2))) +
   snd (snd (snd (clip_loop
       \<lparr>dt = 1, GetNE = 1, GetDof = \<lambda>_. 2, x_min = \<lambda>_. 0, x_max = \<lambda>_. 2, lumpedM = \<lambda>_. 1\<rparr>
       (\<lambda>_. 0) (\<lambda>d. if d = 0 then 1 else 1 / (2 * 10 ^ 15)) (\<lambda>_. 0) 0 2))) > fct_eps \<and>
   element_flux_sum
     \<lparr>dt = 1, GetNE = 1, GetDof = \<lambda>_. 2, x_min = \<lambda>_. 0, x_max = \<lambda>_. 2, lumpedM = \<lambda>_. 1\<rparr>
     (\<lambda>_. 0)
     (ComputeFCTSolution
        \<lparr>dt = 1, GetNE = 1, GetDof = \<lambda>_. 2, x_min = \<lambda>_. 0, x_max = \<lambda>_. 2, lumpedM = \<lambda>_. 1\<rparr>
        (\<lambda>_. 0) (\<lambda>d. if d = 0 then 1 else 1 / (2 * 10 ^ 15)) (\<lambda>_. 0) (\<lambda>_. 0)) 0 2
   = 1 / (2 * 10 ^ 15)"
proof -
  let ?ev = "\<lparr>dt = 1, GetNE = 1, GetDof = \<lambda>_. 2, x_min = \<lambda>_. 0, x_max = \<lambda>_. 2,
              lumpedM = \<lambda>_. 1 :: real\<rparr>"
  let ?yH = "\<lambda>d::nat. if d = 0 then 1 else 1 / (2 * 10 ^ 15) :: real"
  let ?c = "clip_loop ?ev (\<lambda>_. 0) ?yH (\<lambda>_. 0) 0 2"
  have c: "?c = (fst ?c, fst (snd ?c), fst (snd (snd ?c)), snd (snd (snd ?c)))" by simp
  have f: "fst (snd ?c) = (\<lambda>j. if j < 2 then (if j = 0 then 1 else 1 / (2 * 10 ^ 15)) else 0)"
    by (simp add: clip_loop_eq fClipped_at_def uClipped_at_def fun_eq_iff)
  have sP: "fst (snd (snd ?c)) = 1 + 1 / (2 * 10 ^ 15)"
    by (simp add: clip_loop_eq fClipped_at_def uClipped_at_def eval_nat_numeral)
  have sN: "snd (snd (snd ?c)) = 0"
    by (simp add: clip_loop_eq fClipped_at_def uClipped_at_def eval_nat_numeral)
  have gt: "fst (snd (snd ?c)) + snd (snd (snd ?c)) > fct_eps"
    unfolding sP sN by (simp add: fct_eps_def)
  have "element_flux_sum ?ev (\<lambda>_. 0)
          (ComputeFCTSolution ?ev (\<lambda>_. 0) ?yH (\<lambda>_. 0) (\<lambda>_. 0)) 0 2 =
        (\<Sum>j<2. rescaled (fst (snd (snd ?c))) (snd (snd (snd ?c))) (fst (snd ?c) j))"
    by (rule element_flux_sum_rescaled(1) [OF _ _ _ _ c]) simp_all
  also have "\<dots> = 1 / (2 * 10 ^ 15)"
    unfolding sP sN f by (simp add: rescaled_def fct_eps_def eval_nat_numeral)
  finally show ?thesis using gt by simp
qed

section \<open>The discrete upwinding matrix\<close>

lemma smap_search_finds:
  assumes "a \<le> e"
  shows "smap_search J row a e =
         Some (case find (\<lambda>k. J k = row) [a..<e] of
                 None \<Rightarrow> Inl mfem_error_SparseMatrix_Build_smap
               | Some k \<Rightarrow> Inr k)"
  using assms
proof (induction "e - a" arbitrary: a)
  case 0
  then have "a = e" by simp
  then show ?case by (subst smap_search.simps) simp
next
  case (Suc n)
  then have lt: "a < e" and n: "n = e - (a + 1)" and le: "a + 1 \<le> e" by simp_all
  have u: "[a..<e] = a # [a + 1..<e]" using lt by (simp add: upt_rec)
  show ?case
  proof (cases "J a = row")
    case True
    then show ?thesis using lt by (subst smap_search.simps) (simp add: u)
  next
    case False
    have "smap_search J row a e = smap_search J row (a + 1) e"
      using lt False by (subst smap_search.simps) simp
    also note Suc.hyps(1) [OF n le]
    finally show ?thesis using False by (simp add: u)
  qed
qed

subsection \<open>Rows of a finalized matrix\<close>

lemma finalized_row:
  assumes "finalized A" "i < Size A"
  shows "GetI A i \<le> GetI A (i + 1)"
    and "distinct (map (GetJ A) (row_offsets A i))"
    and "\<And>k. k \<in> set (row_offsets A i) \<Longrightarrow> GetJ A k < Size A"
  using assms by (simp_all add: finalized_def)

lemma finalized_mono:
  assumes "finalized A" "i \<le> i'" "i' \<le> Size A"
  shows "GetI A i \<le> GetI A i'"
  using assms(2,3)
proof (induction i' rule: dec_induct)
  case base
  show ?case by simp
next
  case (step m)
  then have "m < Size A" by simp
  from finalized_row(1) [OF assms(1) this] step show ?case by simp
qed

lemma row_offsets_iff: "k \<in> set (row_offsets A i) \<longleftrightarrow> GetI A i \<le> k \<and> k < GetI A (i + 1)"
  by (simp add: row_offsets_def)

lemma rows_disjoint:
  assumes fin: "finalized A" and i: "i < Size A" "i' < Size A"
    and k: "k \<in> set (row_offsets A i)" "k \<in> set (row_offsets A i')"
  shows "i = i'"
proof (rule ccontr)
  assume ne: "i \<noteq> i'"
  have sep: "False" if "a < b" "b < Size A" "k \<in> set (row_offsets A a)" "k \<in> set (row_offsets A b)"
    for a b
  proof -
    from that have "GetI A (a + 1) \<le> GetI A b" by (intro finalized_mono [OF fin]) simp_all
    with that(3,4) show False by (simp add: row_offsets_iff)
  qed
  from ne have "i < i' \<or> i' < i" by arith
  then show False using sep [of i i'] sep [of i' i] i k by blast
qed

lemma row_below_end:
  assumes "finalized A" "i < Size A" "k \<in> set (row_offsets A i)"
  shows "k < GetI A (Size A)"
proof -
  have "GetI A (i + 1) \<le> GetI A (Size A)"
    using assms(2) by (intro finalized_mono [OF assms(1)]) simp_all
  with assms(3) show ?thesis by (simp add: row_offsets_iff)
qed

lemma find_distinct:
  assumes "distinct (map f xs)" "k \<in> set xs"
  shows "find (\<lambda>x. f x = f k) xs = Some k"
  using assms by (induction xs) auto

lemma find_Some_set:
  assumes "find P xs = Some k"
  shows "k \<in> set xs \<and> P k"
  using assms by (induction xs) (auto split: if_splits)

lemma SparseMatrix_entry_iff:
  assumes "finalized A" "i < Size A"
  shows "SparseMatrix_entry A i j = Inr k \<longleftrightarrow> k \<in> set (row_offsets A i) \<and> GetJ A k = j"
proof
  assume "SparseMatrix_entry A i j = Inr k"
  then have "find (\<lambda>k. GetJ A k = j) (row_offsets A i) = Some k"
    by (simp add: SparseMatrix_entry_def split: option.splits)
  from find_Some_set [OF this] show "k \<in> set (row_offsets A i) \<and> GetJ A k = j" .
next
  assume k: "k \<in> set (row_offsets A i) \<and> GetJ A k = j"
  with find_distinct [OF finalized_row(2) [OF assms], of k]
  show "SparseMatrix_entry A i j = Inr k" by (auto simp: SparseMatrix_entry_def)
qed

lemma symmetric_offset_row:
  assumes fin: "finalized A" and sym: "structurally_symmetric A"
    and i: "i < Size A" and k: "k \<in> set (row_offsets A i)"
  shows "symmetric_offset A i k \<in> set (row_offsets A (GetJ A k))"
    and "GetJ A (symmetric_offset A i k) = i"
    and "SparseMatrix_entry A (GetJ A k) i = Inr (symmetric_offset A i k)"
proof -
  have col: "GetJ A k < Size A" by (rule finalized_row(3) [OF fin i k])
  from sym i k have "i \<in> GetJ A ` set (row_offsets A (GetJ A k))"
    by (simp add: structurally_symmetric_def)
  then obtain k' where k': "k' \<in> set (row_offsets A (GetJ A k))" "GetJ A k' = i"
    by (rule imageE) simp
  then have e: "SparseMatrix_entry A (GetJ A k) i = Inr k'"
    by (simp add: SparseMatrix_entry_iff [OF fin col])
  then have s: "symmetric_offset A i k = k'" by (simp add: symmetric_offset_def)
  show "symmetric_offset A i k \<in> set (row_offsets A (GetJ A k))" unfolding s by (rule k'(1))
  show "GetJ A (symmetric_offset A i k) = i" unfolding s by (rule k'(2))
  show "SparseMatrix_entry A (GetJ A k) i = Inr (symmetric_offset A i k)" unfolding s by (rule e)
qed

lemma symmetric_offset_involution:
  assumes fin: "finalized A" and sym: "structurally_symmetric A"
    and i: "i < Size A" and k: "k \<in> set (row_offsets A i)"
  shows "symmetric_offset A (GetJ A k) (symmetric_offset A i k) = k"
proof -
  note s = symmetric_offset_row [OF fin sym i k]
  have e: "SparseMatrix_entry A i (GetJ A k) = Inr k"
    using k by (simp add: SparseMatrix_entry_iff [OF fin i])
  have "symmetric_offset A (GetJ A k) (symmetric_offset A i k) =
        projr (SparseMatrix_entry A (GetJ A (symmetric_offset A i k)) (GetJ A k))"
    by (rule symmetric_offset_def)
  also have "\<dots> = projr (SparseMatrix_entry A i (GetJ A k))" by (simp only: s(2))
  also have "\<dots> = k" by (simp only: e sum.sel)
  finally show ?thesis .
qed

lemma symmetric_offset_diagonal:
  assumes fin: "finalized A" and i: "i < Size A" and k: "k \<in> set (row_offsets A i)"
    and d: "GetJ A k = i"
  shows "symmetric_offset A i k = k"
proof -
  have "SparseMatrix_entry A i i = Inr k"
    using k d by (simp add: SparseMatrix_entry_iff [OF fin i])
  then show ?thesis by (simp add: symmetric_offset_def d)
qed

subsection \<open>The symmetry map\<close>

lemma foldMO_append:
  "foldMO f (xs @ ys) s =
     (case foldMO f xs s of
        None \<Rightarrow> None
      | Some (Inl e) \<Rightarrow> Some (Inl e)
      | Some (Inr s') \<Rightarrow> foldMO f ys s')"
  by (induction xs arbitrary: s) (simp_all split: option.splits sum.splits)

lemma foldMO_single: "foldMO f [x] s = f x s"
  by (simp split: option.splits sum.splits)

lemma foldMO_writes:
  assumes "\<And>k s. k \<in> set ks \<Longrightarrow> f k s = Some (Inr (s(k := v k)))"
  shows "foldMO f ks s = Some (Inr (\<lambda>p. if p \<in> set ks then v p else s p))"
  using assms
proof (induction ks arbitrary: s)
  case Nil
  show ?case by simp
next
  case (Cons k ks)
  have one: "f k s = Some (Inr (s(k := v k)))" by (rule Cons.prems) simp
  have rest: "foldMO f ks (s(k := v k)) =
              Some (Inr (\<lambda>p. if p \<in> set ks then v p else (s(k := v k)) p))"
    by (rule Cons.IH) (simp add: Cons.prems)
  have "(\<lambda>p. if p \<in> set ks then v p else (s(k := v k)) p) =
        (\<lambda>p. if p \<in> set (k # ks) then v p else s p)"
    by (auto simp: fun_eq_iff)
  with rest have "foldMO f ks (s(k := v k)) =
              Some (Inr (\<lambda>p. if p \<in> set (k # ks) then v p else s p))"
    by simp
  then show ?case by (simp add: one del: set_simps)
qed

lemma smap_entry_symmetric:
  assumes fin: "finalized A" and sym: "structurally_symmetric A"
    and i: "i < Size A" and k: "k \<in> set (row_offsets A i)"
  shows "smap_entry A i k smap = Some (Inr (smap(k := symmetric_offset A i k)))"
proof -
  have col: "GetJ A k < Size A" by (rule finalized_row(3) [OF fin i k])
  have le: "GetI A (GetJ A k) \<le> GetI A (GetJ A k + 1)" by (rule finalized_row(1) [OF fin col])
  have "SparseMatrix_entry A (GetJ A k) i = Inr (symmetric_offset A i k)"
    by (rule symmetric_offset_row(3) [OF fin sym i k])
  then have f: "find (\<lambda>k'. GetJ A k' = i) [GetI A (GetJ A k)..<GetI A (GetJ A k + 1)] =
                Some (symmetric_offset A i k)"
    by (simp add: SparseMatrix_entry_def row_offsets_def split: option.splits)
  have "smap_search (GetJ A) i (GetI A (GetJ A k)) (GetI A (GetJ A k + 1)) =
        Some (Inr (symmetric_offset A i k))"
    unfolding smap_search_finds [OF le] f by simp
  then show ?thesis by (simp add: smap_entry_def Let_def)
qed

lemma smap_row_symmetric:
  assumes fin: "finalized A" and sym: "structurally_symmetric A" and i: "i < Size A"
  shows "smap_row A i (smap, GetI A i) =
         Some (Inr (\<lambda>p. if p \<in> set (row_offsets A i) then symmetric_offset A i p else smap p,
                    GetI A (i + 1)))"
proof -
  have "foldMO (smap_entry A i) (row_offsets A i) smap =
        Some (Inr (\<lambda>p. if p \<in> set (row_offsets A i) then symmetric_offset A i p else smap p))"
    by (rule foldMO_writes) (rule smap_entry_symmetric [OF fin sym i])
  moreover have "max (GetI A i) (GetI A (i + 1)) = GetI A (i + 1)"
    using finalized_row(1) [OF fin i] by simp
  ultimately show ?thesis
    by (simp add: smap_row_def Let_def row_offsets_def)
qed

lemma Build_smap_rows:
  assumes fin: "finalized A" and sym: "structurally_symmetric A" and m: "m \<le> Size A"
  shows "\<exists>smap. foldMO (smap_row A) [0..<m] (uninit, 0) = Some (Inr (smap, GetI A m)) \<and>
           (\<forall>i<m. \<forall>k\<in>set (row_offsets A i). smap k = symmetric_offset A i k)"
  using m
proof (induction m)
  case 0
  have "GetI A 0 = 0" using fin by (simp add: finalized_def)
  then show ?case by simp
next
  case (Suc m)
  then have m: "m < Size A" by simp
  from Suc obtain smap where
    run: "foldMO (smap_row A) [0..<m] (uninit, 0) = Some (Inr (smap, GetI A m))"
    and inv: "\<forall>i<m. \<forall>k\<in>set (row_offsets A i). smap k = symmetric_offset A i k"
    by auto
  let ?smap = "\<lambda>p. if p \<in> set (row_offsets A m) then symmetric_offset A m p else smap p"
  have "foldMO (smap_row A) [0..<Suc m] (uninit, 0) = smap_row A m (smap, GetI A m)"
    by (simp add: foldMO_append run foldMO_single del: foldMO.simps)
  then have r: "foldMO (smap_row A) [0..<Suc m] (uninit, 0) = Some (Inr (?smap, GetI A (Suc m)))"
    by (simp add: smap_row_symmetric [OF fin sym m])
  have "\<forall>i<Suc m. \<forall>k\<in>set (row_offsets A i). ?smap k = symmetric_offset A i k"
  proof (intro allI impI ballI)
    fix i k assume i: "i < Suc m" and k: "k \<in> set (row_offsets A i)"
    show "?smap k = symmetric_offset A i k"
    proof (cases "i = m")
      case True
      with k show ?thesis by simp
    next
      case False
      with i have im: "i < m" by simp
      then have "i < Size A" using m by simp
      from rows_disjoint [OF fin this m k] False have "k \<notin> set (row_offsets A m)" by blast
      with inv im k show ?thesis by simp
    qed
  qed
  with r show ?case by blast
qed

lemma SparseMatrix_Build_smap_symmetric:
  assumes "finalized A" "structurally_symmetric A"
  shows "\<exists>smap. SparseMatrix_Build_smap A uninit = Some (Inr smap) \<and>
           (\<forall>i<Size A. \<forall>k\<in>set (row_offsets A i). smap k = symmetric_offset A i k)"
proof -
  from Build_smap_rows [OF assms, of "Size A" uninit] obtain smap where
    "foldMO (smap_row A) [0..<Size A] (uninit, 0) = Some (Inr (smap, GetI A (Size A)))"
    "\<forall>i<Size A. \<forall>k\<in>set (row_offsets A i). smap k = symmetric_offset A i k"
    by auto
  then show ?thesis by (simp add: SparseMatrix_Build_smap_def)
qed

subsection \<open>One row of the upwinding loop\<close>

lemma upwind_entry_fold:
  "fold (upwind_entry K smap i) ks (Dp, r) =
     (fold (\<lambda>k A. A(k := upwind_value K smap k, smap k := upwind_value K smap k)) ks Dp,
      r + sum_list (map (upwind_value K smap) (filter (\<lambda>k. GetJ K k \<noteq> i) ks)))"
proof -
  define F where
    "F = (\<lambda>k (A :: darray). A(k := upwind_value K smap k, smap k := upwind_value K smap k))"
  have "fold (upwind_entry K smap i) ks (Dp, r) =
     (fold F ks Dp,
      r + sum_list (map (upwind_value K smap) (filter (\<lambda>k. GetJ K k \<noteq> i) ks)))"
  proof (induction ks arbitrary: Dp r)
    case Nil
    show ?case by simp
  next
    case (Cons k ks)
    let ?d = "upwind_value K smap k"
    have one: "upwind_entry K smap i k (Dp, r) =
               (F k Dp, if i \<noteq> GetJ K k then r + ?d else r)"
      by (simp add: upwind_entry_def upwind_value_def Let_def F_def)
    have step: "fold (upwind_entry K smap i) (k # ks) (Dp, r) =
          fold (upwind_entry K smap i) ks (F k Dp, if i \<noteq> GetJ K k then r + ?d else r)"
      by (simp only: fold_simps one comp_apply)
    have F: "fold F (k # ks) Dp = fold F ks (F k Dp)" by simp
    show ?case
      unfolding step Cons.IH F by (simp add: add.assoc)
  qed
  then show ?thesis unfolding F_def .
qed

lemma fold_pair_writes:
  assumes "\<forall>k\<in>set ks. d (smap k) = d k"
  shows "fold (\<lambda>k A. A(k := d k, smap k := d k)) ks A p =
         (if p \<in> set ks \<union> smap ` set ks then d p else A p)"
proof -
  define F where "F = (\<lambda>k (A :: 'a \<Rightarrow> 'b). A(k := d k, smap k := d k))"
  have "fold F ks A p = (if p \<in> set ks \<union> smap ` set ks then d p else A p)"
    using assms
  proof (induction ks arbitrary: A)
    case Nil
    show ?case by simp
  next
    case (Cons k ks)
    from Cons.prems have dk: "d (smap k) = d k" and rest: "\<forall>k\<in>set ks. d (smap k) = d k"
      by simp_all
    have step: "fold F (k # ks) A p = fold F ks (F k A) p" by simp
    have one: "F k A p = (if p = k \<or> p = smap k then d p else A p)"
      using dk by (auto simp: F_def)
    show ?case
      unfolding step Cons.IH [OF rest] one by auto
  qed
  then show ?thesis unfolding F_def .
qed

lemma same_pattern_I:
  assumes "same_pattern K D" "i \<le> Size K"
  shows "GetI D i = GetI K i"
  using assms by (cases "i = Size K") (simp_all add: same_pattern_def)

lemma SparseMatrix_entry_same_pattern:
  assumes fin: "finalized K" and same: "same_pattern K D" and i: "i < Size K"
  shows "SparseMatrix_entry D i j = SparseMatrix_entry K i j"
proof -
  from i have "row_offsets D i = [GetI K i..<GetI K (i + 1)]"
    unfolding row_offsets_def
    by (simp only: same_pattern_I [OF same, of i] same_pattern_I [OF same, of "i + 1"])
  then have rows: "row_offsets D i = row_offsets K i"
    by (simp add: row_offsets_def)
  have "find (\<lambda>k. GetJ D k = j) (row_offsets K i) = find (\<lambda>k. GetJ K k = j) (row_offsets K i)"
  proof (rule find_cong [OF refl])
    fix k assume "k \<in> set (row_offsets K i)"
    then have "k < GetI K (Size K)" by (rule row_below_end [OF fin i])
    with same show "(GetJ D k = j) = (GetJ K k = j)" by (simp add: same_pattern_def)
  qed
  then show ?thesis by (simp add: SparseMatrix_entry_def rows)
qed

lemma upwind_value_symmetric:
  assumes fin: "finalized K" and sym: "structurally_symmetric K"
    and smap: "\<forall>i<Size K. \<forall>k\<in>set (row_offsets K i). smap k = symmetric_offset K i k"
    and i: "i < Size K" and k: "k \<in> set (row_offsets K i)"
  shows "upwind_value K smap (smap k) = upwind_value K smap k"
proof -
  have s: "smap k = symmetric_offset K i k" using smap i k by simp
  have col: "GetJ K k < Size K" by (rule finalized_row(3) [OF fin i k])
  have "symmetric_offset K i k \<in> set (row_offsets K (GetJ K k))"
    by (rule symmetric_offset_row(1) [OF fin sym i k])
  with smap col have "smap (symmetric_offset K i k) =
      symmetric_offset K (GetJ K k) (symmetric_offset K i k)" by simp
  also have "\<dots> = k" by (rule symmetric_offset_involution [OF fin sym i k])
  finally have "smap (smap k) = k" unfolding s .
  then show ?thesis by (simp add: upwind_value_def max.commute max.left_commute)
qed

lemma upwind_row_result:
  assumes fin: "finalized K" and sym: "structurally_symmetric K"
    and smap: "\<forall>i<Size K. \<forall>k\<in>set (row_offsets K i). smap k = symmetric_offset K i k"
    and same: "same_pattern K D" and i: "i < Size K"
    and diag: "SparseMatrix_entry K i i = Inr q"
  shows "upwind_row K D smap i (Dp, GetI K i) =
         Inr ((\<lambda>p. if p \<in> set (row_offsets K i) \<union> smap ` set (row_offsets K i)
                    then upwind_value K smap p else Dp p)
                (q := - sum_list (map (upwind_value K smap) (off_diagonal K i))),
              GetI K (i + 1))"
proof -
  let ?d = "upwind_value K smap"
  have dsym: "\<forall>k\<in>set (row_offsets K i). ?d (smap k) = ?d k"
    using upwind_value_symmetric [OF fin sym smap i] by blast
  have w: "fold (\<lambda>k A. A(k := ?d k, smap k := ?d k)) (row_offsets K i) Dp =
           (\<lambda>p. if p \<in> set (row_offsets K i) \<union> smap ` set (row_offsets K i)
                 then ?d p else Dp p)"
    by (rule ext) (rule fold_pair_writes [OF dsym])
  have f: "fold (upwind_entry K smap i) [GetI K i..<GetI K (i + 1)] (Dp, 0) =
           (\<lambda>p. if p \<in> set (row_offsets K i) \<union> smap ` set (row_offsets K i)
                 then ?d p else Dp p,
            sum_list (map ?d (off_diagonal K i)))"
    using upwind_entry_fold [of K smap i "row_offsets K i" Dp 0]
    unfolding w by (simp add: off_diagonal_def row_offsets_def)
  have e: "SparseMatrix_entry D i i = Inr q"
    unfolding SparseMatrix_entry_same_pattern [OF fin same i] by (rule diag)
  have mx: "max (GetI K i) (GetI K (i + 1)) = GetI K (i + 1)"
    using finalized_row(1) [OF fin i] by simp
  show ?thesis
    unfolding upwind_row_def Let_def prod.case f e mx by simp
qed

subsection \<open>The loop over the rows\<close>

lemma upwind_rows:
  assumes fin: "finalized K" and sym: "structurally_symmetric K" and dg: "stores_diagonal K"
    and smap: "\<forall>i<Size K. \<forall>k\<in>set (row_offsets K i). smap k = symmetric_offset K i k"
    and same: "same_pattern K D" and m: "m \<le> Size K"
  shows "\<exists>Dp. foldM (upwind_row K D smap) [0..<m] (D0, 0) = Inr (Dp, GetI K m) \<and>
           (\<forall>i<m. \<forall>k\<in>set (row_offsets K i).
              Dp k = (if GetJ K k = i
                      then - sum_list (map (upwind_value K smap) (off_diagonal K i))
                      else upwind_value K smap k))"
  using m
proof (induction m)
  case 0
  have "GetI K 0 = 0" using fin by (simp add: finalized_def)
  then show ?case by simp
next
  case (Suc m)
  then have m: "m < Size K" by simp
  let ?d = "upwind_value K smap"
  let ?R = "\<lambda>i. sum_list (map ?d (off_diagonal K i))"
  from Suc obtain Dp where
    run: "foldM (upwind_row K D smap) [0..<m] (D0, 0) = Inr (Dp, GetI K m)"
    and inv: "\<forall>i<m. \<forall>k\<in>set (row_offsets K i). Dp k = (if GetJ K k = i then - ?R i else ?d k)"
    by auto
  from dg m have "m \<in> GetJ K ` set (row_offsets K m)" by (simp add: stores_diagonal_def)
  then obtain q where q: "q \<in> set (row_offsets K m)" "GetJ K q = m" by (rule imageE) simp
  then have e: "SparseMatrix_entry K m m = Inr q" by (simp add: SparseMatrix_entry_iff [OF fin m])
  let ?W = "set (row_offsets K m) \<union> smap ` set (row_offsets K m)"
  let ?Dp = "(\<lambda>p. if p \<in> ?W then ?d p else Dp p)(q := - ?R m)"
  have "foldM (upwind_row K D smap) [0..<Suc m] (D0, 0) = upwind_row K D smap m (Dp, GetI K m)"
    by (simp add: foldM_append run foldM_single del: foldM.simps)
  then have r: "foldM (upwind_row K D smap) [0..<Suc m] (D0, 0) = Inr (?Dp, GetI K (Suc m))"
    by (simp add: upwind_row_result [OF fin sym smap same m e])
  have "\<forall>i<Suc m. \<forall>k\<in>set (row_offsets K i). ?Dp k = (if GetJ K k = i then - ?R i else ?d k)"
  proof (intro allI impI ballI)
    fix i k assume i: "i < Suc m" and k: "k \<in> set (row_offsets K i)"
    show "?Dp k = (if GetJ K k = i then - ?R i else ?d k)"
    proof (cases "i = m")
      case True
      show ?thesis
      proof (cases "GetJ K k = m")
        case d: True
        with k True have "SparseMatrix_entry K m m = Inr k"
          by (simp add: SparseMatrix_entry_iff [OF fin m])
        with e have "k = q" by simp
        with d True show ?thesis by simp
      next
        case d: False
        with q have "k \<noteq> q" by auto
        moreover from k True have "k \<in> ?W" by simp
        ultimately show ?thesis using d True by simp
      qed
    next
      case False
      with i have im: "i < m" by simp
      then have iS: "i < Size K" using m by simp
      from rows_disjoint [OF fin iS m k] False have nrow: "k \<notin> set (row_offsets K m)" by blast
      with q have nq: "k \<noteq> q" by auto
      from inv im k have old: "Dp k = (if GetJ K k = i then - ?R i else ?d k)" by simp
      show ?thesis
      proof (cases "GetJ K k = i")
        case d: True
        have "k \<notin> smap ` set (row_offsets K m)"
        proof
          assume "k \<in> smap ` set (row_offsets K m)"
          then obtain k0 where k0: "k0 \<in> set (row_offsets K m)" "k = smap k0" by auto
          with smap m have "k = symmetric_offset K m k0" by simp
          with symmetric_offset_row(2) [OF fin sym m k0(1)] have "GetJ K k = m" by simp
          with d False show False by simp
        qed
        with nrow have "k \<notin> ?W" by simp
        with nq old show ?thesis by simp
      next
        case d: False
        with old have "Dp k = ?d k" by simp
        with nq d show ?thesis by simp
      qed
    qed
  qed
  with r show ?case by blast
qed

lemma sum_list_skip_diagonal:
  assumes "i \<notin> J ` set xs"
  shows "sum_list (map (\<lambda>k. if J k = i then a else f k) xs) =
         sum_list (map f (filter (\<lambda>k. J k \<noteq> i) xs))"
  using assms by (induction xs) auto

lemma sum_list_one_diagonal:
  fixes a :: real
  assumes "distinct (map J xs)" "i \<in> J ` set xs"
  shows "sum_list (map (\<lambda>k. if J k = i then a else f k) xs) =
         a + sum_list (map f (filter (\<lambda>k. J k \<noteq> i) xs))"
  using assms
proof (induction xs)
  case Nil
  then show ?case by simp
next
  case (Cons x xs)
  show ?case
  proof (cases "J x = i")
    case True
    with Cons.prems(1) have "i \<notin> J ` set xs" by auto
    from sum_list_skip_diagonal [OF this, of a f] True show ?thesis by simp
  next
    case False
    with Cons.prems have "distinct (map J xs)" "i \<in> J ` set xs" by auto
    from Cons.IH [OF this] False show ?thesis by simp
  qed
qed

lemma aborted_run:
  assumes "map_option (map_sum id (\<lambda>_. ())) r = Some (Inl e)"
  shows "r = Some (Inl e)"
proof (cases r)
  case None
  with assms show ?thesis by simp
next
  case (Some v)
  with assms show ?thesis by (cases v) simp_all
qed

subsection \<open>The matrix that ComputeDiscreteUpwindingMatrix leaves\<close>

text \<open>
  Claim C10. The claim reads: for every finalized matrix \<open>K\<close> with a structurally symmetric
  pattern, \<^verbatim>\<open>ComputeDiscreteUpwindingMatrix(K, D)\<close> leaves in \<open>D\<close>, at every stored
  off-diagonal entry, \<open>D(i,j) = D(j,i) = max(0, -K(i,j), -K(j,i)) \<ge> 0\<close>, and on the diagonal
  minus the sum of the off-diagonal entries of the row, so that every row of \<open>D\<close> sums to
  zero. This holds when moreover every row of \<open>K\<close> stores its diagonal entry and \<open>D\<close> has the
  pattern of \<open>K\<close>: then the function returns, and the data of \<open>D\<close> are as claimed. The
  entries are exact reals, and the data of \<open>K\<close> are not those of \<open>D\<close>.
\<close>

theorem ComputeDiscreteUpwindingMatrix_rows_sum_to_zero:
  assumes fin: "finalized K" and sym: "structurally_symmetric K" and dg: "stores_diagonal K"
    and same: "same_pattern K D"
  shows "\<exists>Dp. ComputeDiscreteUpwindingMatrix K D uninit = Some (Inr Dp) \<and>
    (\<forall>i<Size K.
       (\<forall>k\<in>set (off_diagonal K i). \<exists>k'.
           SparseMatrix_entry K (GetJ K k) i = Inr k' \<and>
           Dp k = max (max 0 (- GetData K k)) (- GetData K k') \<and>
           Dp k' = Dp k \<and> 0 \<le> Dp k) \<and>
       (\<forall>k\<in>set (row_offsets K i).
           GetJ K k = i \<longrightarrow> Dp k = - sum_list (map Dp (off_diagonal K i))) \<and>
       row_sum K Dp i = 0)"
proof -
  from SparseMatrix_Build_smap_symmetric [OF fin sym, of uninit] obtain smap where
    b: "SparseMatrix_Build_smap K uninit = Some (Inr smap)"
    and smap: "\<forall>i<Size K. \<forall>k\<in>set (row_offsets K i). smap k = symmetric_offset K i k"
    by blast
  let ?d = "upwind_value K smap"
  let ?R = "\<lambda>i. sum_list (map ?d (off_diagonal K i))"
  from upwind_rows [OF fin sym dg smap same order_refl, of "GetData D"] obtain Dp where
    run: "foldM (upwind_row K D smap) [0..<Size K] (GetData D, 0) = Inr (Dp, GetI K (Size K))"
    and inv: "\<forall>i<Size K. \<forall>k\<in>set (row_offsets K i).
                Dp k = (if GetJ K k = i then - ?R i else ?d k)"
    by blast
  have res: "ComputeDiscreteUpwindingMatrix K D uninit = Some (Inr Dp)"
    by (simp add: ComputeDiscreteUpwindingMatrix_def b run)
  have rows: "(\<forall>k\<in>set (off_diagonal K i). \<exists>k'.
           SparseMatrix_entry K (GetJ K k) i = Inr k' \<and>
           Dp k = max (max 0 (- GetData K k)) (- GetData K k') \<and>
           Dp k' = Dp k \<and> 0 \<le> Dp k) \<and>
       (\<forall>k\<in>set (row_offsets K i).
           GetJ K k = i \<longrightarrow> Dp k = - sum_list (map Dp (off_diagonal K i))) \<and>
       row_sum K Dp i = 0" if i: "i < Size K" for i
  proof -
    have off: "Dp k = ?d k" if "k \<in> set (off_diagonal K i)" for k
      using that inv i by (simp add: off_diagonal_def)
    then have offs: "map Dp (off_diagonal K i) = map ?d (off_diagonal K i)" by simp
    have one: "\<exists>k'. SparseMatrix_entry K (GetJ K k) i = Inr k' \<and>
           Dp k = max (max 0 (- GetData K k)) (- GetData K k') \<and>
           Dp k' = Dp k \<and> 0 \<le> Dp k" if k: "k \<in> set (off_diagonal K i)" for k
    proof -
      from k have kr: "k \<in> set (row_offsets K i)" and nd: "GetJ K k \<noteq> i"
        by (simp_all add: off_diagonal_def)
      have s: "smap k = symmetric_offset K i k" using smap i kr by simp
      note so = symmetric_offset_row [OF fin sym i kr]
      have col: "GetJ K k < Size K" by (rule finalized_row(3) [OF fin i kr])
      have "Dp (smap k) = ?d (smap k)"
        using inv col so(1) so(2) nd unfolding s by auto
      also have "\<dots> = ?d k" by (rule upwind_value_symmetric [OF fin sym smap i kr])
      also have "\<dots> = Dp k" using off [OF k] by simp
      finally have p: "Dp (smap k) = Dp k" .
      have v: "Dp k = max (max 0 (- GetData K k)) (- GetData K (smap k))"
        using off [OF k] by (simp add: upwind_value_def)
      then have "0 \<le> Dp k" by simp
      with so(3) p v show ?thesis unfolding s by blast
    qed
    have dia: "Dp k = - sum_list (map Dp (off_diagonal K i))"
      if "k \<in> set (row_offsets K i)" "GetJ K k = i" for k
      using that inv i unfolding offs by simp
    have "map Dp (row_offsets K i) =
          map (\<lambda>k. if GetJ K k = i then - ?R i else ?d k) (row_offsets K i)"
    proof (rule map_cong [OF refl])
      fix k assume "k \<in> set (row_offsets K i)"
      with inv i show "Dp k = (if GetJ K k = i then - ?R i else ?d k)" by blast
    qed
    then have "row_sum K Dp i =
          sum_list (map (\<lambda>k. if GetJ K k = i then - ?R i else ?d k) (row_offsets K i))"
      unfolding row_sum_def by (rule arg_cong)
    also have "\<dots> = - ?R i + sum_list (map ?d (filter (\<lambda>k. GetJ K k \<noteq> i) (row_offsets K i)))"
    proof (rule sum_list_one_diagonal)
      show "distinct (map (GetJ K) (row_offsets K i))" by (rule finalized_row(2) [OF fin i])
      show "i \<in> GetJ K ` set (row_offsets K i)" using dg i by (simp add: stores_diagonal_def)
    qed
    also have "\<dots> = 0" by (simp add: off_diagonal_def)
    finally have "row_sum K Dp i = 0" .
    with one dia show ?thesis by blast
  qed
  from res rows show ?thesis by blast
qed

text \<open>
  An instance: the matrix with rows \<open>(5, -1)\<close> and \<open>(3, 5)\<close>, stored with the off-diagonal
  entry first in row 0. The function returns and both rows of the result sum to zero.
\<close>

theorem ComputeDiscreteUpwindingMatrix_rows_sum_to_zero_witness:
  "\<exists>Dp. ComputeDiscreteUpwindingMatrix
          \<lparr>Size = 2, GetI = \<lambda>i. 2 * i, GetJ = \<lambda>k. if k = 0 \<or> k = 3 then 1 else 0,
           GetData = \<lambda>k. if k = 0 then - 1 else if k = 2 then 3 else 5\<rparr>
          \<lparr>Size = 2, GetI = \<lambda>i. 2 * i, GetJ = \<lambda>k. if k = 0 \<or> k = 3 then 1 else 0,
           GetData = \<lambda>k. if k = 0 then - 1 else if k = 2 then 3 else 5\<rparr>
          (\<lambda>_. 0) = Some (Inr Dp) \<and>
        row_sum \<lparr>Size = 2, GetI = \<lambda>i. 2 * i, GetJ = \<lambda>k. if k = 0 \<or> k = 3 then 1 else 0,
           GetData = \<lambda>k. if k = 0 then - 1 else if k = 2 then 3 else 5\<rparr> Dp 0 = 0 \<and>
        row_sum \<lparr>Size = 2, GetI = \<lambda>i. 2 * i, GetJ = \<lambda>k. if k = 0 \<or> k = 3 then 1 else 0,
           GetData = \<lambda>k. if k = 0 then - 1 else if k = 2 then 3 else 5\<rparr> Dp 1 = 0"
proof -
  let ?K = "\<lparr>Size = 2, GetI = \<lambda>i. 2 * i, GetJ = \<lambda>k. if k = 0 \<or> k = 3 then 1 else 0,
           GetData = \<lambda>k. if k = 0 then - 1 else if k = 2 then 3 else (5 :: real)\<rparr>"
  have fin: "finalized ?K" by code_simp
  have sym: "structurally_symmetric ?K" by code_simp
  have dg: "stores_diagonal ?K" by code_simp
  have same: "same_pattern ?K ?K" by code_simp
  from ComputeDiscreteUpwindingMatrix_rows_sum_to_zero [OF fin sym dg same, of "\<lambda>_. 0"]
  obtain Dp where
    res: "ComputeDiscreteUpwindingMatrix ?K ?K (\<lambda>_. 0) = Some (Inr Dp)"
    and rows: "\<forall>i<Size ?K. row_sum ?K Dp i = 0"
    by blast
  from rows have "row_sum ?K Dp 0 = 0" "row_sum ?K Dp 1 = 0" by simp_all
  with res show ?thesis by blast
qed

text \<open>
  The claim fails on a matrix that stores no diagonal: the finalized matrix with rows
  \<open>(\<cdot>, -1)\<close> and \<open>(-1, \<cdot>)\<close> has a symmetric pattern, and \<^verbatim>\<open>D(0,0) = -rowsum\<close> finds no
  entry to assign: the run aborts in row 0.
\<close>

theorem ComputeDiscreteUpwindingMatrix_without_diagonal:
  "finalized \<lparr>Size = 2, GetI = \<lambda>i. i, GetJ = \<lambda>k. 1 - k, GetData = \<lambda>_. - 1\<rparr> \<and>
   structurally_symmetric \<lparr>Size = 2, GetI = \<lambda>i. i, GetJ = \<lambda>k. 1 - k, GetData = \<lambda>_. - 1\<rparr> \<and>
   same_pattern \<lparr>Size = 2, GetI = \<lambda>i. i, GetJ = \<lambda>k. 1 - k, GetData = \<lambda>_. - 1\<rparr>
     \<lparr>Size = 2, GetI = \<lambda>i. i, GetJ = \<lambda>k. 1 - k, GetData = \<lambda>_. - 1\<rparr> \<and>
   ComputeDiscreteUpwindingMatrix
     \<lparr>Size = 2, GetI = \<lambda>i. i, GetJ = \<lambda>k. 1 - k, GetData = \<lambda>_. - 1\<rparr>
     \<lparr>Size = 2, GetI = \<lambda>i. i, GetJ = \<lambda>k. 1 - k, GetData = \<lambda>_. - 1\<rparr> (\<lambda>_. 0) =
   Some (Inl Did_not_find_entry)"
proof -
  let ?K = "\<lparr>Size = 2, GetI = \<lambda>i. i, GetJ = \<lambda>k. 1 - k, GetData = \<lambda>_. - 1 :: real\<rparr>"
  have fin: "finalized ?K" by code_simp
  have sym: "structurally_symmetric ?K" by code_simp
  have same: "same_pattern ?K ?K" by code_simp
  have "map_option (map_sum id (\<lambda>_. ())) (ComputeDiscreteUpwindingMatrix ?K ?K (\<lambda>_. 0)) =
        Some (Inl Did_not_find_entry)"
    by code_simp
  then have "ComputeDiscreteUpwindingMatrix ?K ?K (\<lambda>_. 0) = Some (Inl Did_not_find_entry)"
    by (rule aborted_run)
  with fin sym same show ?thesis by (intro conjI)
qed

end
